(* ===== verification/Prelude.thy ===== *)
theory Prelude
  imports Main "HOL-Library.Sublist" "HOL-Library.List_Lexorder"
    "HOL-Library.Product_Lexorder" "HOL-Library.Char_ord"
begin

text \<open>
  What every component shares: the collections of facts the proofs use, Rust's
  unsigned integers with their wrap-around, saturation and overflow checks written
  out, the question mark operator on a state that is threaded through a
  computation, byte strings, and the decimal spelling of numbers.
\<close>

named_theorems state_simps \<open>equations that unfold the operations of the state machine\<close>
named_theorems inv_intros \<open>preservation of one invariant by one operation\<close>
named_theorems op_errors \<open>an operation that fails leaves the state as it was\<close>
named_theorems op_clock \<open>an operation never moves the clock back\<close>

section \<open>Unsigned integers\<close>

text \<open>
  A \<open>u64\<close> or \<open>u32\<close> is a natural number. Plain addition and subtraction wrap
  (the release profile of the workspace leaves overflow checks off), and
  \<open>saturating_add\<close>, \<open>checked_add\<close> and \<open>try_from\<close> are the functions below;
  \<open>saturating_sub\<close> is subtraction on \<open>nat\<close>.
\<close>

type_synonym u64 = nat
type_synonym u32 = nat
type_synonym i64 = int

definition U64_MAX :: nat where
  "U64_MAX = 18446744073709551615"

definition U32_MAX :: nat where
  "U32_MAX = 4294967295"

definition wadd64 :: "u64 \<Rightarrow> u64 \<Rightarrow> u64" where
  "wadd64 a b = (a + b) mod (U64_MAX + 1)"

definition wsub64 :: "u64 \<Rightarrow> u64 \<Rightarrow> u64" where
  "wsub64 a b = (a + (U64_MAX + 1 - b mod (U64_MAX + 1))) mod (U64_MAX + 1)"

definition wadd32 :: "u32 \<Rightarrow> u32 \<Rightarrow> u32" where
  "wadd32 a b = (a + b) mod (U32_MAX + 1)"

definition sat_add64 :: "u64 \<Rightarrow> u64 \<Rightarrow> u64" where
  "sat_add64 a b = min (a + b) U64_MAX"

definition sat_add32 :: "u32 \<Rightarrow> u32 \<Rightarrow> u32" where
  "sat_add32 a b = min (a + b) U32_MAX"

definition checked_add64 :: "u64 \<Rightarrow> u64 \<Rightarrow> u64 option" where
  "checked_add64 a b = (if a + b \<le> U64_MAX then Some (a + b) else None)"

definition checked_add32 :: "u32 \<Rightarrow> u32 \<Rightarrow> u32 option" where
  "checked_add32 a b = (if a + b \<le> U32_MAX then Some (a + b) else None)"

definition try_from_u32 :: "nat \<Rightarrow> u32 option" where
  "try_from_u32 n = (if n \<le> U32_MAX then Some n else None)"

lemma wadd64_exact: "a + b \<le> U64_MAX \<Longrightarrow> wadd64 a b = a + b"
  by (simp add: wadd64_def)

lemma wadd64_le [simp]: "wadd64 a b \<le> U64_MAX"
  by (simp add: wadd64_def less_Suc_eq_le [symmetric])

lemma wadd32_exact: "a + b \<le> U32_MAX \<Longrightarrow> wadd32 a b = a + b"
  by (simp add: wadd32_def)

lemma sat_add64_ge: "a \<le> U64_MAX \<Longrightarrow> a \<le> sat_add64 a b"
  by (simp add: sat_add64_def)

lemma sat_add64_le [simp]: "sat_add64 a b \<le> U64_MAX"
  by (simp add: sat_add64_def)

lemma sat_add64_mono: "b \<le> c \<Longrightarrow> sat_add64 a b \<le> sat_add64 a c"
  by (simp add: sat_add64_def)

lemma sat_add32_le [simp]: "sat_add32 a b \<le> U32_MAX"
  by (simp add: sat_add32_def)

lemma checked_add64_Some [simp]:
  "checked_add64 a b = Some c \<longleftrightarrow> c = a + b \<and> a + b \<le> U64_MAX"
  by (auto simp: checked_add64_def)

lemma checked_add32_Some [simp]:
  "checked_add32 a b = Some c \<longleftrightarrow> c = a + b \<and> a + b \<le> U32_MAX"
  by (auto simp: checked_add32_def)

lemma try_from_u32_Some [simp]: "try_from_u32 n = Some m \<longleftrightarrow> m = n \<and> n \<le> U32_MAX"
  by (auto simp: try_from_u32_def)

text \<open>A wrapping sum over a list only depends on the exact sum.\<close>

definition wsum64 :: "u64 list \<Rightarrow> u64" where
  "wsum64 xs = foldl wadd64 0 xs"

lemma foldl_wadd64: "foldl wadd64 a xs mod (U64_MAX + 1) = (a + sum_list xs) mod (U64_MAX + 1)"
proof (induction xs arbitrary: a)
  case Nil
  show ?case by simp
next
  case (Cons x xs)
  have "foldl wadd64 (wadd64 a x) xs mod (U64_MAX + 1)
      = (wadd64 a x + sum_list xs) mod (U64_MAX + 1)"
    by (rule Cons.IH)
  then show ?case
    by (simp add: wadd64_def [of a x] mod_add_left_eq add.assoc del: One_nat_def)
qed

lemma foldl_wadd64_le: "a \<le> U64_MAX \<Longrightarrow> foldl wadd64 a xs \<le> U64_MAX"
  by (induction xs arbitrary: a) simp_all

lemma wsum64_eq: "wsum64 xs = sum_list xs mod (U64_MAX + 1)"
proof -
  have "wsum64 xs mod (U64_MAX + 1) = sum_list xs mod (U64_MAX + 1)"
    using foldl_wadd64 [of 0 xs] by (simp add: wsum64_def)
  moreover have "wsum64 xs < U64_MAX + 1"
    using foldl_wadd64_le [of 0 xs] by (simp add: wsum64_def)
  ultimately show ?thesis by simp
qed

lemma wsub64_wadd64_mod:
  "wsub64 (s mod (U64_MAX + 1)) b = r mod (U64_MAX + 1)" if "s = r + b"
proof -
  let ?m = "U64_MAX + 1"
  have pos: "0 < ?m" by simp
  have "(s mod ?m + (?m - b mod ?m)) mod ?m = (s + (?m - b mod ?m)) mod ?m"
    by (simp only: mod_add_left_eq)
  also have "\<dots> = (r + (b + (?m - b mod ?m))) mod ?m"
    using that by (simp add: add.assoc)
  also have "\<dots> = (r + (b + (?m - b mod ?m)) mod ?m) mod ?m"
    by (simp only: mod_add_right_eq)
  also have "(b + (?m - b mod ?m)) mod ?m = (b mod ?m + (?m - b mod ?m)) mod ?m"
    by (simp only: mod_add_left_eq)
  also have "b mod ?m + (?m - b mod ?m) = ?m"
    using mod_less_divisor [OF pos, of b] by linarith
  finally show ?thesis
    by (simp add: wsub64_def)
qed

section \<open>The question mark operator\<close>

text \<open>
  A Rust method on \<open>&mut self\<close> that returns a \<open>Result\<close> is a function of the state
  that returns the state it leaves and the result. \<open>attempt s c k\<close> is \<open>c?\<close> followed
  by \<open>k\<close>: an error of \<open>c\<close> returns at once and leaves the state \<open>s\<close> reached so far.
  \<open>check\<close> is the same on values.
\<close>

definition attempt :: "'s \<Rightarrow> 'e + 'a \<Rightarrow> ('a \<Rightarrow> 's \<times> ('e + 'b)) \<Rightarrow> 's \<times> ('e + 'b)" where
  "attempt s c k = (case c of Inl e \<Rightarrow> (s, Inl e) | Inr x \<Rightarrow> k x)"

definition check :: "'e + 'a \<Rightarrow> ('a \<Rightarrow> 'e + 'b) \<Rightarrow> 'e + 'b" where
  "check c k = (case c of Inl e \<Rightarrow> Inl e | Inr x \<Rightarrow> k x)"

definition ok_or :: "'a option \<Rightarrow> 'e \<Rightarrow> 'e + 'a" where
  "ok_or x e = (case x of None \<Rightarrow> Inl e | Some a \<Rightarrow> Inr a)"

lemma attempt_simps [simp]:
  "attempt s (Inl e) k = (s, Inl e)"
  "attempt s (Inr x) k = k x"
  by (simp_all add: attempt_def)

lemma check_simps [simp]:
  "check (Inl e) k = Inl e"
  "check (Inr x) k = k x"
  by (simp_all add: check_def)

lemma ok_or_simps [simp]:
  "ok_or None e = Inl e"
  "ok_or (Some a) e = Inr a"
  by (simp_all add: ok_or_def)

lemma attempt_split:
  "P (attempt s c k) \<longleftrightarrow> (\<forall>e. c = Inl e \<longrightarrow> P (s, Inl e)) \<and> (\<forall>x. c = Inr x \<longrightarrow> P (k x))"
  by (cases c) simp_all

lemma attempt_split_asm:
  "P (attempt s c k) \<longleftrightarrow> \<not> ((\<exists>e. c = Inl e \<and> \<not> P (s, Inl e)) \<or> (\<exists>x. c = Inr x \<and> \<not> P (k x)))"
  by (simp add: attempt_def split: sum.split)

lemma check_split:
  "P (check c k) \<longleftrightarrow> (\<forall>e. c = Inl e \<longrightarrow> P (Inl e)) \<and> (\<forall>x. c = Inr x \<longrightarrow> P (k x))"
  by (simp add: check_def split: sum.split)

lemma check_split_asm:
  "P (check c k) \<longleftrightarrow> \<not> ((\<exists>e. c = Inl e \<and> \<not> P (Inl e)) \<or> (\<exists>x. c = Inr x \<and> \<not> P (k x)))"
  by (simp add: check_def split: sum.split)

lemma attemptE:
  assumes "attempt s c k = (s', r)"
  obtains e where "c = Inl e" "s' = s" "r = Inl e" | x where "c = Inr x" "k x = (s', r)"
  using assms by (cases c) auto

lemma attempt_eq_Inr: "attempt s c k = (s', Inr r) \<longleftrightarrow> (\<exists>x. c = Inr x \<and> k x = (s', Inr r))"
  by (cases c) auto

lemmas attempt_splits = attempt_split attempt_split_asm
lemmas check_splits = check_split check_split_asm

lemma check_Inr_iff: "check c k = Inr y \<longleftrightarrow> (\<exists>x. c = Inr x \<and> k x = Inr y)"
  by (cases c) simp_all

lemma ok_or_Inr_iff [simp]: "ok_or x e = Inr a \<longleftrightarrow> x = Some a"
  by (cases x) simp_all

lemma ok_or_Inl_iff [simp]: "ok_or x e = Inl e' \<longleftrightarrow> x = None \<and> e' = e"
  by (cases x) auto

text \<open>\<open>for x in xs { f(x)?; }\<close> on values.\<close>

fun check_all :: "('a \<Rightarrow> 'e + unit) \<Rightarrow> 'a list \<Rightarrow> 'e + unit" where
  "check_all f [] = Inr ()"
| "check_all f (x # xs) = check (f x) (\<lambda>_. check_all f xs)"

lemma check_all_Inr: "check_all f xs = Inr () \<longleftrightarrow> (\<forall>x \<in> set xs. f x = Inr ())"
  by (induction xs) (auto simp: check_Inr_iff)

section \<open>Byte strings and messages\<close>

text \<open>
  A Rust \<open>String\<close> is its UTF-8 bytes: a \<open>string\<close> whose characters are bytes, so
  \<open>length\<close> is \<open>len()\<close> and the order of \<open>List_Lexorder\<close> over \<open>Char_ord\<close> is the order
  of \<open>str\<close>. A formatted message is kept as its template and its arguments.
\<close>

datatype fmt_arg = FStr string | FNat nat | FRange nat nat | FStrs "string list"

datatype message = Fmt string "fmt_arg list"

definition strip_prefix :: "string \<Rightarrow> string \<Rightarrow> string option" where
  "strip_prefix p s = (if prefix p s then Some (drop (length p) s) else None)"

lemma strip_prefix_Some [simp]: "strip_prefix p s = Some t \<longleftrightarrow> s = p @ t"
  by (auto simp: strip_prefix_def prefix_def)

lemma strip_prefix_append [simp]: "strip_prefix p (p @ t) = Some t"
  by simp

text \<open>Two texts that agree up to the first separator agree on both sides of it.\<close>

lemma split_at_first:
  "x \<notin> set xs \<Longrightarrow> x \<notin> set xs' \<Longrightarrow> xs @ x # ys = xs' @ x # ys' \<longleftrightarrow> xs = xs' \<and> ys = ys'"
proof (induction xs arbitrary: xs')
  case Nil
  then show ?case by (cases xs') auto
next
  case (Cons a xs)
  then show ?case by (cases xs') auto
qed

section \<open>Decimal numbers\<close>

definition digit_char :: "nat \<Rightarrow> char" where
  "digit_char d = char_of (48 + d)"

definition is_digit :: "char \<Rightarrow> bool" where
  "is_digit c \<longleftrightarrow> 48 \<le> (of_char c :: nat) \<and> (of_char c :: nat) \<le> 57"

definition digit_val :: "char \<Rightarrow> nat" where
  "digit_val c = of_char c - 48"

text \<open>\<open>Display\<close> of an unsigned integer.\<close>

fun show_nat :: "nat \<Rightarrow> string" where
  "show_nat n = (if n < 10 then [digit_char n] else show_nat (n div 10) @ [digit_char (n mod 10)])"

declare show_nat.simps [simp del]

definition read_nat :: "string \<Rightarrow> nat" where
  "read_nat s = foldl (\<lambda>a c. 10 * a + digit_val c) 0 s"

lemma of_char_digit_char: "d < 10 \<Longrightarrow> (of_char (digit_char d) :: nat) = 48 + d"
  by (simp add: digit_char_def)

lemma digit_val_char [simp]: "d < 10 \<Longrightarrow> digit_val (digit_char d) = d"
  by (simp add: digit_val_def of_char_digit_char)

lemma is_digit_char [simp]: "d < 10 \<Longrightarrow> is_digit (digit_char d)"
  by (simp add: is_digit_def of_char_digit_char)

lemma show_nat_ne [simp]: "show_nat n \<noteq> []"
  by (subst show_nat.simps) simp

lemma show_nat_digits: "c \<in> set (show_nat n) \<Longrightarrow> is_digit c"
proof (induction n rule: show_nat.induct)
  case (1 n)
  then show ?case
    by (subst (asm) show_nat.simps) (auto split: if_splits)
qed

lemma read_nat_snoc [simp]: "read_nat (s @ [c]) = 10 * read_nat s + digit_val c"
  by (simp add: read_nat_def)

lemma read_show_nat [simp]: "read_nat (show_nat n) = n"
proof (induction n rule: show_nat.induct)
  case (1 n)
  show ?case
  proof (cases "n < 10")
    case True
    then show ?thesis
      by (subst show_nat.simps) (simp add: read_nat_def)
  next
    case False
    with 1 have "read_nat (show_nat (n div 10)) = n div 10" by simp
    with False show ?thesis
      by (subst show_nat.simps) simp
  qed
qed

lemma show_nat_inject [simp]: "show_nat m = show_nat n \<longleftrightarrow> m = n"
  by (metis read_show_nat)

end
