(* ===== verification/BTreeMap.thy ===== *)
theory BTreeMap
  imports Prelude
begin

text \<open>
  The ordered map of Rust's standard library, \<open>BTreeMap\<close>: its entries in ascending
  key order, with the operations the sources use. Every operation is characterised
  twice: by the map \<open>bm_get m\<close> it leaves (the lemmas the components use) and by the
  list \<open>bm_iter m\<close> of its entries (iteration order, and evaluation). The interface
  \<open>ordered_map\<close> collects the laws a client of such a map relies on.
\<close>

section \<open>Sorted association lists\<close>

definition al_wf :: "('k::linorder \<times> 'v) list \<Rightarrow> bool" where
  "al_wf xs \<longleftrightarrow> sorted_wrt (<) (map fst xs)"

fun al_insert :: "'k::linorder \<Rightarrow> 'v \<Rightarrow> ('k \<times> 'v) list \<Rightarrow> ('k \<times> 'v) list" where
  "al_insert k v [] = [(k, v)]"
| "al_insert k v ((k', v') # xs) =
     (if k < k' then (k, v) # (k', v') # xs
      else if k = k' then (k, v) # xs
      else (k', v') # al_insert k v xs)"

definition al_filter :: "('k \<Rightarrow> 'v \<Rightarrow> bool) \<Rightarrow> ('k \<times> 'v) list \<Rightarrow> ('k \<times> 'v) list" where
  "al_filter P xs = filter (\<lambda>(k, v). P k v) xs"

lemma al_wf_Nil [simp]: "al_wf []"
  by (simp add: al_wf_def)

lemma al_wf_Cons [simp]: "al_wf ((k, v) # xs) \<longleftrightarrow> (\<forall>p \<in> set xs. k < fst p) \<and> al_wf xs"
  by (auto simp: al_wf_def)

lemma al_wf_distinct: "al_wf xs \<Longrightarrow> distinct (map fst xs)"
  unfolding al_wf_def by (simp add: strict_sorted_iff)

lemma set_al_insert:
  "al_wf xs \<Longrightarrow> set (al_insert k v xs) = insert (k, v) {(k', v') \<in> set xs. k' \<noteq> k}"
  by (induction xs) (force split: if_splits)+

lemma al_wf_insert: "al_wf xs \<Longrightarrow> al_wf (al_insert k v xs)"
  by (induction xs) (fastforce simp: set_al_insert dest: less_trans)+

lemma al_wf_filter: "al_wf xs \<Longrightarrow> al_wf (al_filter P xs)"
  by (induction xs) (fastforce simp: al_filter_def)+

lemma map_of_al_insert: "map_of (al_insert k v xs) = (map_of xs)(k \<mapsto> v)"
  by (induction xs) auto

lemma map_of_al_filter:
  "al_wf xs \<Longrightarrow> map_of (al_filter P xs) k
     = (case map_of xs k of None \<Rightarrow> None | Some v \<Rightarrow> if P k v then Some v else None)"
proof (induction xs)
  case Nil
  show ?case by (simp add: al_filter_def)
next
  case (Cons p xs)
  obtain k' v' where p: "p = (k', v')" by (cases p)
  have none: "map_of xs k' = None"
    using al_wf_distinct [OF Cons.prems] p by (auto simp: map_of_eq_None_iff)
  have "map_of (al_filter P xs) k
     = (case map_of xs k of None \<Rightarrow> None | Some v \<Rightarrow> if P k v then Some v else None)"
    using Cons p by simp
  with none show ?case
    by (auto simp: p al_filter_def)
qed

section \<open>The type\<close>

typedef (overloaded) ('k::linorder, 'v) btree_map = "{xs :: ('k \<times> 'v) list. al_wf xs}"
  morphisms bm_iter Abs_btree_map
  by (rule exI [of _ "[]"]) simp

setup_lifting type_definition_btree_map

lift_definition bm_empty :: "('k::linorder, 'v) btree_map" is "[]"
  by simp

lift_definition bm_insert :: "'k::linorder \<Rightarrow> 'v \<Rightarrow> ('k, 'v) btree_map \<Rightarrow> ('k, 'v) btree_map"
  is al_insert
  by (rule al_wf_insert)

text \<open>\<open>retain\<close>\<close>

lift_definition bm_retain :: "('k::linorder \<Rightarrow> 'v \<Rightarrow> bool) \<Rightarrow> ('k, 'v) btree_map \<Rightarrow> ('k, 'v) btree_map"
  is al_filter
  by (rule al_wf_filter)

definition bm_get :: "('k::linorder, 'v) btree_map \<Rightarrow> 'k \<Rightarrow> 'v option" where
  "bm_get m k = map_of (bm_iter m) k"

definition bm_remove :: "'k::linorder \<Rightarrow> ('k, 'v) btree_map \<Rightarrow> ('k, 'v) btree_map" where
  "bm_remove k m = bm_retain (\<lambda>k' _. k' \<noteq> k) m"

definition bm_contains :: "('k::linorder, 'v) btree_map \<Rightarrow> 'k \<Rightarrow> bool" where
  "bm_contains m k \<longleftrightarrow> bm_get m k \<noteq> None"

definition bm_len :: "('k::linorder, 'v) btree_map \<Rightarrow> nat" where
  "bm_len m = length (bm_iter m)"

definition bm_is_empty :: "('k::linorder, 'v) btree_map \<Rightarrow> bool" where
  "bm_is_empty m \<longleftrightarrow> bm_iter m = []"

definition bm_keys :: "('k::linorder, 'v) btree_map \<Rightarrow> 'k list" where
  "bm_keys m = map fst (bm_iter m)"

definition bm_values :: "('k::linorder, 'v) btree_map \<Rightarrow> 'v list" where
  "bm_values m = map snd (bm_iter m)"

text \<open>\<open>first_key_value\<close>, and \<open>range(..=k).next_back()\<close>\<close>

definition bm_first :: "('k::linorder, 'v) btree_map \<Rightarrow> ('k \<times> 'v) option" where
  "bm_first m = (case bm_iter m of [] \<Rightarrow> None | p # _ \<Rightarrow> Some p)"

definition bm_last_le :: "('k::linorder, 'v) btree_map \<Rightarrow> 'k \<Rightarrow> ('k \<times> 'v) option" where
  "bm_last_le m k = (case rev (takeWhile (\<lambda>(k', _). k' \<le> k) (bm_iter m)) of
     [] \<Rightarrow> None | p # _ \<Rightarrow> Some p)"

text \<open>\<open>range(k..)\<close>\<close>

definition bm_range_from :: "('k::linorder, 'v) btree_map \<Rightarrow> 'k \<Rightarrow> ('k \<times> 'v) list" where
  "bm_range_from m k = dropWhile (\<lambda>(k', _). k' < k) (bm_iter m)"

text \<open>\<open>BTreeMap::from([(k, v)])\<close>\<close>

definition bm_singleton :: "'k::linorder \<Rightarrow> 'v \<Rightarrow> ('k, 'v) btree_map" where
  "bm_singleton k v = bm_insert k v bm_empty"

instantiation btree_map :: (linorder, equal) equal
begin
definition equal_btree_map :: "('a, 'b) btree_map \<Rightarrow> ('a, 'b) btree_map \<Rightarrow> bool" where
  "equal_btree_map m n \<longleftrightarrow> bm_iter m = bm_iter n"
instance
  by standard (simp add: equal_btree_map_def bm_iter_inject)
end

section \<open>Laws\<close>

lemma bm_iter_wf [simp]: "al_wf (bm_iter m)"
  using bm_iter [of m] by simp

lemma bm_iter_distinct [simp]: "distinct (map fst (bm_iter m))"
  by (rule al_wf_distinct) simp

lemma bm_get_empty [simp]: "bm_get bm_empty = (\<lambda>_. None)"
  by (rule ext) (simp add: bm_get_def bm_empty.rep_eq)

lemma bm_get_insert [simp]: "bm_get (bm_insert k v m) = (bm_get m)(k \<mapsto> v)"
  by (rule ext) (simp add: bm_get_def bm_insert.rep_eq map_of_al_insert)

lemma bm_get_retain:
  "bm_get (bm_retain P m) k
     = (case bm_get m k of None \<Rightarrow> None | Some v \<Rightarrow> if P k v then Some v else None)"
  by (simp add: bm_get_def bm_retain.rep_eq map_of_al_filter)

lemma bm_get_retain_Some [simp]:
  "bm_get (bm_retain P m) k = Some v \<longleftrightarrow> bm_get m k = Some v \<and> P k v"
  by (auto simp: bm_get_retain split: option.splits)

lemma bm_get_remove [simp]: "bm_get (bm_remove k m) = (bm_get m)(k := None)"
  by (rule ext) (auto simp: bm_remove_def bm_get_retain split: option.splits)

lemma bm_contains_iff [simp]: "bm_contains m k \<longleftrightarrow> k \<in> dom (bm_get m)"
  by (auto simp: bm_contains_def)

lemma bm_iter_get: "(k, v) \<in> set (bm_iter m) \<longleftrightarrow> bm_get m k = Some v"
  by (simp add: bm_get_def)

lemma set_bm_keys [simp]: "set (bm_keys m) = dom (bm_get m)"
  by (force simp: bm_keys_def bm_get_def dom_map_of_conv_image_fst)

lemma set_bm_values [simp]: "set (bm_values m) = ran (bm_get m)"
  by (force simp: bm_values_def ran_def bm_iter_get [symmetric] image_iff)

lemma finite_dom_bm_get [simp]: "finite (dom (bm_get m))"
  by (metis set_bm_keys List.finite_set)

lemma bm_len_card: "bm_len m = card (dom (bm_get m))"
proof -
  have "card (set (map fst (bm_iter m))) = length (map fst (bm_iter m))"
    by (rule distinct_card) simp
  then show ?thesis
    by (simp add: bm_len_def set_bm_keys [symmetric] bm_keys_def)
qed

lemma bm_is_empty_iff [simp]: "bm_is_empty m \<longleftrightarrow> bm_get m = (\<lambda>_. None)"
proof
  assume "bm_is_empty m"
  then show "bm_get m = (\<lambda>_. None)"
    by (auto simp: bm_is_empty_def bm_get_def fun_eq_iff)
next
  assume "bm_get m = (\<lambda>_. None)"
  then have "\<And>k v. (k, v) \<notin> set (bm_iter m)"
    by (simp add: bm_iter_get)
  then have "\<And>p. p \<notin> set (bm_iter m)"
    by (metis surj_pair)
  then show "bm_is_empty m"
    by (cases "bm_iter m") (auto simp: bm_is_empty_def)
qed

lemma al_wf_unique:
  "al_wf xs \<Longrightarrow> al_wf ys \<Longrightarrow> set xs = set ys \<Longrightarrow> xs = ys"
proof (induction xs arbitrary: ys)
  case Nil
  then show ?case by simp
next
  case (Cons p xs)
  obtain k v where p: "p = (k, v)" by (cases p)
  from Cons.prems(3) obtain q ys' where ys: "ys = q # ys'"
    by (cases ys) auto
  obtain k' v' where q: "q = (k', v')" by (cases q)
  have kv: "(k, v) \<in> set ((k', v') # ys')" "(k', v') \<in> set ((k, v) # xs)"
    using Cons.prems(3) ys p q by auto
  have lt: "\<And>r. r \<in> set xs \<Longrightarrow> k < fst r" "\<And>r. r \<in> set ys' \<Longrightarrow> k' < fst r"
    using Cons.prems(1,2) ys p q by auto
  have "k = k'"
    using kv lt(1) [of "(k', v')"] lt(2) [of "(k, v)"] by auto
  with kv lt(2) [of "(k, v)"] have "k = k' \<and> v = v'"
    by auto
  moreover from this have "set xs = set ys'"
    using Cons.prems(3) ys p q lt by (metis fst_conv insert_ident less_irrefl list.simps(15))
  ultimately show ?case
    using Cons.IH [of ys'] Cons.prems ys p q by auto
qed

text \<open>Extensionality: an ordered map is determined by its lookups.\<close>

lemma bm_eqI: "bm_get m = bm_get n \<Longrightarrow> m = n"
proof -
  assume eq: "bm_get m = bm_get n"
  have "set (bm_iter m) = set (bm_iter n)"
    using bm_iter_get [of _ _ m] bm_iter_get [of _ _ n] eq by (auto simp: set_eq_iff)
  then have "bm_iter m = bm_iter n"
    by (intro al_wf_unique) simp_all
  then show "m = n"
    by (simp add: bm_iter_inject)
qed

lemma bm_eq_iff: "m = n \<longleftrightarrow> bm_get m = bm_get n"
  by (auto intro: bm_eqI)

lemma bm_get_eq_iff [simp]: "bm_get m = bm_get n \<longleftrightarrow> m = n"
  by (auto intro: bm_eqI)

lemma bm_remove_absent [simp]: "bm_get m k = None \<Longrightarrow> bm_remove k m = m"
  by (rule bm_eqI) auto

lemma bm_insert_present: "bm_get m k = Some v \<Longrightarrow> bm_insert k v m = m"
  by (rule bm_eqI) auto

subsection \<open>Ordered access\<close>

lemma bm_first_None [simp]: "bm_first m = None \<longleftrightarrow> bm_get m = (\<lambda>_. None)"
  using bm_is_empty_iff [of m]
  by (cases "bm_iter m") (simp_all add: bm_first_def bm_is_empty_def del: bm_is_empty_iff)

lemma bm_first_Some:
  "bm_first m = Some (k, v) \<longleftrightarrow> bm_get m k = Some v \<and> (\<forall>k' \<in> dom (bm_get m). k \<le> k')"
proof (cases "bm_iter m")
  case Nil
  then show ?thesis by (simp add: bm_first_def bm_get_def)
next
  case (Cons p xs)
  obtain k0 v0 where p: "p = (k0, v0)" by (cases p)
  have wf: "al_wf ((k0, v0) # xs)" using bm_iter_wf [of m] Cons p by simp
  have dom: "dom (bm_get m) = insert k0 (fst ` set xs)"
    using set_bm_keys [of m] Cons p by (simp add: bm_keys_def)
  have get: "bm_get m k0 = Some v0"
    using Cons p by (simp add: bm_get_def)
  show ?thesis
  proof
    assume "bm_first m = Some (k, v)"
    then have "k = k0" "v = v0" using Cons p by (simp_all add: bm_first_def)
    with wf dom get show "bm_get m k = Some v \<and> (\<forall>k' \<in> dom (bm_get m). k \<le> k')"
      by (auto intro: less_imp_le)
  next
    assume r: "bm_get m k = Some v \<and> (\<forall>k' \<in> dom (bm_get m). k \<le> k')"
    then have "k \<le> k0" "k \<in> insert k0 (fst ` set xs)" using dom by auto
    with wf have "k = k0" by (auto dest: less_le_trans)
    with r get Cons p show "bm_first m = Some (k, v)" by (simp add: bm_first_def)
  qed
qed

lemma takeWhile_le_al_wf:
  "al_wf xs \<Longrightarrow> takeWhile (\<lambda>(k', _). k' \<le> k) xs = filter (\<lambda>(k', _). k' \<le> k) xs"
proof (induction xs)
  case Nil
  show ?case by simp
next
  case (Cons p xs)
  obtain k0 v0 where p: "p = (k0, v0)" by (cases p)
  show ?case
  proof (cases "k0 \<le> k")
    case True
    with Cons p show ?thesis by simp
  next
    case False
    with Cons.prems p have "\<forall>q \<in> set xs. \<not> fst q \<le> k" by force
    then have "filter (\<lambda>(k', _). k' \<le> k) xs = []"
      by (auto simp: filter_empty_conv)
    with False p show ?thesis by simp
  qed
qed

lemma bm_last_le_None: "bm_last_le m k = None \<longleftrightarrow> (\<forall>k' \<in> dom (bm_get m). k < k')"
proof -
  have "bm_last_le m k = None \<longleftrightarrow> filter (\<lambda>(k', _). k' \<le> k) (bm_iter m) = []"
    by (auto simp: bm_last_le_def takeWhile_le_al_wf split: list.splits)
  also have "\<dots> \<longleftrightarrow> (\<forall>k' v'. bm_get m k' = Some v' \<longrightarrow> \<not> k' \<le> k)"
    by (auto simp: filter_empty_conv bm_iter_get [symmetric])
  finally show ?thesis
    by (auto simp: not_le)
qed

lemma bm_last_le_Some:
  "bm_last_le m k = Some (j, v) \<longleftrightarrow>
     bm_get m j = Some v \<and> j \<le> k \<and> (\<forall>k' \<in> dom (bm_get m). k' \<le> k \<longrightarrow> k' \<le> j)"
proof -
  let ?f = "filter (\<lambda>(k', _). k' \<le> k) (bm_iter m)"
  have set_f: "\<And>k' v'. (k', v') \<in> set ?f \<longleftrightarrow> bm_get m k' = Some v' \<and> k' \<le> k"
    by (auto simp: bm_iter_get)
  have wf: "al_wf ?f"
    using al_wf_filter [OF bm_iter_wf [of m], of "\<lambda>k' _. k' \<le> k"] by (simp add: al_filter_def)
  have eq: "bm_last_le m k = (case rev ?f of [] \<Rightarrow> None | p # _ \<Rightarrow> Some p)"
    by (simp add: bm_last_le_def takeWhile_le_al_wf)
  show ?thesis
  proof (cases ?f rule: rev_cases)
    case Nil
    then have none: "\<not> (bm_get m j = Some v \<and> j \<le> k)"
      using set_f [of j v] by simp
    have "bm_last_le m k = None" using eq Nil by simp
    with none show ?thesis by auto
  next
    case (snoc ys p)
    obtain j0 v0 where p: "p = (j0, v0)" by (cases p)
    have in_f: "bm_get m j0 = Some v0 \<and> j0 \<le> k" using set_f [of j0 v0] snoc p by simp
    have max: "\<And>k' v'. (k', v') \<in> set ?f \<Longrightarrow> k' \<le> j0"
      using wf snoc p by (fastforce simp: al_wf_def sorted_wrt_append)
    have "bm_last_le m k = Some (j0, v0)" using eq snoc p by simp
    moreover have "bm_get m j = Some v \<Longrightarrow> j \<le> k \<Longrightarrow> j0 \<le> j \<Longrightarrow> j = j0 \<and> v = v0"
      using max [of j v] set_f [of j v] in_f by auto
    ultimately show ?thesis
      using in_f max set_f by (fastforce simp: dom_def)
  qed
qed

subsection \<open>Iteration after an update\<close>

lemma bm_iter_empty [simp]: "bm_iter bm_empty = []"
  by (simp add: bm_empty.rep_eq)

lemma bm_iter_retain: "bm_iter (bm_retain P m) = filter (\<lambda>(k, v). P k v) (bm_iter m)"
  by (simp add: bm_retain.rep_eq al_filter_def)

lemma bm_iter_remove: "bm_iter (bm_remove k m) = filter (\<lambda>(k', _). k' \<noteq> k) (bm_iter m)"
  by (simp add: bm_remove_def bm_iter_retain)

lemma al_insert_mid:
  "\<forall>p \<in> set xs. fst p < k \<Longrightarrow> \<forall>p \<in> set ys. k < fst p \<Longrightarrow>
     al_insert k v (xs @ ys) = xs @ (k, v) # ys"
proof (induction xs)
  case Nil
  then show ?case by (cases ys) auto
next
  case (Cons p xs)
  then show ?case by (cases p) auto
qed

lemma bm_iter_insert_mid:
  "bm_iter m = xs @ ys \<Longrightarrow> \<forall>p \<in> set xs. fst p < k \<Longrightarrow> \<forall>p \<in> set ys. k < fst p \<Longrightarrow>
     bm_iter (bm_insert k v m) = xs @ (k, v) # ys"
  by (simp add: bm_insert.rep_eq al_insert_mid)

lemma bm_iter_insert_last:
  "\<forall>p \<in> set (bm_iter m). fst p < k \<Longrightarrow> bm_iter (bm_insert k v m) = bm_iter m @ [(k, v)]"
  using bm_iter_insert_mid [of m "bm_iter m" "[]" k v] by simp

lemma bm_iter_remove_hd:
  assumes "bm_iter m = (k, v) # xs"
  shows "bm_iter (bm_remove k m) = xs"
proof -
  have "al_wf ((k, v) # xs)" using bm_iter_wf [of m] assms by simp
  then have "\<forall>p \<in> set xs. fst p \<noteq> k" by auto
  then have "filter (\<lambda>(k', _). k' \<noteq> k) xs = xs" by (intro filter_True) auto
  with assms show ?thesis by (simp add: bm_iter_remove)
qed

lemma bm_iter_remove_mid:
  assumes "bm_iter m = xs @ (k, v) # ys"
  shows "bm_iter (bm_remove k m) = xs @ ys"
proof -
  have "distinct (map fst (xs @ (k, v) # ys))" using bm_iter_distinct [of m] assms by simp
  then have "filter (\<lambda>(k', _). k' \<noteq> k) xs = xs" "filter (\<lambda>(k', _). k' \<noteq> k) ys = ys"
    by (auto intro!: filter_True simp: image_iff)
  with assms show ?thesis by (simp add: bm_iter_remove)
qed

lemma bm_iter_split:
  assumes "bm_get m k = Some v"
  obtains xs ys where "bm_iter m = xs @ (k, v) # ys"
  using assms split_list [of "(k, v)" "bm_iter m"] by (auto simp: bm_iter_get)

text \<open>A sum over the entries after an insertion or a removal.\<close>

lemma al_insert_sum:
  "al_wf xs \<Longrightarrow> sum_list (map f (al_insert k v xs)) + (case map_of xs k of Some u \<Rightarrow> f (k, u) | None \<Rightarrow> 0)
     = sum_list (map f xs) + (f (k, v) :: nat)"
proof (induction xs)
  case Nil
  show ?case by simp
next
  case (Cons p xs)
  obtain k' v' where p: "p = (k', v')" by (cases p)
  show ?case
  proof (cases "k < k'")
    case True
    with Cons.prems p have "map_of xs k = None"
      by (auto simp: map_of_eq_None_iff dest: less_trans)
    with True p show ?thesis by auto
  next
    case False
    with Cons p show ?thesis by auto
  qed
qed

lemma bm_insert_sum:
  "sum_list (map f (bm_iter (bm_insert k v m))) + (case bm_get m k of Some u \<Rightarrow> f (k, u) | None \<Rightarrow> 0)
     = sum_list (map f (bm_iter m)) + (f (k, v) :: nat)"
  using al_insert_sum [OF bm_iter_wf, of f k v m] by (simp add: bm_insert.rep_eq bm_get_def)

lemma bm_remove_sum:
  assumes "bm_get m k = Some v"
  shows "sum_list (map f (bm_iter (bm_remove k m))) + f (k, v) = (sum_list (map f (bm_iter m)) :: nat)"
proof -
  obtain xs ys where "bm_iter m = xs @ (k, v) # ys" by (rule bm_iter_split [OF assms])
  then show ?thesis by (simp add: bm_iter_remove_mid)
qed

lemma bm_range_from_filter: "bm_range_from m k = filter (\<lambda>(k', _). k \<le> k') (bm_iter m)"
proof -
  have "al_wf xs \<Longrightarrow> dropWhile (\<lambda>(k', _). k' < k) xs = filter (\<lambda>(k', _). k \<le> k') xs" for xs :: "('a \<times> 'b) list"
  proof (induction xs)
    case Nil
    show ?case by simp
  next
    case (Cons p xs)
    obtain k0 v0 where p: "p = (k0, v0)" by (cases p)
    show ?case
    proof (cases "k0 < k")
      case True
      with Cons p show ?thesis by simp
    next
      case False
      with Cons.prems p have "\<forall>q \<in> set xs. k \<le> fst q" by force
      then have "filter (\<lambda>(k', _). k \<le> k') xs = xs" by (intro filter_True) auto
      with False p show ?thesis by simp
    qed
  qed
  then show ?thesis by (simp add: bm_range_from_def)
qed

section \<open>The interface\<close>

text \<open>
  What a client of an ordered map relies on: lookups after each update, and iteration
  in ascending key order over exactly the entries. Iteration is then determined by the
  lookups alone, so it does not depend on the order in which entries were added.
\<close>

locale ordered_map =
  fixes empty :: 'm
    and put :: "'k::linorder \<Rightarrow> 'v \<Rightarrow> 'm \<Rightarrow> 'm"
    and del :: "'k \<Rightarrow> 'm \<Rightarrow> 'm"
    and get :: "'m \<Rightarrow> 'k \<Rightarrow> 'v option"
    and iter :: "'m \<Rightarrow> ('k \<times> 'v) list"
  assumes get_empty: "get empty = (\<lambda>_. None)"
    and get_put: "get (put k v m) = (get m)(k \<mapsto> v)"
    and get_del: "get (del k m) = (get m)(k := None)"
    and iter_ascending: "sorted_wrt (<) (map fst (iter m))"
    and iter_entries: "(k, v) \<in> set (iter m) \<longleftrightarrow> get m k = Some v"
begin

lemma iter_determined: "get m = get n \<Longrightarrow> iter m = iter n"
  by (rule al_wf_unique) (auto simp: al_wf_def iter_ascending iter_entries)

lemma iter_put_commute: "j \<noteq> k \<Longrightarrow> iter (put j u (put k v m)) = iter (put k v (put j u m))"
  by (intro iter_determined) (simp add: get_put fun_upd_twist)

lemma iter_put_del: "get m k = None \<Longrightarrow> iter (del k (put k v m)) = iter m"
  by (intro iter_determined) (simp add: get_put get_del fun_upd_idem)

end

interpretation btree: ordered_map bm_empty bm_insert bm_remove bm_get bm_iter
  by unfold_locales (auto simp: bm_iter_get simp flip: al_wf_def)

end
