(* ===== verification/MetaTypes.thy ===== *)
theory MetaTypes
  imports BTreeMap
begin

text \<open>
  The data of the metastore, from \<open>loams-common\<close>: the identifiers and their one
  canonical spelling (\<open>id.rs\<close>), the catalog, log, lease, pointer and ledger types
  with their small methods (\<open>meta/types.rs\<close>), the names derived from identifiers,
  and the errors of the state machine (\<open>meta/error.rs\<close>).
\<close>

section \<open>Identifiers\<close>

datatype NamespaceId = NamespaceId (ns_u64: u64)
datatype StreamId = StreamId (stream_u64: u64)
datatype CollectionId = CollectionId (coll_u64: u64)
datatype LinkId = LinkId (link_u64: u64)

instantiation NamespaceId :: linorder
begin
definition less_eq_NamespaceId :: "NamespaceId \<Rightarrow> NamespaceId \<Rightarrow> bool" where
  "less_eq_NamespaceId a b \<longleftrightarrow> ns_u64 a \<le> ns_u64 b"
definition less_NamespaceId :: "NamespaceId \<Rightarrow> NamespaceId \<Rightarrow> bool" where
  "less_NamespaceId a b \<longleftrightarrow> ns_u64 a < ns_u64 b"
instance
  by standard (auto simp: less_eq_NamespaceId_def less_NamespaceId_def intro: NamespaceId.expand)
end

instantiation StreamId :: linorder
begin
definition less_eq_StreamId :: "StreamId \<Rightarrow> StreamId \<Rightarrow> bool" where
  "less_eq_StreamId a b \<longleftrightarrow> stream_u64 a \<le> stream_u64 b"
definition less_StreamId :: "StreamId \<Rightarrow> StreamId \<Rightarrow> bool" where
  "less_StreamId a b \<longleftrightarrow> stream_u64 a < stream_u64 b"
instance
  by standard (auto simp: less_eq_StreamId_def less_StreamId_def intro: StreamId.expand)
end

instantiation CollectionId :: linorder
begin
definition less_eq_CollectionId :: "CollectionId \<Rightarrow> CollectionId \<Rightarrow> bool" where
  "less_eq_CollectionId a b \<longleftrightarrow> coll_u64 a \<le> coll_u64 b"
definition less_CollectionId :: "CollectionId \<Rightarrow> CollectionId \<Rightarrow> bool" where
  "less_CollectionId a b \<longleftrightarrow> coll_u64 a < coll_u64 b"
instance
  by standard (auto simp: less_eq_CollectionId_def less_CollectionId_def intro: CollectionId.expand)
end

instantiation LinkId :: linorder
begin
definition less_eq_LinkId :: "LinkId \<Rightarrow> LinkId \<Rightarrow> bool" where
  "less_eq_LinkId a b \<longleftrightarrow> link_u64 a \<le> link_u64 b"
definition less_LinkId :: "LinkId \<Rightarrow> LinkId \<Rightarrow> bool" where
  "less_LinkId a b \<longleftrightarrow> link_u64 a < link_u64 b"
instance
  by standard (auto simp: less_eq_LinkId_def less_LinkId_def intro: LinkId.expand)
end

text \<open>
  \<open>parse_canonical\<close>: digits only, no leading zero except in \<open>0\<close> itself, and at most
  \<open>u64::MAX\<close>. The error carries the text.
\<close>

definition parse_canonical :: "string \<Rightarrow> string + u64" where
  "parse_canonical s =
     (if s \<noteq> [] \<and> list_all is_digit s \<and> (s = ''0'' \<or> \<not> prefix ''0'' s)
      then if read_nat s \<le> U64_MAX then Inr (read_nat s) else Inl s
      else Inl s)"

definition parse_CollectionId :: "string \<Rightarrow> string + CollectionId" where
  "parse_CollectionId s = check (parse_canonical s) (\<lambda>n. Inr (CollectionId n))"

section \<open>Catalog types\<close>

record Namespace =
  n_id :: NamespaceId
  n_name :: string

datatype WalClass = Standard | Express | Quorum

record Retention =
  max_age_ms :: "u64 option"
  max_bytes :: "u64 option"

definition Retention_default :: Retention where
  "Retention_default = \<lparr>max_age_ms = None, max_bytes = None\<rparr>"

record TargetRef =
  t_kind :: string
  t_name :: string

record Link =
  l_id :: LinkId
  l_namespace :: NamespaceId
  l_name :: string
  l_source :: StreamId
  l_target :: TargetRef
  l_options :: "(string, string) btree_map"

record Stream =
  s_id :: StreamId
  s_namespace :: NamespaceId
  s_name :: string
  s_partitions :: u32
  s_class :: WalClass
  s_retention :: Retention

section \<open>Log types\<close>

record byte_range =
  br_start :: u64
  br_end :: u64

record WalChunk =
  ch_stream :: StreamId
  ch_partition :: u32
  ch_records :: u32
  ch_byte_range :: byte_range
  ch_max_timestamp_ms :: i64

datatype EntryKind = Wal | Segment

record IndexEntry =
  e_kind :: EntryKind
  e_base_offset :: u64
  e_records :: u32
  e_object :: string
  e_byte_range :: byte_range
  e_max_timestamp_ms :: i64

definition end_offset :: "IndexEntry \<Rightarrow> u64" where
  "end_offset e = wadd64 (e_base_offset e) (e_records e)"

definition WAL_COMMIT_WINDOW_MS :: u64 where
  "WAL_COMMIT_WINDOW_MS = 900000"

section \<open>The ingest ledger\<close>

type_synonym IdempotencyKey = string

definition MAX_IDEMPOTENCY_TTL_MS :: u64 where
  "MAX_IDEMPOTENCY_TTL_MS = 86400000"

definition MAX_IDEMPOTENCY_KEYS :: nat where
  "MAX_IDEMPOTENCY_KEYS = 1000"

datatype IdempotencyEntry =
    EntryPending string u64
  | EntryDone u32 u64 u64

fun until_ms :: "IdempotencyEntry \<Rightarrow> u64" where
  "until_ms (EntryPending _ u) = u"
| "until_ms (EntryDone _ _ u) = u"

definition is_live_at :: "IdempotencyEntry \<Rightarrow> u64 \<Rightarrow> bool" where
  "is_live_at e now \<longleftrightarrow> now < until_ms e"

datatype IdempotencyState =
    Claimed
  | InFlight u64
  | Done u32 u64

section \<open>Leases, fences, freshness, pointers\<close>

record Lease =
  le_epoch :: u64
  le_owner :: "string option"
  le_deadline_ms :: u64

definition is_held_at :: "Lease \<Rightarrow> u64 \<Rightarrow> bool" where
  "is_held_at l now \<longleftrightarrow> le_owner l \<noteq> None \<and> now < le_deadline_ms l"

record LeaseGrant =
  lg_epoch :: u64
  lg_deadline_ms :: u64

record Fence =
  f_lease :: string
  f_epoch :: u64

record Freshness =
  fr_created_at_ms :: u64
  fr_max_age_ms :: u64

definition expired_at :: "Freshness \<Rightarrow> u64 \<Rightarrow> bool" where
  "expired_at f clock \<longleftrightarrow> sat_add64 (fr_created_at_ms f) (fr_max_age_ms f) < clock"

record Pointer =
  p_version :: u64
  p_value :: string

section \<open>Limits and names\<close>

definition COLLECTION_KIND :: string where
  "COLLECTION_KIND = ''collection''"

definition MAX_COLLECTION_NAME_LEN :: nat where
  "MAX_COLLECTION_NAME_LEN = 222"

definition MAX_NAME_LEN :: nat where
  "MAX_NAME_LEN = 255"

definition MAX_PARTITIONS :: u32 where
  "MAX_PARTITIONS = 10000"

definition MAX_KEY_LEN :: nat where
  "MAX_KEY_LEN = 1024"

definition MAX_LEASE_TTL_MS :: u64 where
  "MAX_LEASE_TTL_MS = 3600000"

record HotConfig =
  hot_vectors :: bool
  hot_text :: bool
  hot_fragments :: bool

definition HotConfig_default :: HotConfig where
  "HotConfig_default = \<lparr>hot_vectors = False, hot_text = False, hot_fragments = False\<rparr>"

definition hot_any :: "HotConfig \<Rightarrow> bool" where
  "hot_any h \<longleftrightarrow> hot_vectors h \<or> hot_text h \<or> hot_fragments h"

definition hot_or :: "HotConfig \<Rightarrow> HotConfig \<Rightarrow> HotConfig" where
  "hot_or a b = \<lparr>hot_vectors = hot_vectors a \<or> hot_vectors b,
     hot_text = hot_text a \<or> hot_text b, hot_fragments = hot_fragments a \<or> hot_fragments b\<rparr>"

datatype AliasAction =
    AliasCreate string string
  | AliasDelete string

definition MAX_ALIAS_TARGETS :: nat where
  "MAX_ALIAS_TARGETS = 100"

datatype AliasTargetAction =
    TargetAdd string string "bool option"
  | TargetRemove string string
  | TargetRemoveAlias string

type_synonym alias_members = "(CollectionId, bool option) btree_map"

record AliasTargets =
  members :: alias_members

text \<open>
  \<open>AliasTargets::write_target\<close>: the member set to \<open>Some(true)\<close>, else the only member
  when there is exactly one and it is unset, else none.
\<close>

definition write_target :: "AliasTargets \<Rightarrow> CollectionId option" where
  "write_target t = (case find (\<lambda>(_, w). w = Some True) (bm_iter (members t)) of
     Some (cid, _) \<Rightarrow> Some cid
   | None \<Rightarrow> (case bm_iter (members t) of [(cid, None)] \<Rightarrow> Some cid | _ \<Rightarrow> None))"

definition implicit_name :: "string \<Rightarrow> CollectionId \<Rightarrow> string" where
  "implicit_name name cid = ''_collection.'' @ name @ ''.'' @ show_nat (coll_u64 cid)"

definition COLLECTION_POINTER_PREFIX :: string where
  "COLLECTION_POINTER_PREFIX = ''collection/''"

definition collection_pointer_key :: "CollectionId \<Rightarrow> string" where
  "collection_pointer_key cid = COLLECTION_POINTER_PREFIX @ show_nat (coll_u64 cid)"

definition collection_prefix :: "NamespaceId \<Rightarrow> CollectionId \<Rightarrow> string" where
  "collection_prefix ns cid =
     ''ns/'' @ show_nat (ns_u64 ns) @ ''/collections/'' @ show_nat (coll_u64 cid) @ ''/''"

definition collection_pk_prefix :: "NamespaceId \<Rightarrow> CollectionId \<Rightarrow> string" where
  "collection_pk_prefix ns cid =
     ''ns/'' @ show_nat (ns_u64 ns) @ ''/pk/collection-'' @ show_nat (coll_u64 cid) @ ''/''"

definition link_pointer_key :: "LinkId \<Rightarrow> string" where
  "link_pointer_key lid = ''link/'' @ show_nat (link_u64 lid)"

section \<open>Errors\<close>

datatype ApplyError =
    InvalidArgument message
  | NamespaceExists NamespaceId
  | NamespaceNotFound NamespaceId
  | StreamExists StreamId
  | StreamNotFound StreamId
  | LinkExists LinkId
  | PartitionNotFound StreamId u32
  | LeaseHeld string u64
  | LeaseLost string
  | VersionMismatch "Pointer option"
  | Fenced string
  | IndexMismatch StreamId u32
  | StaleCommit string
  | StaleObject string u64 u64 u64
  | CollectionExists CollectionId
  | CollectionNotFound CollectionId
  | NameTaken string
  | IncompatibleSchema message
  | SchemaVersionMismatch CollectionId u64
  | UnknownCollection string

record StaleLag =
  sl_deadline_ms :: u64
  sl_clock_ms :: u64
  sl_proposer_now_ms :: u64
  sl_late_by_ms :: u64
  sl_proposer_lag_ms :: i64

definition I64_MAX :: int where
  "I64_MAX = 9223372036854775807"

definition I64_MIN :: int where
  "I64_MIN = - 9223372036854775808"

definition i64_clamp :: "int \<Rightarrow> i64" where
  "i64_clamp x = (if I64_MIN \<le> x \<and> x \<le> I64_MAX then x else if x < 0 then I64_MIN else I64_MAX)"

definition stale_lag :: "ApplyError \<Rightarrow> u64 \<Rightarrow> StaleLag option" where
  "stale_lag err proposer_now = (case err of
     StaleObject obj created max_age clock \<Rightarrow>
       (let deadline = sat_add64 created max_age in
        Some \<lparr>sl_deadline_ms = deadline, sl_clock_ms = clock, sl_proposer_now_ms = proposer_now,
          sl_late_by_ms = clock - deadline,
          sl_proposer_lag_ms = i64_clamp (int clock - int proposer_now)\<rparr>)
   | _ \<Rightarrow> None)"

section \<open>Facts about names and identifiers\<close>

lemma NamespaceId_less [simp]: "NamespaceId a < NamespaceId b \<longleftrightarrow> a < b"
    "NamespaceId a \<le> NamespaceId b \<longleftrightarrow> a \<le> b"
  by (simp_all add: less_NamespaceId_def less_eq_NamespaceId_def)

lemma StreamId_less [simp]: "StreamId a < StreamId b \<longleftrightarrow> a < b"
    "StreamId a \<le> StreamId b \<longleftrightarrow> a \<le> b"
  by (simp_all add: less_StreamId_def less_eq_StreamId_def)

lemma CollectionId_less [simp]: "CollectionId a < CollectionId b \<longleftrightarrow> a < b"
    "CollectionId a \<le> CollectionId b \<longleftrightarrow> a \<le> b"
  by (simp_all add: less_CollectionId_def less_eq_CollectionId_def)

lemma LinkId_less [simp]: "LinkId a < LinkId b \<longleftrightarrow> a < b"
    "LinkId a \<le> LinkId b \<longleftrightarrow> a \<le> b"
  by (simp_all add: less_LinkId_def less_eq_LinkId_def)

lemma digit_char_eq_zero: "d < 10 \<Longrightarrow> digit_char d = CHR ''0'' \<longleftrightarrow> d = 0"
proof -
  assume d: "d < 10"
  have "digit_char 0 = CHR ''0''" by code_simp
  then show ?thesis
    using digit_val_char [OF d] digit_val_char [of 0] by force
qed

lemma show_nat_hd: "0 < n \<Longrightarrow> hd (show_nat n) \<noteq> CHR ''0''"
proof (induction n rule: show_nat.induct)
  case (1 n)
  show ?case
  proof (cases "n < 10")
    case True
    with 1 show ?thesis by (subst show_nat.simps) (simp add: digit_char_eq_zero)
  next
    case False
    with 1 show ?thesis by (subst show_nat.simps) simp
  qed
qed

lemma show_nat_0: "show_nat 0 = ''0''"
  by (subst show_nat.simps) (simp add: digit_char_eq_zero)

lemma show_nat_no_leading_zero: "show_nat n = ''0'' \<or> \<not> prefix ''0'' (show_nat n)"
proof (cases "n = 0")
  case True
  then show ?thesis by (simp add: show_nat_0)
next
  case False
  then have "hd (show_nat n) \<noteq> CHR ''0''" by (simp add: show_nat_hd)
  then show ?thesis by (auto simp: prefix_def)
qed

lemma length_show_nat: "n < 10 ^ k \<Longrightarrow> 0 < k \<Longrightarrow> length (show_nat n) \<le> k"
proof (induction n arbitrary: k rule: show_nat.induct)
  case (1 n)
  show ?case
  proof (cases "n < 10")
    case True
    with "1.prems" show ?thesis by (subst show_nat.simps) simp
  next
    case False
    with "1.prems" obtain j where k: "k = Suc j" and j: "0 < j"
      by (cases k; cases "k - 1") auto
    with "1.prems" have "n div 10 < 10 ^ j" by (simp add: less_mult_imp_div_less mult.commute)
    with "1.IH" [OF False] j have "length (show_nat (n div 10)) \<le> j" by blast
    with False k show ?thesis by (subst show_nat.simps) simp
  qed
qed

lemma length_show_u64: "n \<le> U64_MAX \<Longrightarrow> length (show_nat n) \<le> 20"
  by (rule length_show_nat) (simp_all add: U64_MAX_def)

lemma parse_show [simp]: "n \<le> U64_MAX \<Longrightarrow> parse_canonical (show_nat n) = Inr n"
  using show_nat_no_leading_zero [of n] show_nat_digits [of _ n]
  by (auto simp: parse_canonical_def list_all_iff)

text \<open>A digit string without a leading zero is the spelling of its own value.\<close>

lemma digit_char_val: "is_digit c \<Longrightarrow> digit_char (digit_val c) = c"
  by (simp add: is_digit_def digit_val_def digit_char_def)

lemma digit_val_less: "is_digit c \<Longrightarrow> digit_val c < 10"
  unfolding is_digit_def digit_val_def by linarith

lemma show_read_nat:
  assumes "list_all is_digit s" "s \<noteq> []" "s = ''0'' \<or> \<not> prefix ''0'' s"
  shows "show_nat (read_nat s) = s \<and> (s \<noteq> ''0'' \<longrightarrow> 0 < read_nat s)"
  using assms
proof (induction s rule: rev_induct)
  case Nil
  then show ?case by simp
next
  case (snoc c s)
  have c: "is_digit c" "digit_val c < 10" using snoc.prems by (simp_all add: digit_val_less)
  show ?case
  proof (cases "s = []")
    case True
    have "read_nat [c] = digit_val c" by (simp add: read_nat_def)
    moreover have "show_nat (digit_val c) = [c]"
      using c by (subst show_nat.simps) (simp add: digit_char_val)
    moreover have "[c] \<noteq> ''0'' \<Longrightarrow> 0 < digit_val c"
      using c digit_char_val [of c] digit_char_eq_zero [of 0] by (cases "digit_val c = 0") auto
    ultimately show ?thesis using True by simp
  next
    case False
    have nz: "\<not> prefix ''0'' s" using snoc.prems(3) False by auto
    then have "s \<noteq> ''0''" by auto
    with snoc.IH snoc.prems False nz have IH: "show_nat (read_nat s) = s" "0 < read_nat s"
      by auto
    have "\<not> 10 * read_nat s + digit_val c < 10" using IH(2) by simp
    moreover have "(10 * read_nat s + digit_val c) div 10 = read_nat s"
      and "(10 * read_nat s + digit_val c) mod 10 = digit_val c" using c by simp_all
    ultimately have "show_nat (10 * read_nat s + digit_val c) = s @ [c]"
      using IH(1) c by (subst show_nat.simps) (simp add: digit_char_val)
    then show ?thesis using IH(2) by simp
  qed
qed

lemma parse_canonical_Inr:
  "parse_canonical s = Inr n \<longleftrightarrow> s = show_nat n \<and> n \<le> U64_MAX"
proof
  assume "parse_canonical s = Inr n"
  then have "s \<noteq> []" "list_all is_digit s" "s = ''0'' \<or> \<not> prefix ''0'' s"
    "n = read_nat s" "n \<le> U64_MAX"
    by (auto simp: parse_canonical_def split: if_splits)
  then show "s = show_nat n \<and> n \<le> U64_MAX"
    using show_read_nat [of s] by simp
next
  assume "s = show_nat n \<and> n \<le> U64_MAX"
  then show "parse_canonical s = Inr n" by simp
qed

lemma parse_CollectionId_Inr:
  "parse_CollectionId s = Inr cid \<longleftrightarrow> s = show_nat (coll_u64 cid) \<and> coll_u64 cid \<le> U64_MAX"
  by (cases cid) (auto simp: parse_CollectionId_def check_Inr_iff parse_canonical_Inr)

lemma dot_not_digit: "is_digit c \<Longrightarrow> c \<noteq> CHR ''.''"
  by (auto simp: is_digit_def)

lemma implicit_name_inject:
  "implicit_name a i = implicit_name b j \<longleftrightarrow> a = b \<and> i = j"
proof
  assume eq: "implicit_name a i = implicit_name b j"
  have nodot: "CHR ''.'' \<notin> set (rev (show_nat n))" for n
    using show_nat_digits [of "CHR ''.''" n] dot_not_digit by auto
  have "a @ ''.'' @ show_nat (coll_u64 i) = b @ ''.'' @ show_nat (coll_u64 j)"
    using eq by (simp add: implicit_name_def)
  then have "rev (a @ ''.'' @ show_nat (coll_u64 i)) = rev (b @ ''.'' @ show_nat (coll_u64 j))"
    by (rule arg_cong)
  then have "rev (show_nat (coll_u64 i)) @ CHR ''.'' # rev a = rev (show_nat (coll_u64 j)) @ CHR ''.'' # rev b"
    by (simp only: rev_append rev.simps append_assoc append.simps)
  then have "rev (show_nat (coll_u64 i)) = rev (show_nat (coll_u64 j)) \<and> rev a = rev b"
    by (simp only: split_at_first [OF nodot nodot])
  then show "a = b \<and> i = j" by (auto intro: CollectionId.expand)
qed simp

lemma implicit_name_underscore [simp]: "prefix ''_'' (implicit_name name cid)"
  by (simp add: implicit_name_def)

lemma collection_pointer_key_inject [simp]:
  "collection_pointer_key i = collection_pointer_key j \<longleftrightarrow> i = j"
  by (auto simp: collection_pointer_key_def intro: CollectionId.expand)

lemma strip_collection_pointer_key [simp]:
  "strip_prefix COLLECTION_POINTER_PREFIX (collection_pointer_key i) = Some (show_nat (coll_u64 i))"
  by (simp add: collection_pointer_key_def)

end
