(* ===== verification/Schema.thy ===== *)
theory Schema
  imports MetaTypes
begin

text \<open>
  Collection schemas, from \<open>loams-common/src/schema.rs\<close>: the schema types, the checks
  \<open>validate\<close> and \<open>check_additive\<close> with every branch of their errors, and the lookups
  by name. The lemmas say what a valid schema guarantees and that an additive change
  keeps every field and vector where it was.
\<close>

section \<open>Types and limits\<close>

definition KNOWN_ANALYZERS :: "string list" where
  "KNOWN_ANALYZERS = [''standard'', ''english'', ''simple'', ''whitespace'', ''keyword'']"

definition MAX_VECTOR_DIM :: u32 where "MAX_VECTOR_DIM = 65536"
definition DEFAULT_MAX_FIELDS :: u32 where "DEFAULT_MAX_FIELDS = 1000"
definition MAX_MAX_FIELDS :: u32 where "MAX_MAX_FIELDS = 100000"
definition MAX_SCHEMA_NAME_LEN :: nat where "MAX_SCHEMA_NAME_LEN = 255"
definition EXTRA_ANNOTATIONS :: nat where "EXTRA_ANNOTATIONS = 256"
definition MAX_ANNOTATION_VALUE_LEN :: nat where "MAX_ANNOTATION_VALUE_LEN = 65536"

definition ANNOTATION_PREFIXES :: "string list" where
  "ANNOTATION_PREFIXES = [''es.'', ''qdrant.'', ''loams.'']"

definition MAX_NUM_PARTITIONS :: u32 where "MAX_NUM_PARTITIONS = 65536"

definition QUANTILE_PPM :: "u32 \<Rightarrow> bool" where
  "QUANTILE_PPM x \<longleftrightarrow> 500000 \<le> x \<and> x \<le> 1000000"

definition COMPRESSION_RATIOS :: "u32 list" where
  "COMPRESSION_RATIOS = [4, 8, 16, 32, 64]"

datatype FieldKind =
    KText string bool
  | KKeyword
  | KI64
  | KF64
  | KBool
  | KDate
  | KUuid
  | KJson

record FieldSpec =
  fs_name :: string
  fs_source_path :: string
  fs_kind :: FieldKind
  fs_indexed :: bool
  fs_fast :: bool
  fs_ignore_malformed :: bool

datatype Distance = Cosine | Dot | Euclid | Manhattan
datatype VectorElement = F32

datatype VectorIndexSpec =
    IndexAuto
  | IndexNone
  | IvfPq "u32 option" "u32 option" nat
  | IvfRq "u32 option" nat
  | IvfHnswSq "u32 option"

fun num_partitions :: "VectorIndexSpec \<Rightarrow> u32 option" where
  "num_partitions IndexAuto = None"
| "num_partitions IndexNone = None"
| "num_partitions (IvfPq np _ _) = np"
| "num_partitions (IvfRq np _) = np"
| "num_partitions (IvfHnswSq np) = np"

record HnswParams =
  h_m :: u32
  h_ef_construct :: u32
  h_full_scan_threshold_kb :: u32
  h_payload_m :: "u32 option"
  h_on_disk :: bool

definition HnswParams_default :: HnswParams where
  "HnswParams_default = \<lparr>h_m = 16, h_ef_construct = 100, h_full_scan_threshold_kb = 10000,
     h_payload_m = None, h_on_disk = False\<rparr>"

datatype Quantization =
    QScalar "u32 option" bool
  | QProduct u32 bool
  | QBinary bool

record VectorSpec =
  v_name :: string
  v_dim :: u32
  v_distance :: Distance
  v_element :: VectorElement
  v_index :: VectorIndexSpec
  v_hnsw :: HnswParams
  v_quantization :: "Quantization option"

datatype DynamicMapping = DynStrict | DynIgnore | DynMap
datatype SparseModifier = ModNone | ModIdf

record SparseVectorSpec =
  sv_name :: string
  sv_modifier :: SparseModifier

record CollectionSchema =
  sc_version :: u64
  sc_fields :: "FieldSpec list"
  sc_vectors :: "VectorSpec list"
  sc_sparse_vectors :: "SparseVectorSpec list"
  sc_dynamic :: DynamicMapping
  sc_max_fields :: u32
  sc_annotations :: "(string, string) btree_map"

datatype SchemaError = Invalid message | Incompatible message

section \<open>Checks\<close>

text \<open>
  A \<open>char\<close> is a control character when its code point is below 32, is 127, or is
  128 to 159. In UTF-8 the last group is the byte 194 followed by a byte of 128 to 159.
\<close>

fun has_control :: "string \<Rightarrow> bool" where
  "has_control [] = False"
| "has_control (c # s) =
     ((of_char c :: nat) < 32 \<or> (of_char c :: nat) = 127
      \<or> ((of_char c :: nat) = 194 \<and> s \<noteq> [] \<and> 128 \<le> (of_char (hd s) :: nat) \<and> (of_char (hd s) :: nat) < 160)
      \<or> has_control s)"

fun contains_str :: "string \<Rightarrow> string \<Rightarrow> bool" where
  "contains_str p [] = (p = [])"
| "contains_str p (c # s) = (prefix p (c # s) \<or> contains_str p s)"

text \<open>\<open>str::split\<close> with a single character.\<close>

fun split_char :: "char \<Rightarrow> string \<Rightarrow> string list" where
  "split_char d [] = [[]]"
| "split_char d (c # s) =
     (if c = d then [] # split_char d s
      else (case split_char d s of [] \<Rightarrow> [[c]] | w # ws \<Rightarrow> (c # w) # ws))"

definition check_name :: "string \<Rightarrow> string \<Rightarrow> string set \<Rightarrow> SchemaError + string set" where
  "check_name kind name seen =
     (if MAX_SCHEMA_NAME_LEN < length name
      then Inl (Invalid (Fmt ''{} name {:?} is longer than {} bytes''
                 [FStr kind, FStr name, FNat MAX_SCHEMA_NAME_LEN]))
      else if has_control name
      then Inl (Invalid (Fmt ''{} name {:?} contains a control character'' [FStr kind, FStr name]))
      else if name \<in> seen
      then Inl (Invalid (Fmt ''duplicate {} name {:?}'' [FStr kind, FStr name]))
      else Inr (insert name seen))"

definition FieldSpec_validate :: "FieldSpec \<Rightarrow> string set \<Rightarrow> SchemaError + string set" where
  "FieldSpec_validate f seen =
     (let name = fs_name f in
      if name = [] then Inl (Invalid (Fmt ''a field name is empty'' []))
      else check (check_name ''field'' name seen) (\<lambda>seen'.
      if prefix ''_'' name \<or> prefix ''-'' name
      then Inl (Invalid (Fmt ''field name {:?} starts with '_' or '-' '' [FStr name]))
      else if prefix ''.'' name \<or> suffix ''.'' name \<or> contains_str ''..'' name
      then Inl (Invalid (Fmt ''field name {:?} starts or ends with '.' or contains ..'' [FStr name]))
      else if fs_source_path f = [] \<and> fs_kind f \<noteq> KJson
      then Inl (Invalid (Fmt ''field {:?} has an empty source path, which only Json fields may have'' [FStr name]))
      else if fs_source_path f \<noteq> [] \<and> (\<exists>w \<in> set (split_char CHR ''.'' (fs_source_path f)). w = [])
      then Inl (Invalid (Fmt ''field {:?} has source path {:?} with an empty segment''
                 [FStr name, FStr (fs_source_path f)]))
      else (case fs_kind f of
          KText analyzer _ \<Rightarrow>
            if analyzer \<notin> set KNOWN_ANALYZERS
            then Inl (Invalid (Fmt ''field {:?} names unknown analyzer {:?}'' [FStr name, FStr analyzer]))
            else if fs_fast f
            then Inl (Invalid (Fmt ''text field {:?} cannot be fast'' [FStr name]))
            else if \<not> fs_indexed f \<and> \<not> fs_fast f
            then Inl (Invalid (Fmt ''field {:?} is neither indexed nor fast'' [FStr name]))
            else Inr seen'
        | _ \<Rightarrow>
            if \<not> fs_indexed f \<and> \<not> fs_fast f
            then Inl (Invalid (Fmt ''field {:?} is neither indexed nor fast'' [FStr name]))
            else Inr seen')))"

text \<open>The two matches of \<open>VectorSpec::validate\<close>, on the index and on the quantization.\<close>

definition check_index :: "VectorSpec \<Rightarrow> SchemaError + unit" where
  "check_index v = (case v_index v of
       IvfPq _ sub_vectors num_bits \<Rightarrow>
         if num_bits \<noteq> 4 \<and> num_bits \<noteq> 8
         then Inl (Invalid (Fmt ''vector {:?}: IVF_PQ num_bits must be 4 or 8, got {}''
                    [FStr (v_name v), FNat num_bits]))
         else (case sub_vectors of
             Some sub \<Rightarrow>
               if sub = 0 \<or> v_dim v mod sub \<noteq> 0
               then Inl (Invalid (Fmt ''vector {:?}: {} PQ sub-vectors do not divide dim {}''
                          [FStr (v_name v), FNat sub, FNat (v_dim v)]))
               else Inr ()
           | None \<Rightarrow> Inr ())
     | IvfRq _ num_bits \<Rightarrow>
         if \<not> (1 \<le> num_bits \<and> num_bits \<le> 8)
         then Inl (Invalid (Fmt ''vector {:?}: IVF_RQ num_bits must be 1..=8, got {}''
                    [FStr (v_name v), FNat num_bits]))
         else Inr ()
     | _ \<Rightarrow> Inr ())"

definition check_quantization :: "VectorSpec \<Rightarrow> SchemaError + unit" where
  "check_quantization v = (case v_quantization v of
       Some (QProduct ratio _) \<Rightarrow>
         if ratio \<notin> set COMPRESSION_RATIOS
         then Inl (Invalid (Fmt ''vector {:?}: product quantization compression ratio must be one of {:?}, got {}''
                    [FStr (v_name v), FNat ratio]))
         else Inr ()
     | Some (QScalar (Some ppm) _) \<Rightarrow>
         if \<not> QUANTILE_PPM ppm
         then Inl (Invalid (Fmt ''vector {:?}: scalar quantile must be {:?} ppm, got {}''
                    [FStr (v_name v), FRange 500000 1000000, FNat ppm]))
         else Inr ()
     | _ \<Rightarrow> Inr ())"

definition VectorSpec_validate :: "VectorSpec \<Rightarrow> string set \<Rightarrow> SchemaError + string set" where
  "VectorSpec_validate v seen =
     check (check_name ''vector'' (v_name v) seen) (\<lambda>seen'.
     if \<not> (1 \<le> v_dim v \<and> v_dim v \<le> MAX_VECTOR_DIM)
     then Inl (Invalid (Fmt ''vector {:?} has dim {}, expected 1..={}''
                [FStr (v_name v), FNat (v_dim v), FNat MAX_VECTOR_DIM]))
     else if v_distance v = Manhattan \<and> v_index v \<noteq> IndexAuto \<and> v_index v \<noteq> IndexNone
     then Inl (Invalid (Fmt ''vector {:?} uses Manhattan distance, which has no IVF index'' [FStr (v_name v)]))
     else check (check_index v) (\<lambda>_.
     (case num_partitions (v_index v) of
        Some np \<Rightarrow>
          if \<not> (1 \<le> np \<and> np \<le> MAX_NUM_PARTITIONS)
          then Inl (Invalid (Fmt ''vector {:?}: num_partitions must be 1..={}, got {}''
                     [FStr (v_name v), FNat MAX_NUM_PARTITIONS, FNat np]))
          else check (check_quantization v) (\<lambda>_. Inr seen')
      | None \<Rightarrow> check (check_quantization v) (\<lambda>_. Inr seen'))))"

definition CollectionSchema_new ::
  "FieldSpec list \<Rightarrow> VectorSpec list \<Rightarrow> DynamicMapping \<Rightarrow> CollectionSchema" where
  "CollectionSchema_new fs vs dyn =
     \<lparr>sc_version = 1, sc_fields = fs, sc_vectors = vs, sc_sparse_vectors = [],
      sc_dynamic = dyn, sc_max_fields = DEFAULT_MAX_FIELDS, sc_annotations = bm_empty\<rparr>"

definition with_sparse_vectors :: "CollectionSchema \<Rightarrow> SparseVectorSpec list \<Rightarrow> CollectionSchema" where
  "with_sparse_vectors s svs = s\<lparr>sc_sparse_vectors := svs\<rparr>"

definition member_count :: "CollectionSchema \<Rightarrow> nat" where
  "member_count s = length (sc_fields s) + length (sc_vectors s) + length (sc_sparse_vectors s)"

text \<open>A loop that threads the set of names seen so far.\<close>

fun validate_each :: "('a \<Rightarrow> string set \<Rightarrow> SchemaError + string set) \<Rightarrow> 'a list \<Rightarrow> string set \<Rightarrow> SchemaError + string set" where
  "validate_each f [] seen = Inr seen"
| "validate_each f (x # xs) seen = check (f x seen) (validate_each f xs)"

definition sparse_validate :: "string set \<Rightarrow> SparseVectorSpec \<Rightarrow> string set \<Rightarrow> SchemaError + string set" where
  "sparse_validate dense sv seen =
     (if sv_name sv = [] then Inl (Invalid (Fmt ''a sparse vector name is empty'' []))
      else check (check_name ''sparse vector'' (sv_name sv) seen) (\<lambda>seen'.
      if sv_name sv \<in> dense
      then Inl (Invalid (Fmt ''sparse vector {:?} has the name of a dense vector'' [FStr (sv_name sv)]))
      else Inr seen'))"

definition annotation_validate :: "string \<times> string \<Rightarrow> SchemaError + unit" where
  "annotation_validate kv = (case kv of (key, val) \<Rightarrow>
     if \<not> list_ex (\<lambda>p. prefix p key) ANNOTATION_PREFIXES
     then Inl (Invalid (Fmt ''annotation key {:?} does not start with one of {:?}''
                [FStr key, FStrs ANNOTATION_PREFIXES]))
     else if MAX_SCHEMA_NAME_LEN < length key
     then Inl (Invalid (Fmt ''annotation key {:?} is longer than {} bytes''
                [FStr key, FNat MAX_SCHEMA_NAME_LEN]))
     else if MAX_ANNOTATION_VALUE_LEN < length val
     then Inl (Invalid (Fmt ''annotation {:?} has a value longer than {} bytes''
                [FStr key, FNat MAX_ANNOTATION_VALUE_LEN]))
     else Inr ())"

definition validate :: "CollectionSchema \<Rightarrow> SchemaError + unit" where
  "validate s =
     (if sc_version s = 0 then Inl (Invalid (Fmt ''version 0'' []))
      else if \<not> (1 \<le> sc_max_fields s \<and> sc_max_fields s \<le> MAX_MAX_FIELDS)
      then Inl (Invalid (Fmt ''max_fields must be 1..={}, got {}''
                 [FNat MAX_MAX_FIELDS, FNat (sc_max_fields s)]))
      else if sc_max_fields s < member_count s
      then Inl (Invalid (Fmt ''{} fields, vectors and sparse vectors exceed max_fields {}''
                 [FNat (member_count s), FNat (sc_max_fields s)]))
      else check (validate_each FieldSpec_validate (sc_fields s) {}) (\<lambda>_.
      check (validate_each VectorSpec_validate (sc_vectors s) {}) (\<lambda>dense.
      check (validate_each (sparse_validate dense) (sc_sparse_vectors s) {}) (\<lambda>_.
      if sc_max_fields s + EXTRA_ANNOTATIONS < bm_len (sc_annotations s)
      then Inl (Invalid (Fmt ''{} annotations exceed max_fields + {}''
                 [FNat (bm_len (sc_annotations s)), FNat EXTRA_ANNOTATIONS]))
      else check_all annotation_validate (bm_iter (sc_annotations s))))))"

definition check_additive :: "CollectionSchema \<Rightarrow> CollectionSchema \<Rightarrow> SchemaError + unit" where
  "check_additive cur nxt =
     (if \<not> prefix (sc_fields cur) (sc_fields nxt)
      then Inl (Incompatible (Fmt ''fields may only be appended, never changed or removed'' []))
      else if \<not> prefix (sc_vectors cur) (sc_vectors nxt)
      then Inl (Incompatible (Fmt ''vectors may only be appended, never changed or removed'' []))
      else if sc_sparse_vectors nxt \<noteq> sc_sparse_vectors cur
      then Inl (Incompatible (Fmt ''sparse vectors are fixed when the collection is created'' []))
      else if sc_max_fields nxt < member_count nxt
      then Inl (Incompatible (Fmt ''max_fields {} is below the {} fields, vectors and sparse vectors''
                 [FNat (sc_max_fields nxt), FNat (member_count nxt)]))
      else Inr ())"

definition same_ignoring_version :: "CollectionSchema \<Rightarrow> CollectionSchema \<Rightarrow> bool" where
  "same_ignoring_version a b \<longleftrightarrow>
     sc_fields a = sc_fields b \<and> sc_vectors a = sc_vectors b
     \<and> sc_sparse_vectors a = sc_sparse_vectors b \<and> sc_dynamic a = sc_dynamic b
     \<and> sc_max_fields a = sc_max_fields b \<and> sc_annotations a = sc_annotations b"

definition field :: "CollectionSchema \<Rightarrow> string \<Rightarrow> FieldSpec option" where
  "field s name = find (\<lambda>f. fs_name f = name) (sc_fields s)"

definition vector :: "CollectionSchema \<Rightarrow> string \<Rightarrow> (nat \<times> VectorSpec) option" where
  "vector s name = find (\<lambda>(_, v). v_name v = name) (enumerate 0 (sc_vectors s))"

definition sparse_vector :: "CollectionSchema \<Rightarrow> string \<Rightarrow> (nat \<times> SparseVectorSpec) option" where
  "sparse_vector s name = find (\<lambda>(_, v). sv_name v = name) (enumerate 0 (sc_sparse_vectors s))"

text \<open>The text of an error: \<open>to_string\<close> adds the variant's prefix, \<open>schema_message\<close> does not.\<close>

fun SchemaError_to_string :: "SchemaError \<Rightarrow> message" where
  "SchemaError_to_string (Invalid (Fmt t args)) = Fmt (''invalid schema: '' @ t) args"
| "SchemaError_to_string (Incompatible (Fmt t args)) = Fmt (''incompatible schema change: '' @ t) args"

fun schema_message :: "SchemaError \<Rightarrow> message" where
  "schema_message (Invalid m) = m"
| "schema_message (Incompatible m) = m"

section \<open>What the checks guarantee\<close>

lemma check_name_Inr:
  "check_name kind name seen = Inr seen' \<longleftrightarrow>
     length name \<le> MAX_SCHEMA_NAME_LEN \<and> \<not> has_control name \<and> name \<notin> seen \<and> seen' = insert name seen"
  by (auto simp: check_name_def)

lemma FieldSpec_validate_seen:
  "FieldSpec_validate f seen = Inr seen' \<Longrightarrow> fs_name f \<notin> seen \<and> seen' = insert (fs_name f) seen"
  by (cases "fs_kind f")
    (auto simp: FieldSpec_validate_def Let_def check_Inr_iff check_name_Inr split: if_splits)

lemma VectorSpec_validate_seen:
  "VectorSpec_validate v seen = Inr seen' \<Longrightarrow> v_name v \<notin> seen \<and> seen' = insert (v_name v) seen"
  by (auto simp: VectorSpec_validate_def check_Inr_iff check_name_Inr
      split: if_splits option.splits)

lemma sparse_validate_seen:
  "sparse_validate dense sv seen = Inr seen' \<Longrightarrow>
     sv_name sv \<notin> seen \<and> sv_name sv \<notin> dense \<and> seen' = insert (sv_name sv) seen"
  by (auto simp: sparse_validate_def check_Inr_iff check_name_Inr split: if_splits)

text \<open>A loop whose step refuses names seen before leaves distinct names.\<close>

lemma validate_each_distinct:
  assumes step: "\<And>x seen seen'. f x seen = Inr seen' \<Longrightarrow> nm x \<notin> seen \<and> seen' = insert (nm x) seen"
  shows "validate_each f xs seen = Inr seen' \<Longrightarrow>
     distinct (map nm xs) \<and> set (map nm xs) \<inter> seen = {} \<and> seen' = seen \<union> set (map nm xs)"
proof (induction xs arbitrary: seen)
  case Nil
  then show ?case by simp
next
  case (Cons x xs)
  then obtain s1 where s1: "f x seen = Inr s1" "validate_each f xs s1 = Inr seen'"
    by (auto simp: check_Inr_iff)
  have "nm x \<notin> seen" "s1 = insert (nm x) seen" using step [OF s1(1)] by auto
  with Cons.IH [OF s1(2)] show ?case by auto
qed

lemma validate_each_all:
  "validate_each f xs seen = Inr seen' \<Longrightarrow> x \<in> set xs \<Longrightarrow> \<exists>s s'. f x s = Inr s'"
  by (induction xs arbitrary: seen) (auto simp: check_Inr_iff)

lemma validate_names:
  assumes "validate s = Inr ()"
  shows "distinct (map fs_name (sc_fields s))" (is ?fields)
    and "distinct (map v_name (sc_vectors s) @ map sv_name (sc_sparse_vectors s))" (is ?vectors)
    and "member_count s \<le> sc_max_fields s" "1 \<le> sc_version s" "sc_max_fields s \<le> MAX_MAX_FIELDS"
proof -
  from assms obtain f d p where
    f: "validate_each FieldSpec_validate (sc_fields s) {} = Inr f"
    and d: "validate_each VectorSpec_validate (sc_vectors s) {} = Inr d"
    and p: "validate_each (sparse_validate d) (sc_sparse_vectors s) {} = Inr p"
    by (auto simp: validate_def check_Inr_iff split: if_splits)
  have d': "distinct (map v_name (sc_vectors s)) \<and> d = set (map v_name (sc_vectors s))"
    using validate_each_distinct [OF VectorSpec_validate_seen d] by simp
  have p': "distinct (map sv_name (sc_sparse_vectors s))"
    using validate_each_distinct [where nm = sv_name, OF _ p] sparse_validate_seen by simp
  have "\<And>sv. sv \<in> set (sc_sparse_vectors s) \<Longrightarrow> sv_name sv \<notin> d"
    using validate_each_all [OF p] sparse_validate_seen by blast
  then have "set (map sv_name (sc_sparse_vectors s)) \<inter> d = {}" by auto
  with d' p' show ?vectors by auto
  show ?fields
    using validate_each_distinct [OF FieldSpec_validate_seen f] by simp
  show "member_count s \<le> sc_max_fields s" "1 \<le> sc_version s" "sc_max_fields s \<le> MAX_MAX_FIELDS"
    using assms by (auto simp: validate_def split: if_splits)
qed

lemma find_prefix: "prefix xs ys \<Longrightarrow> find P xs = Some x \<Longrightarrow> find P ys = Some x"
  by (induction xs arbitrary: ys) (auto simp: prefix_def split: if_splits)

lemma prefix_enumerate: "prefix xs ys \<Longrightarrow> prefix (enumerate n xs) (enumerate n ys)"
  by (auto simp: prefix_def enumerate_append_eq)

lemma check_additive_Inr:
  "check_additive cur nxt = Inr () \<longleftrightarrow>
     prefix (sc_fields cur) (sc_fields nxt) \<and> prefix (sc_vectors cur) (sc_vectors nxt)
     \<and> sc_sparse_vectors nxt = sc_sparse_vectors cur \<and> member_count nxt \<le> sc_max_fields nxt"
  by (auto simp: check_additive_def)

lemma check_additive_refl: "member_count s \<le> sc_max_fields s \<Longrightarrow> check_additive s s = Inr ()"
  by (simp add: check_additive_Inr)

lemma check_additive_trans:
  "check_additive a b = Inr () \<Longrightarrow> check_additive b c = Inr () \<Longrightarrow> check_additive a c = Inr ()"
  by (auto simp: check_additive_Inr intro: prefix_order.trans)

lemma check_additive_lookups:
  assumes "check_additive cur nxt = Inr ()"
  shows "field cur name = Some f \<Longrightarrow> field nxt name = Some f"
    and "vector cur name = Some v \<Longrightarrow> vector nxt name = Some v"
    and "sparse_vector nxt name = sparse_vector cur name"
  using assms
  by (auto simp: check_additive_Inr field_def vector_def sparse_vector_def
      intro: find_prefix prefix_enumerate)

end
