(* ===== verification/Partition.thy ===== *)
theory Partition
  imports MetaTypes
begin

text \<open>
  The sequencer state of one stream partition, from \<open>loams-meta/src/types.rs\<close>: the next
  offset, the log start, the offset index and its byte count. The invariant
  \<open>part_inv\<close> says that the index entries tile the offsets from the first entry to the
  next offset, that the log start lies in the first entry, and that the byte count is
  the (wrapping) sum of the entries' ranges. The lemmas show that appending an entry,
  replacing a run of entries by one segment and trimming keep it, and that a lookup
  finds exactly the offsets between the log start and the next offset.
\<close>

section \<open>State and operations\<close>

record WalCommitRecord =
  w_base_offsets :: "u64 list"
  w_created_at_ms :: u64

record PartitionState =
  next_offset :: u64
  log_start_offset :: u64
  index :: "(u64, IndexEntry) btree_map"
  bytes :: u64

definition PartitionState_default :: PartitionState where
  "PartitionState_default = \<lparr>next_offset = 0, log_start_offset = 0, index = bm_empty, bytes = 0\<rparr>"

definition entry_bytes :: "IndexEntry \<Rightarrow> u64" where
  "entry_bytes e = br_end (e_byte_range e) - br_start (e_byte_range e)"

definition high_watermark :: "PartitionState \<Rightarrow> u64" where
  "high_watermark st = next_offset st"

definition insert_entry :: "PartitionState \<Rightarrow> IndexEntry \<Rightarrow> PartitionState" where
  "insert_entry st e =
     (let b = wadd64 (bytes st) (entry_bytes e) in
      case bm_get (index st) (e_base_offset e) of
        Some replaced \<Rightarrow> st\<lparr>index := bm_insert (e_base_offset e) e (index st),
                           bytes := wsub64 b (entry_bytes replaced)\<rparr>
      | None \<Rightarrow> st\<lparr>index := bm_insert (e_base_offset e) e (index st), bytes := b\<rparr>)"

definition remove_entry :: "PartitionState \<Rightarrow> u64 \<Rightarrow> PartitionState \<times> IndexEntry option" where
  "remove_entry st base = (case bm_get (index st) base of
     None \<Rightarrow> (st, None)
   | Some e \<Rightarrow> (st\<lparr>index := bm_remove base (index st), bytes := wsub64 (bytes st) (entry_bytes e)\<rparr>, Some e))"

definition pop_first_before :: "PartitionState \<Rightarrow> u64 \<Rightarrow> PartitionState \<times> IndexEntry option" where
  "pop_first_before st off = (case bm_first (index st) of
     Some (base, e) \<Rightarrow> if end_offset e \<le> off then remove_entry st base else (st, None)
   | None \<Rightarrow> (st, None))"

definition lookup :: "PartitionState \<Rightarrow> u64 \<Rightarrow> IndexEntry option" where
  "lookup st off =
     (if off < log_start_offset st then None
      else case bm_last_le (index st) off of
        Some (_, e) \<Rightarrow> if off < end_offset e then Some e else None
      | None \<Rightarrow> None)"

definition entries_from :: "PartitionState \<Rightarrow> u64 \<Rightarrow> IndexEntry list" where
  "entries_from st off =
     (let off' = max off (log_start_offset st);
          start = (case lookup st off' of Some e \<Rightarrow> e_base_offset e | None \<Rightarrow> off')
      in map snd (bm_range_from (index st) start))"

definition entries :: "PartitionState \<Rightarrow> IndexEntry list" where
  "entries st = bm_values (index st)"

text \<open>
  The loop of a trim, \<open>while let Some(entry) = state.pop_first_before(before)\<close>, with the
  popped entries in order.
\<close>

lemma bm_len_remove: "bm_get m k = Some v \<Longrightarrow> bm_len (bm_remove k m) < bm_len m"
  by (auto simp: bm_len_card intro!: psubset_card_mono)

lemma pop_first_before_Some:
  "pop_first_before st off = (st', Some e) \<Longrightarrow> bm_len (index st') < bm_len (index st)"
  by (auto simp: pop_first_before_def remove_entry_def bm_first_Some bm_len_remove
      split: option.splits if_splits prod.splits)

function pop_all_before :: "PartitionState \<Rightarrow> u64 \<Rightarrow> PartitionState \<times> IndexEntry list" where
  "pop_all_before st off = (case pop_first_before st off of
     (st', Some e) \<Rightarrow> (let (st'', es) = pop_all_before st' off in (st'', e # es))
   | (st', None) \<Rightarrow> (st', []))"
  by pat_completeness auto
termination
  by (relation "measure (\<lambda>(st, _). bm_len (index st))") (auto dest: sym dest!: pop_first_before_Some)

declare pop_all_before.simps [simp del]

section \<open>The invariant\<close>

fun tiles :: "u64 \<Rightarrow> (u64 \<times> IndexEntry) list \<Rightarrow> u64 \<Rightarrow> bool" where
  "tiles lo [] hi \<longleftrightarrow> lo = hi"
| "tiles lo ((b, e) # xs) hi \<longleftrightarrow>
     b = lo \<and> e_base_offset e = b \<and> 0 < e_records e \<and> tiles (lo + e_records e) xs hi"

definition part_inv :: "PartitionState \<Rightarrow> bool" where
  "part_inv st \<longleftrightarrow>
     next_offset st \<le> U64_MAX
     \<and> (case bm_iter (index st) of
          [] \<Rightarrow> log_start_offset st = next_offset st
        | (b, e) # _ \<Rightarrow> tiles b (bm_iter (index st)) (next_offset st)
            \<and> b \<le> log_start_offset st \<and> log_start_offset st < b + e_records e)
     \<and> bytes st = wsum64 (map (\<lambda>p. entry_bytes (snd p)) (bm_iter (index st)))"

lemma tiles_append: "tiles lo (xs @ ys) hi \<longleftrightarrow> (\<exists>mid. tiles lo xs mid \<and> tiles mid ys hi)"
  by (induction lo xs hi rule: tiles.induct) auto

lemma tiles_le: "tiles lo xs hi \<Longrightarrow> lo \<le> hi"
  by (induction lo xs hi rule: tiles.induct) auto

lemma tiles_mem:
  "tiles lo xs hi \<Longrightarrow> (b, e) \<in> set xs \<Longrightarrow>
     e_base_offset e = b \<and> 0 < e_records e \<and> lo \<le> b \<and> b + e_records e \<le> hi"
proof (induction lo xs hi rule: tiles.induct)
  case (1 lo hi)
  then show ?case by simp
next
  case (2 lo b' e' xs hi)
  then show ?case using tiles_le [of "lo + e_records e'" xs hi] by auto
qed

lemma tiles_cover:
  "tiles lo xs hi \<Longrightarrow> lo \<le> off \<Longrightarrow> off < hi \<Longrightarrow>
     \<exists>(b, e) \<in> set xs. b \<le> off \<and> off < b + e_records e"
proof (induction lo xs hi rule: tiles.induct)
  case (1 lo hi)
  then show ?case by simp
next
  case (2 lo b e xs hi)
  then show ?case by (cases "off < lo + e_records e") auto
qed

lemma tiles_end_offset:
  "tiles lo xs hi \<Longrightarrow> hi \<le> U64_MAX \<Longrightarrow> (b, e) \<in> set xs \<Longrightarrow> end_offset e = b + e_records e"
  using tiles_mem [of lo xs hi b e] by (simp add: end_offset_def wadd64_exact)

lemma part_inv_default [simp]: "part_inv PartitionState_default"
  by (simp add: part_inv_def PartitionState_default_def wsum64_def)

text \<open>The list of entries, as the invariant sees it.\<close>

lemma part_inv_tiles:
  assumes "part_inv st"
  obtains lo where "tiles lo (bm_iter (index st)) (next_offset st)" "lo \<le> log_start_offset st"
    "log_start_offset st \<le> next_offset st" "next_offset st \<le> U64_MAX"
    "bm_get (index st) \<noteq> (\<lambda>_. None) \<Longrightarrow> log_start_offset st < next_offset st"
proof (cases "bm_iter (index st)")
  case Nil
  then have "bm_get (index st) = (\<lambda>_. None)"
    using bm_is_empty_iff [of "index st"] by (simp add: bm_is_empty_def del: bm_is_empty_iff)
  with assms Nil that [of "next_offset st"] show ?thesis by (simp add: part_inv_def)
next
  case (Cons p xs)
  obtain b e where p: "p = (b, e)" by (cases p)
  with assms Cons have t: "tiles b (bm_iter (index st)) (next_offset st)"
    and l: "b \<le> log_start_offset st" "log_start_offset st < b + e_records e"
    and n: "next_offset st \<le> U64_MAX"
    by (simp_all add: part_inv_def)
  have "b + e_records e \<le> next_offset st" using tiles_mem [OF t, of b e] Cons p by simp
  with l n t show ?thesis by (intro that [of b]) auto
qed

text \<open>
  An entry of the index, its key, and its place among the offsets.
\<close>

lemma part_inv_entry:
  assumes "part_inv st" "bm_get (index st) b = Some e"
  shows "e_base_offset e = b" "0 < e_records e" "end_offset e = b + e_records e"
    "b + e_records e \<le> next_offset st"
proof -
  obtain lo where t: "tiles lo (bm_iter (index st)) (next_offset st)" and n: "next_offset st \<le> U64_MAX"
    using part_inv_tiles [OF assms(1)] by metis
  have m: "(b, e) \<in> set (bm_iter (index st))" using assms(2) by (simp add: bm_iter_get)
  show "e_base_offset e = b" "0 < e_records e" "b + e_records e \<le> next_offset st"
    using tiles_mem [OF t m] by auto
  show "end_offset e = b + e_records e" by (rule tiles_end_offset [OF t n m])
qed

lemma tiles_disjoint:
  "tiles lo xs hi \<Longrightarrow> (b, e) \<in> set xs \<Longrightarrow> (b', e') \<in> set xs \<Longrightarrow> b < b' \<Longrightarrow> b + e_records e \<le> b'"
proof (induction lo xs hi rule: tiles.induct)
  case (1 lo hi)
  then show ?case by simp
next
  case (2 lo b0 e0 xs hi)
  then show ?case using tiles_mem [of "lo + e_records e0" xs hi] by fastforce
qed

section \<open>Lookup\<close>

lemma lookup_Some_iff:
  assumes "part_inv st"
  shows "lookup st off = Some e \<longleftrightarrow>
    log_start_offset st \<le> off
    \<and> (\<exists>b. bm_get (index st) b = Some e \<and> b \<le> off \<and> off < b + e_records e)"
proof -
  obtain lo where t: "tiles lo (bm_iter (index st)) (next_offset st)"
    using part_inv_tiles [OF assms] by metis
  have "lookup st off = Some e \<longleftrightarrow> log_start_offset st \<le> off
      \<and> (\<exists>b. bm_last_le (index st) off = Some (b, e) \<and> off < end_offset e)"
    by (auto simp: lookup_def split: option.splits)
  also have "\<dots> \<longleftrightarrow> log_start_offset st \<le> off
    \<and> (\<exists>b. bm_get (index st) b = Some e \<and> b \<le> off \<and> off < b + e_records e)"
  proof -
    have "bm_last_le (index st) off = Some (b, e) \<and> off < end_offset e \<longleftrightarrow>
        bm_get (index st) b = Some e \<and> b \<le> off \<and> off < b + e_records e" (is "?l \<longleftrightarrow> ?r") for b
    proof
      assume ?l
      then show ?r using part_inv_entry [OF assms, of b e] by (auto simp: bm_last_le_Some)
    next
      assume r: ?r
      have "k' \<le> b" if k': "bm_get (index st) k' = Some e'" "k' \<le> off" for k' e'
        using tiles_disjoint [OF t, of b e k' e'] r k' by (force simp: bm_iter_get)
      with r show ?l
        using part_inv_entry [OF assms, of b e] by (auto simp: bm_last_le_Some)
    qed
    then show ?thesis by blast
  qed
  finally show ?thesis .
qed

lemma lookup_None_iff:
  assumes "part_inv st"
  shows "lookup st off = None \<longleftrightarrow> \<not> (log_start_offset st \<le> off \<and> off < next_offset st)"
proof -
  obtain lo where t: "tiles lo (bm_iter (index st)) (next_offset st)" and l: "lo \<le> log_start_offset st"
    using part_inv_tiles [OF assms] by metis
  have "(\<exists>e. lookup st off = Some e) \<longleftrightarrow> log_start_offset st \<le> off \<and> off < next_offset st"
  proof
    assume "\<exists>e. lookup st off = Some e"
    then obtain e b where "log_start_offset st \<le> off" "bm_get (index st) b = Some e" "off < b + e_records e"
      using lookup_Some_iff [OF assms] by blast
    then show "log_start_offset st \<le> off \<and> off < next_offset st"
      using part_inv_entry(4) [OF assms, of b e] by auto
  next
    assume "log_start_offset st \<le> off \<and> off < next_offset st"
    then obtain b e where "(b, e) \<in> set (bm_iter (index st))" "b \<le> off" "off < b + e_records e"
      using tiles_cover [OF t, of off] l by force
    then show "\<exists>e. lookup st off = Some e"
      using lookup_Some_iff [OF assms] \<open>log_start_offset st \<le> off \<and> off < next_offset st\<close>
      by (auto simp: bm_iter_get)
  qed
  then show ?thesis by (metis not_None_eq)
qed

section \<open>The byte count\<close>

abbreviation index_bytes :: "(u64, IndexEntry) btree_map \<Rightarrow> nat" where
  "index_bytes m \<equiv> sum_list (map (\<lambda>p. entry_bytes (snd p)) (bm_iter m))"

definition bytes_ok :: "PartitionState \<Rightarrow> bool" where
  "bytes_ok st \<longleftrightarrow> bytes st = index_bytes (index st) mod (U64_MAX + 1)"

lemma part_inv_bytes_ok: "part_inv st \<Longrightarrow> bytes_ok st"
  by (simp add: part_inv_def bytes_ok_def wsum64_eq)

lemma insert_entry_index [simp]:
  "index (insert_entry st e) = bm_insert (e_base_offset e) e (index st)"
  "next_offset (insert_entry st e) = next_offset st"
  "log_start_offset (insert_entry st e) = log_start_offset st"
  by (auto simp: insert_entry_def Let_def split: option.splits)

lemma insert_entry_bytes: "bytes_ok st \<Longrightarrow> bytes_ok (insert_entry st e)"
proof -
  assume ok: "bytes_ok st"
  let ?b = "e_base_offset e" and ?f = "\<lambda>p. entry_bytes (snd p)"
  have sum: "index_bytes (bm_insert ?b e (index st)) + (case bm_get (index st) ?b of Some u \<Rightarrow> entry_bytes u | None \<Rightarrow> 0)
      = index_bytes (index st) + entry_bytes e"
    using bm_insert_sum [of ?f ?b e "index st"] by (simp split: option.splits)
  have add: "wadd64 (bytes st) (entry_bytes e) = (index_bytes (index st) + entry_bytes e) mod (U64_MAX + 1)"
    using ok by (simp add: bytes_ok_def wadd64_def mod_add_left_eq)
  show ?thesis
  proof (cases "bm_get (index st) ?b")
    case None
    with add sum show ?thesis by (simp add: bytes_ok_def insert_entry_def)
  next
    case (Some u)
    with sum have "wsub64 (wadd64 (bytes st) (entry_bytes e)) (entry_bytes u)
        = index_bytes (bm_insert ?b e (index st)) mod (U64_MAX + 1)"
      unfolding add by (intro wsub64_wadd64_mod) simp
    with Some show ?thesis by (simp add: bytes_ok_def insert_entry_def Let_def)
  qed
qed

lemma remove_entry_bytes: "bytes_ok st \<Longrightarrow> bytes_ok (fst (remove_entry st b))"
proof (cases "bm_get (index st) b")
  case None
  assume "bytes_ok st"
  with None show ?thesis by (simp add: remove_entry_def)
next
  case (Some e)
  assume ok: "bytes_ok st"
  have "index_bytes (index st) = index_bytes (bm_remove b (index st)) + entry_bytes e"
    using bm_remove_sum [OF Some, of "\<lambda>p. entry_bytes (snd p)"] by simp
  then have "wsub64 (bytes st) (entry_bytes e) = index_bytes (bm_remove b (index st)) mod (U64_MAX + 1)"
    using ok unfolding bytes_ok_def by (metis wsub64_wadd64_mod)
  with Some show ?thesis by (simp add: remove_entry_def bytes_ok_def)
qed

lemma part_invI:
  assumes "tiles lo (bm_iter (index st)) (next_offset st)" "next_offset st \<le> U64_MAX" "bytes_ok st"
    "bm_iter (index st) = [] \<Longrightarrow> log_start_offset st = next_offset st"
    "\<And>b e xs. bm_iter (index st) = (b, e) # xs \<Longrightarrow>
       b \<le> log_start_offset st \<and> log_start_offset st < b + e_records e"
  shows "part_inv st"
proof (cases "bm_iter (index st)")
  case Nil
  with assms show ?thesis by (simp add: part_inv_def bytes_ok_def wsum64_eq)
next
  case (Cons p xs)
  obtain b e where p: "p = (b, e)" by (cases p)
  with assms(1) Cons have "b = lo" by simp
  with assms Cons p show ?thesis by (simp add: part_inv_def bytes_ok_def wsum64_eq)
qed

section \<open>Appending an entry\<close>

lemma append_entry_inv:
  assumes inv: "part_inv st"
    and e: "e_base_offset e = next_offset st" "0 < e_records e"
    and room: "next_offset st + e_records e \<le> U64_MAX"
  shows "part_inv (insert_entry (st\<lparr>next_offset := next_offset st + e_records e\<rparr>) e)"
    and "bm_iter (bm_insert (next_offset st) e (index st)) = bm_iter (index st) @ [(next_offset st, e)]"
proof -
  obtain lo where t: "tiles lo (bm_iter (index st)) (next_offset st)"
    and l: "lo \<le> log_start_offset st" "log_start_offset st \<le> next_offset st"
    using part_inv_tiles [OF inv] by metis
  have "\<forall>p \<in> set (bm_iter (index st)). fst p < next_offset st"
    using tiles_mem [OF t] by fastforce
  then show iter: "bm_iter (bm_insert (next_offset st) e (index st))
      = bm_iter (index st) @ [(next_offset st, e)]"
    by (rule bm_iter_insert_last)
  have "bytes_ok (st\<lparr>next_offset := next_offset st + e_records e\<rparr>)"
    using part_inv_bytes_ok [OF inv] by (simp add: bytes_ok_def)
  moreover have "tiles lo (bm_iter (index st) @ [(next_offset st, e)]) (next_offset st + e_records e)"
    using t e by (auto simp: tiles_append)
  moreover have "b \<le> log_start_offset st \<and> log_start_offset st < b + e_records e'"
    if "bm_iter (index st) @ [(next_offset st, e)] = (b, e') # xs" for b e' xs
    using that inv e by (cases "bm_iter (index st)") (auto simp: part_inv_def)
  ultimately show "part_inv (insert_entry (st\<lparr>next_offset := next_offset st + e_records e\<rparr>) e)"
    using room iter e by (intro part_invI) (simp_all add: insert_entry_bytes)
qed

section \<open>Replacing a run of entries\<close>

fun remove_entries :: "PartitionState \<Rightarrow> u64 list \<Rightarrow> PartitionState \<times> IndexEntry list" where
  "remove_entries st [] = (st, [])"
| "remove_entries st (b # bs) =
     (let (st1, r) = remove_entry st b; (st2, es) = remove_entries st1 bs
      in (st2, (case r of Some e \<Rightarrow> e # es | None \<Rightarrow> es)))"

lemma remove_entries_run:
  assumes "bm_iter (index st) = pre @ run @ post" "bytes_ok st"
  shows "\<exists>st'. remove_entries st (map fst run) = (st', map snd run)
     \<and> bm_iter (index st') = pre @ post \<and> bytes_ok st'
     \<and> next_offset st' = next_offset st \<and> log_start_offset st' = log_start_offset st"
  using assms
proof (induction run arbitrary: st)
  case Nil
  then show ?case by simp
next
  case (Cons p run)
  obtain b e where p: "p = (b, e)" by (cases p)
  have get: "bm_get (index st) b = Some e"
    using Cons.prems(1) p by (simp add: bm_iter_get [symmetric])
  obtain st1 where r: "remove_entry st b = (st1, Some e)"
    and st1: "index st1 = bm_remove b (index st)" "next_offset st1 = next_offset st"
      "log_start_offset st1 = log_start_offset st"
    using get by (simp add: remove_entry_def)
  have "bm_iter (index st1) = pre @ run @ post"
    using Cons.prems(1) p st1 bm_iter_remove_mid [of "index st" pre b e "run @ post"] by simp
  moreover have "bytes_ok st1" using remove_entry_bytes [OF Cons.prems(2), of b] r by simp
  ultimately obtain st' where "remove_entries st1 (map fst run) = (st', map snd run)"
    "bm_iter (index st') = pre @ post" "bytes_ok st'"
    "next_offset st' = next_offset st1" "log_start_offset st' = log_start_offset st1"
    using Cons.IH by blast
  with st1 r p show ?case by simp
qed

lemma replace_run_inv:
  assumes inv: "part_inv st"
    and run: "bm_iter (index st) = pre @ run @ post" "run \<noteq> []"
    and seg: "e_base_offset seg = fst (hd run)" "e_records seg = sum_list (map (\<lambda>p. e_records (snd p)) run)"
  shows "\<exists>st'. remove_entries st (map fst run) = (st', map snd run)
     \<and> part_inv (insert_entry st' seg)
     \<and> bm_iter (index (insert_entry st' seg)) = pre @ (fst (hd run), seg) # post
     \<and> next_offset st' = next_offset st \<and> log_start_offset st' = log_start_offset st"
proof -
  obtain lo where t: "tiles lo (bm_iter (index st)) (next_offset st)" and n: "next_offset st \<le> U64_MAX"
    using part_inv_tiles [OF inv] by metis
  from t run obtain mid1 mid2 where
    t1: "tiles lo pre mid1" and t2: "tiles mid1 run mid2" and t3: "tiles mid2 post (next_offset st)"
    by (auto simp: tiles_append)
  obtain b0 e0 run' where hd: "run = (b0, e0) # run'" using run(2) by (cases run) auto
  have b0: "b0 = mid1" using t2 hd by simp
  have sum: "mid1 + sum_list (map (\<lambda>p. e_records (snd p)) run) = mid2"
    using t2 by (induction mid1 run mid2 rule: tiles.induct) auto
  obtain st' where st': "remove_entries st (map fst run) = (st', map snd run)"
    "bm_iter (index st') = pre @ post" "bytes_ok st'"
    "next_offset st' = next_offset st" "log_start_offset st' = log_start_offset st"
    using remove_entries_run [OF run(1) part_inv_bytes_ok [OF inv]] by blast
  have pos: "0 < e_records seg" using seg(2) hd t2 by auto
  have lt: "\<forall>p \<in> set pre. fst p < b0" using tiles_mem [OF t1] b0 by fastforce
  have gt: "\<forall>p \<in> set post. b0 < fst p"
    using tiles_mem [OF t3] sum b0 pos seg(2) by fastforce
  have iter: "bm_iter (bm_insert b0 seg (index st')) = pre @ (b0, seg) # post"
    by (rule bm_iter_insert_mid [OF st'(2) lt gt])
  have base: "e_base_offset seg = b0" using seg(1) hd by simp
  have "part_inv (insert_entry st' seg)"
  proof (rule part_invI)
    show "tiles lo (bm_iter (index (insert_entry st' seg))) (next_offset (insert_entry st' seg))"
      using t1 t3 sum b0 pos seg(2) base iter st'(4) by (auto simp: tiles_append)
    show "next_offset (insert_entry st' seg) \<le> U64_MAX" using n st'(4) by simp
    show "bytes_ok (insert_entry st' seg)" by (rule insert_entry_bytes [OF st'(3)])
    show "log_start_offset (insert_entry st' seg) = next_offset (insert_entry st' seg)"
      if "bm_iter (index (insert_entry st' seg)) = []"
      using that iter base by simp
    show "b \<le> log_start_offset (insert_entry st' seg)
        \<and> log_start_offset (insert_entry st' seg) < b + e_records e"
      if "bm_iter (index (insert_entry st' seg)) = (b, e) # xs" for b e xs
    proof (cases pre)
      case Nil
      with that iter base have "b = b0" "e = seg" by auto
      moreover have "b0 \<le> log_start_offset st" "log_start_offset st < b0 + e_records e0"
        using inv run(1) Nil hd by (simp_all add: part_inv_def)
      moreover have "e_records e0 \<le> e_records seg" using seg(2) hd by simp
      ultimately show ?thesis using st'(5) by simp
    next
      case (Cons q qs)
      with that iter base have "q = (b, e)" by simp
      with Cons inv run(1) st'(5) show ?thesis by (simp add: part_inv_def)
    qed
  qed
  with st' iter base hd show ?thesis by auto
qed

section \<open>Trimming\<close>

lemma pop_all_before_split:
  assumes "tiles lo (bm_iter (index st)) hi" "hi \<le> U64_MAX" "bytes_ok st"
  shows "\<exists>st' gone rest. pop_all_before st off = (st', map snd gone)
     \<and> bm_iter (index st) = gone @ rest \<and> bm_iter (index st') = rest
     \<and> (\<forall>(b, e) \<in> set gone. b + e_records e \<le> off)
     \<and> (\<forall>b e xs. rest = (b, e) # xs \<longrightarrow> off < b + e_records e)
     \<and> bytes_ok st' \<and> next_offset st' = next_offset st \<and> log_start_offset st' = log_start_offset st"
  using assms
proof (induction "bm_iter (index st)" arbitrary: st lo)
  case Nil
  then have "bm_first (index st) = None" by (simp add: bm_first_def del: bm_first_None)
  then have "pop_all_before st off = (st, [])"
    by (subst pop_all_before.simps) (simp add: pop_first_before_def del: bm_first_None)
  with Nil show ?case by (intro exI [of _ st] exI [of _ "[]"]) simp
next
  case (Cons p xs)
  obtain b e where p: "p = (b, e)" by (cases p)
  have iter: "bm_iter (index st) = (b, e) # xs" using Cons.hyps(2) p by simp
  have t: "tiles (b + e_records e) xs hi" using Cons.prems(1) iter by simp
  have first: "bm_first (index st) = Some (b, e)" using iter by (simp add: bm_first_def)
  have get: "bm_get (index st) b = Some e" using iter by (simp add: bm_get_def)
  have end_off: "end_offset e = b + e_records e"
    using tiles_end_offset [OF Cons.prems(1,2), of b e] iter by simp
  show ?case
  proof (cases "b + e_records e \<le> off")
    case True
    let ?st1 = "fst (remove_entry st b)"
    have pop: "pop_first_before st off = (?st1, Some e)"
      using first True end_off get by (simp add: pop_first_before_def remove_entry_def)
    have iter1: "bm_iter (index ?st1) = xs"
      using get bm_iter_remove_hd [OF iter] by (simp add: remove_entry_def)
    have rest1: "next_offset ?st1 = next_offset st" "log_start_offset ?st1 = log_start_offset st"
      using get by (simp_all add: remove_entry_def)
    obtain st' gone rest where "pop_all_before ?st1 off = (st', map snd gone)"
      "xs = gone @ rest" "bm_iter (index st') = rest"
      "\<forall>(b, e) \<in> set gone. b + e_records e \<le> off"
      "\<forall>b e xs. rest = (b, e) # xs \<longrightarrow> off < b + e_records e"
      "bytes_ok st'" "next_offset st' = next_offset ?st1" "log_start_offset st' = log_start_offset ?st1"
      using Cons.hyps(1) [of ?st1 "b + e_records e"] iter1 t Cons.prems(2) remove_entry_bytes [OF Cons.prems(3)]
      by metis
    with pop True iter rest1 show ?thesis
      by (intro exI [of _ st'] exI [of _ "(b, e) # gone"] exI [of _ rest])
        (simp add: pop_all_before.simps [of st])
  next
    case False
    then have "pop_first_before st off = (st, None)"
      using first end_off by (simp add: pop_first_before_def)
    then have "pop_all_before st off = (st, [])"
      by (subst pop_all_before.simps) simp
    with False iter Cons.prems(3) show ?thesis
      by (intro exI [of _ st] exI [of _ "[]"] exI [of _ "(b, e) # xs"]) simp
  qed
qed

lemma trim_inv:
  assumes inv: "part_inv st"
    and before: "before \<le> next_offset st"
    and pop: "pop_all_before st before = (st', es)"
  shows "part_inv (st'\<lparr>log_start_offset := max (log_start_offset st') before\<rparr>)"
    and "\<exists>gone rest. bm_iter (index st) = gone @ rest \<and> bm_iter (index st') = rest \<and> es = map snd gone
       \<and> (\<forall>(b, e) \<in> set gone. b + e_records e \<le> before)"
    and "next_offset st' = next_offset st" "log_start_offset st' = log_start_offset st"
proof -
  obtain lo where t: "tiles lo (bm_iter (index st)) (next_offset st)" and n: "next_offset st \<le> U64_MAX"
    and l: "lo \<le> log_start_offset st" "log_start_offset st \<le> next_offset st"
    using part_inv_tiles [OF inv] by metis
  obtain gone rest where
    es: "es = map snd gone" and iter: "bm_iter (index st) = gone @ rest" "bm_iter (index st') = rest"
    and gone: "\<forall>(b, e) \<in> set gone. b + e_records e \<le> before"
    and rest: "\<forall>b e xs. rest = (b, e) # xs \<longrightarrow> before < b + e_records e"
    and st': "bytes_ok st'" "next_offset st' = next_offset st" "log_start_offset st' = log_start_offset st"
    using pop_all_before_split [OF t n part_inv_bytes_ok [OF inv], of before] pop by auto
  show "\<exists>gone rest. bm_iter (index st) = gone @ rest \<and> bm_iter (index st') = rest \<and> es = map snd gone
       \<and> (\<forall>(b, e) \<in> set gone. b + e_records e \<le> before)"
    using es iter gone by blast
  show "next_offset st' = next_offset st" "log_start_offset st' = log_start_offset st"
    by (rule st')+
  from t iter obtain mid where tg: "tiles lo gone mid" and tr: "tiles mid rest (next_offset st)"
    by (auto simp: tiles_append)
  have mid: "gone = [] \<and> mid = lo \<or> mid \<le> before"
  proof (cases gone rule: rev_cases)
    case Nil
    with tg show ?thesis by simp
  next
    case (snoc ys q)
    with tg gone show ?thesis by (cases q) (auto simp: tiles_append)
  qed
  show "part_inv (st'\<lparr>log_start_offset := max (log_start_offset st') before\<rparr>)"
  proof (rule part_invI)
    show "tiles mid (bm_iter (index (st'\<lparr>log_start_offset := max (log_start_offset st') before\<rparr>)))
        (next_offset (st'\<lparr>log_start_offset := max (log_start_offset st') before\<rparr>))"
      using tr iter st' by simp
    show "next_offset (st'\<lparr>log_start_offset := max (log_start_offset st') before\<rparr>) \<le> U64_MAX"
      using n st' by simp
    show "bytes_ok (st'\<lparr>log_start_offset := max (log_start_offset st') before\<rparr>)"
      using st' by (simp add: bytes_ok_def)
    show "log_start_offset (st'\<lparr>log_start_offset := max (log_start_offset st') before\<rparr>)
        = next_offset (st'\<lparr>log_start_offset := max (log_start_offset st') before\<rparr>)"
      if "bm_iter (index (st'\<lparr>log_start_offset := max (log_start_offset st') before\<rparr>)) = []"
    proof -
      have "rest = []" using that iter by simp
      with tr have "mid = next_offset st" by simp
      moreover have "bm_iter (index st) = [] \<Longrightarrow> log_start_offset st = next_offset st"
        using inv by (simp add: part_inv_def)
      ultimately show ?thesis
        using mid iter(1) \<open>rest = []\<close> before l st' by auto
    qed
    show "b \<le> log_start_offset (st'\<lparr>log_start_offset := max (log_start_offset st') before\<rparr>)
        \<and> log_start_offset (st'\<lparr>log_start_offset := max (log_start_offset st') before\<rparr>) < b + e_records e"
      if "bm_iter (index (st'\<lparr>log_start_offset := max (log_start_offset st') before\<rparr>)) = (b, e) # xs" for b e xs
    proof -
      have r: "rest = (b, e) # xs" using that iter by simp
      then have "b = mid" using tr by simp
      moreover have "before < b + e_records e" using rest r by blast
      moreover have "log_start_offset st < b + e_records e"
      proof (cases gone)
        case Nil
        with iter r inv show ?thesis by (simp add: part_inv_def)
      next
        case (Cons q qs)
        obtain b1 e1 where q: "q = (b1, e1)" by (cases q)
        then have "log_start_offset st < b1 + e_records e1"
          using inv iter Cons by (simp add: part_inv_def)
        moreover have "b1 + e_records e1 \<le> mid"
          using tiles_mem [OF tg, of b1 e1] Cons q by simp
        ultimately show ?thesis using \<open>b = mid\<close> by simp
      qed
      ultimately show ?thesis using mid l st' by auto
    qed
  qed
qed

end
