(* ===== verification/MetaState.thy ===== *)
theory MetaState
  imports Schema Partition
begin

text \<open>
  The metastore's commands and replies (\<open>loams-meta/src/command.rs\<close>), its state, and
  the checks every command shares (\<open>loams-meta/src/state/mod.rs\<close>). An operation of the
  state machine is a function from the state to the state it leaves and its result.
\<close>

section \<open>Commands and replies\<close>

datatype Command =
    CreateNamespace string
  | CreateStream NamespaceId string u32 WalClass Retention
  | CreateLink NamespaceId string StreamId TargetRef "(string, string) btree_map"
  | CommitWal string u64 "WalChunk list"
  | SetRetention StreamId Retention
  | SwapSegment StreamId u32 "(u64 \<times> string) list" string byte_range i64 "Fence option" u64 Freshness
  | TrimPartition StreamId u32 u64 "Fence option" u64
  | PruneWalCommits "Fence option" u64
  | ForgetObjects "string list" "Fence option"
  | AcquireLease string string u64 u64
  | RenewLease string string u64 u64 u64
  | ReacquireLease string string u64 u64 u64
  | ReleaseLease string string u64
  | CasPointer NamespaceId string "u64 option" string "Fence option" "Freshness option"
  | CreateCollection NamespaceId string CollectionSchema u32
  | DropCollection NamespaceId string u64
  | UpdateCollectionSchema CollectionId u64 CollectionSchema
  | UpdateAliases NamespaceId "AliasAction list"
  | SetCollectionHot CollectionId HotConfig
  | UpdateAliasTargets NamespaceId "AliasTargetAction list"
  | ClaimIdempotencyKeys StreamId string "IdempotencyKey list" u64 u64
  | CompleteIdempotencyKeys StreamId string "(IdempotencyKey \<times> u32 \<times> u64) list" u64 u64
  | ReleaseIdempotencyKeys StreamId string "IdempotencyKey list"
  | PruneIdempotencyKeys "Fence option" u64

datatype Reply =
    NamespaceCreated NamespaceId
  | StreamCreated StreamId
  | LinkCreated LinkId
  | WalCommitted "u64 list"
  | LeaseGranted LeaseGrant
  | LeaseReleased
  | PointerSet u64
  | RetentionSet
  | SegmentSwapped
  | Trimmed u64
  | Pruned u32
  | Forgotten u32
  | CollectionCreated CollectionId StreamId LinkId
  | CollectionDropped "CollectionId option"
  | SchemaUpdated u64
  | AliasesUpdated
  | CollectionHotSet
  | IdempotencyClaimed "IdempotencyState list"
  | IdempotencyKeysUpdated

section \<open>State\<close>

record Collection =
  c_id :: CollectionId
  c_namespace :: NamespaceId
  c_name :: string
  c_schema :: CollectionSchema
  c_partitions :: u32
  c_stream :: StreamId
  c_link :: LinkId

record MetaState =
  clock_ms :: u64
  last_namespace_id :: u64
  last_stream_id :: u64
  namespaces :: "(NamespaceId, Namespace) btree_map"
  namespace_names :: "(string, NamespaceId) btree_map"
  streams :: "(StreamId, Stream) btree_map"
  stream_names :: "(NamespaceId \<times> string, StreamId) btree_map"
  partitions :: "(StreamId \<times> u32, PartitionState) btree_map"
  wal_commits :: "(string, WalCommitRecord) btree_map"
  wal_live_chunks :: "(string, u32) btree_map"
  retired :: "(string, u64) btree_map"
  leases :: "(string, Lease) btree_map"
  pointers :: "(NamespaceId \<times> string, Pointer) btree_map"
  last_link_id :: u64
  links :: "(LinkId, Link) btree_map"
  link_names :: "(NamespaceId \<times> string, LinkId) btree_map"
  last_collection_id :: u64
  collections :: "(CollectionId, Collection) btree_map"
  collection_names :: "(NamespaceId \<times> string, CollectionId) btree_map"
  aliases :: "(NamespaceId \<times> string, CollectionId) btree_map"
  collection_hot :: "(CollectionId, HotConfig) btree_map"
  alias_targets :: "(NamespaceId \<times> string, AliasTargets) btree_map"
  idempotency :: "(StreamId \<times> IdempotencyKey, IdempotencyEntry) btree_map"

definition MetaState_default :: MetaState where
  "MetaState_default = \<lparr>
     clock_ms = 0, last_namespace_id = 0, last_stream_id = 0,
     namespaces = bm_empty, namespace_names = bm_empty,
     streams = bm_empty, stream_names = bm_empty, partitions = bm_empty,
     wal_commits = bm_empty, wal_live_chunks = bm_empty, retired = bm_empty,
     leases = bm_empty, pointers = bm_empty,
     last_link_id = 0, links = bm_empty, link_names = bm_empty,
     last_collection_id = 0, collections = bm_empty, collection_names = bm_empty,
     aliases = bm_empty, collection_hot = bm_empty, alias_targets = bm_empty,
     idempotency = bm_empty\<rparr>"

type_synonym outcome = "MetaState \<times> (ApplyError + Reply)"

section \<open>Shared checks\<close>

definition is_name_byte :: "char \<Rightarrow> bool" where
  "is_name_byte c \<longleftrightarrow>
     (let b = (of_char c :: nat) in
      48 \<le> b \<and> b \<le> 57 \<or> 65 \<le> b \<and> b \<le> 90 \<or> 97 \<le> b \<and> b \<le> 122
      \<or> c = CHR ''-'' \<or> c = CHR ''_'' \<or> c = CHR ''.'')"

definition validate_name :: "string \<Rightarrow> string \<Rightarrow> ApplyError + unit" where
  "validate_name kind name =
     (if name \<noteq> [] \<and> length name \<le> MAX_NAME_LEN \<and> name \<noteq> ''.'' \<and> name \<noteq> ''..''
         \<and> list_all is_name_byte name
      then Inr ()
      else Inl (InvalidArgument (Fmt ''invalid {} name {:?}'' [FStr kind, FStr name])))"

definition refuse_reserved :: "string \<Rightarrow> ApplyError + unit" where
  "refuse_reserved name =
     (if prefix ''_'' name
      then Inl (InvalidArgument (Fmt ''names starting with '_' are reserved for implicit objects'' []))
      else Inr ())"

definition validate_key :: "string \<Rightarrow> string \<Rightarrow> ApplyError + unit" where
  "validate_key kind key =
     (if key = [] \<or> MAX_KEY_LEN < length key
      then Inl (InvalidArgument (Fmt ''{} must be 1..={} bytes, got {}''
                 [FStr kind, FNat MAX_KEY_LEN, FNat (length key)]))
      else Inr ())"

text \<open>A stream has \<open>1..=MAX_PARTITIONS\<close> partitions (\<open>state/catalog.rs\<close>).\<close>

definition check_partitions :: "u32 \<Rightarrow> ApplyError + unit" where
  "check_partitions n =
     (if \<not> (1 \<le> n \<and> n \<le> MAX_PARTITIONS)
      then Inl (InvalidArgument (Fmt ''partitions must be 1..={}, got {}'' [FNat MAX_PARTITIONS, FNat n]))
      else Inr ())"

lemma validate_name_Inr [simp]:
  "validate_name kind name = Inr u \<longleftrightarrow>
     name \<noteq> [] \<and> length name \<le> MAX_NAME_LEN \<and> name \<noteq> ''.'' \<and> name \<noteq> ''..'' \<and> list_all is_name_byte name"
  by (auto simp: validate_name_def)

lemma refuse_reserved_Inr [simp]: "refuse_reserved name = Inr u \<longleftrightarrow> \<not> prefix ''_'' name"
  by (auto simp: refuse_reserved_def)

lemma validate_key_Inr [simp]: "validate_key kind key = Inr u \<longleftrightarrow> key \<noteq> [] \<and> length key \<le> MAX_KEY_LEN"
  by (auto simp: validate_key_def)

lemma check_partitions_Inr [simp]: "check_partitions n = Inr u \<longleftrightarrow> 1 \<le> n \<and> n \<le> MAX_PARTITIONS"
  by (auto simp: check_partitions_def)

end
