(* ===== verification/Leases.thy ===== *)
theory Leases
  imports MetaState
begin

text \<open>
  Leases with epochs and the fences that rest on them (\<open>loams-meta/src/state/leases.rs\<close>).
\<close>

section \<open>Operations\<close>

definition validate_lease_args :: "string \<Rightarrow> string \<Rightarrow> u64 \<Rightarrow> ApplyError + unit" where
  "validate_lease_args key owner ttl =
     check (validate_key ''lease key'' key) (\<lambda>_.
     check (validate_key ''lease owner'' owner) (\<lambda>_.
     if \<not> (1 \<le> ttl \<and> ttl \<le> MAX_LEASE_TTL_MS)
     then Inl (InvalidArgument (Fmt ''lease ttl must be 1..={} ms, got {}'' [FNat MAX_LEASE_TTL_MS, FNat ttl]))
     else Inr ()))"

definition acquire_lease :: "MetaState \<Rightarrow> string \<Rightarrow> string \<Rightarrow> u64 \<Rightarrow> u64 \<Rightarrow> outcome" where
  "acquire_lease s key owner ttl now_ms =
     attempt s (validate_lease_args key owner ttl) (\<lambda>_.
     let now = max (clock_ms s) now_ms;
         deadline = sat_add64 now ttl;
         grant = (\<lambda>lease. (s\<lparr>clock_ms := now, leases := bm_insert key lease (leases s)\<rparr>,
                    Inr (LeaseGranted \<lparr>lg_epoch = le_epoch lease, lg_deadline_ms = deadline\<rparr>)))
     in case bm_get (leases s) key of
          None \<Rightarrow> grant \<lparr>le_epoch = 1, le_owner = Some owner, le_deadline_ms = deadline\<rparr>
        | Some current \<Rightarrow>
            if is_held_at current now then
              if le_owner current \<noteq> Some owner
              then (s, Inl (LeaseHeld (case le_owner current of Some w \<Rightarrow> w | None \<Rightarrow> [])
                             (le_deadline_ms current)))
              else grant \<lparr>le_epoch = le_epoch current, le_owner = Some owner, le_deadline_ms = deadline\<rparr>
            else grant \<lparr>le_epoch = wadd64 (le_epoch current) 1, le_owner = Some owner,
                        le_deadline_ms = deadline\<rparr>)"

definition renew_lease :: "MetaState \<Rightarrow> string \<Rightarrow> string \<Rightarrow> u64 \<Rightarrow> u64 \<Rightarrow> u64 \<Rightarrow> outcome" where
  "renew_lease s key owner epoch ttl now_ms =
     attempt s (validate_lease_args key owner ttl) (\<lambda>_.
     let now = max (clock_ms s) now_ms in
     case bm_get (leases s) key of
       None \<Rightarrow> (s, Inl (LeaseLost key))
     | Some lease \<Rightarrow>
         if le_epoch lease \<noteq> epoch \<or> le_owner lease \<noteq> Some owner \<or> \<not> is_held_at lease now
         then (s, Inl (LeaseLost key))
         else let lease' = lease\<lparr>le_deadline_ms := sat_add64 now ttl\<rparr> in
           (s\<lparr>clock_ms := now, leases := bm_insert key lease' (leases s)\<rparr>,
            Inr (LeaseGranted \<lparr>lg_epoch = epoch, lg_deadline_ms = le_deadline_ms lease'\<rparr>)))"

definition reacquire_lease :: "MetaState \<Rightarrow> string \<Rightarrow> string \<Rightarrow> u64 \<Rightarrow> u64 \<Rightarrow> u64 \<Rightarrow> outcome" where
  "reacquire_lease s key owner epoch ttl now_ms =
     attempt s (validate_lease_args key owner ttl) (\<lambda>_.
     let now = max (clock_ms s) now_ms in
     case bm_get (leases s) key of
       None \<Rightarrow> (s, Inl (LeaseLost key))
     | Some lease \<Rightarrow>
         if le_epoch lease \<noteq> epoch \<or> le_owner lease \<noteq> Some owner
         then (s, Inl (LeaseLost key))
         else let lease' = lease\<lparr>le_deadline_ms := sat_add64 now ttl\<rparr> in
           (s\<lparr>clock_ms := now, leases := bm_insert key lease' (leases s)\<rparr>,
            Inr (LeaseGranted \<lparr>lg_epoch = epoch, lg_deadline_ms = le_deadline_ms lease'\<rparr>)))"

definition release_lease :: "MetaState \<Rightarrow> string \<Rightarrow> string \<Rightarrow> u64 \<Rightarrow> outcome" where
  "release_lease s key owner epoch =
     (case bm_get (leases s) key of
        None \<Rightarrow> (s, Inl (LeaseLost key))
      | Some lease \<Rightarrow>
          if le_epoch lease \<noteq> epoch then (s, Inl (LeaseLost key))
          else (case le_owner lease of
              None \<Rightarrow> (s, Inr LeaseReleased)
            | Some current \<Rightarrow>
                if current = owner
                then (s\<lparr>leases := bm_insert key (lease\<lparr>le_owner := None\<rparr>) (leases s)\<rparr>, Inr LeaseReleased)
                else (s, Inl (LeaseLost key))))"

definition check_fence :: "MetaState \<Rightarrow> Fence \<Rightarrow> ApplyError + unit" where
  "check_fence s f = (case bm_get (leases s) (f_lease f) of
     Some lease \<Rightarrow>
       if le_epoch lease = f_epoch f \<and> le_owner lease \<noteq> None then Inr ()
       else Inl (Fenced (f_lease f))
   | None \<Rightarrow> Inl (Fenced (f_lease f)))"

text \<open>\<open>if let Some(fence) = &fence { self.check_fence(fence)?; }\<close>\<close>

definition check_fence_opt :: "MetaState \<Rightarrow> Fence option \<Rightarrow> ApplyError + unit" where
  "check_fence_opt s f = (case f of None \<Rightarrow> Inr () | Some fence \<Rightarrow> check_fence s fence)"

definition lease_of :: "MetaState \<Rightarrow> string \<Rightarrow> Lease option" where
  "lease_of s key = bm_get (leases s) key"

text \<open>\<open>leases_with_prefix\<close> (\<open>state/hot.rs\<close>): in key order, released and expired ones included.\<close>

definition leases_with_prefix :: "MetaState \<Rightarrow> string \<Rightarrow> (string \<times> Lease) list" where
  "leases_with_prefix s p = takeWhile (\<lambda>(key, _). prefix p key) (bm_range_from (leases s) p)"

lemmas lease_op_defs = acquire_lease_def renew_lease_def reacquire_lease_def release_lease_def

declare lease_op_defs [state_simps] check_fence_def [state_simps] check_fence_opt_def [state_simps]

section \<open>Errors and the clock\<close>

lemma validate_lease_args_Inr [simp]:
  "validate_lease_args key owner ttl = Inr u \<longleftrightarrow>
     key \<noteq> [] \<and> length key \<le> MAX_KEY_LEN \<and> owner \<noteq> [] \<and> length owner \<le> MAX_KEY_LEN
     \<and> 1 \<le> ttl \<and> ttl \<le> MAX_LEASE_TTL_MS"
  by (auto simp: validate_lease_args_def check_Inr_iff)

lemma check_fence_Inr [simp]:
  "check_fence s f = Inr u \<longleftrightarrow>
     (\<exists>l. bm_get (leases s) (f_lease f) = Some l \<and> le_epoch l = f_epoch f \<and> le_owner l \<noteq> None)"
  by (auto simp: check_fence_def split: option.splits)

lemma acquire_lease_error [op_errors]: "acquire_lease s k w ttl now = (s', Inl e) \<Longrightarrow> s' = s"
  by (auto simp: acquire_lease_def Let_def split: attempt_splits option.splits if_splits)

lemma renew_lease_error [op_errors]: "renew_lease s k w ep ttl now = (s', Inl e) \<Longrightarrow> s' = s"
  by (auto simp: renew_lease_def Let_def split: attempt_splits option.splits if_splits)

lemma reacquire_lease_error [op_errors]: "reacquire_lease s k w ep ttl now = (s', Inl e) \<Longrightarrow> s' = s"
  by (auto simp: reacquire_lease_def Let_def split: attempt_splits option.splits if_splits)

lemma release_lease_error [op_errors]: "release_lease s k w ep = (s', Inl e) \<Longrightarrow> s' = s"
  by (auto simp: release_lease_def split: option.splits if_splits)

lemma acquire_lease_clock [op_clock]: "acquire_lease s k w ttl now = (s', r) \<Longrightarrow> clock_ms s \<le> clock_ms s'"
  by (auto simp: acquire_lease_def Let_def split: attempt_splits option.splits if_splits)

lemma renew_lease_clock [op_clock]: "renew_lease s k w ep ttl now = (s', r) \<Longrightarrow> clock_ms s \<le> clock_ms s'"
  by (auto simp: renew_lease_def Let_def split: attempt_splits option.splits if_splits)

lemma reacquire_lease_clock [op_clock]: "reacquire_lease s k w ep ttl now = (s', r) \<Longrightarrow> clock_ms s \<le> clock_ms s'"
  by (auto simp: reacquire_lease_def Let_def split: attempt_splits option.splits if_splits)

lemma release_lease_clock [op_clock]: "release_lease s k w ep = (s', r) \<Longrightarrow> clock_ms s \<le> clock_ms s'"
  by (auto simp: release_lease_def split: option.splits if_splits)

section \<open>Epochs and owners\<close>

text \<open>
  How a lease may change: its epoch grows, or it stays and the owner stays or leaves.
  So an epoch belongs to one owner, and an owner that has left does not come back in it.
\<close>

definition lease_le :: "Lease \<Rightarrow> Lease \<Rightarrow> bool" where
  "lease_le l l' \<longleftrightarrow> le_epoch l < le_epoch l'
     \<or> le_epoch l = le_epoch l' \<and> (le_owner l' = le_owner l \<or> le_owner l' = None)"

lemma lease_le_refl [simp]: "lease_le l l"
  by (simp add: lease_le_def)

lemma lease_le_trans: "lease_le a b \<Longrightarrow> lease_le b c \<Longrightarrow> lease_le a c"
  by (auto simp: lease_le_def)

definition leases_le :: "MetaState \<Rightarrow> MetaState \<Rightarrow> bool" where
  "leases_le s s' \<longleftrightarrow> (\<forall>k l. bm_get (leases s) k = Some l \<longrightarrow>
     (\<exists>l'. bm_get (leases s') k = Some l' \<and> lease_le l l'))"

definition leases_bound :: "nat \<Rightarrow> MetaState \<Rightarrow> bool" where
  "leases_bound n s \<longleftrightarrow> (\<forall>k l. bm_get (leases s) k = Some l \<longrightarrow> 1 \<le> le_epoch l \<and> le_epoch l \<le> n)"

lemma leases_le_refl [simp]: "leases s' = leases s \<Longrightarrow> leases_le s s'"
  by (simp add: leases_le_def)

lemma leases_le_trans: "leases_le a b \<Longrightarrow> leases_le b c \<Longrightarrow> leases_le a c"
  unfolding leases_le_def by (meson lease_le_trans)

lemma leases_le_insert:
  "(\<And>l. bm_get (leases s) k = Some l \<Longrightarrow> lease_le l l') \<Longrightarrow> leases s' = bm_insert k l' (leases s) \<Longrightarrow>
     leases_le s s'"
  by (simp add: leases_le_def)

lemma leases_bound_mono: "leases_bound n s \<Longrightarrow> n \<le> m \<Longrightarrow> leases s' = leases s \<Longrightarrow> leases_bound m s'"
  unfolding leases_bound_def by force

lemma leases_bound_insert:
  "leases_bound n s \<Longrightarrow> leases s' = bm_insert k l' (leases s) \<Longrightarrow> 1 \<le> le_epoch l' \<Longrightarrow> le_epoch l' \<le> Suc n \<Longrightarrow>
     leases_bound (Suc n) s'"
  by (simp add: leases_bound_def le_SucI)

lemma acquire_lease_cases:
  assumes "acquire_lease s k w ttl now = (s', r)"
  obtains (error) e where "s' = s" "r = Inl e"
  | (granted) l' where "s' = s\<lparr>clock_ms := max (clock_ms s) now, leases := bm_insert k l' (leases s)\<rparr>"
      "r = Inr (LeaseGranted \<lparr>lg_epoch = le_epoch l', lg_deadline_ms = le_deadline_ms l'\<rparr>)"
      "le_owner l' = Some w" "le_deadline_ms l' = sat_add64 (max (clock_ms s) now) ttl"
      "case bm_get (leases s) k of
         None \<Rightarrow> le_epoch l' = 1
       | Some l \<Rightarrow> if is_held_at l (max (clock_ms s) now) then le_owner l = Some w \<and> le_epoch l' = le_epoch l
                   else le_epoch l' = wadd64 (le_epoch l) 1"
proof (cases r)
  case (Inl e)
  then show ?thesis using assms error acquire_lease_error by blast
next
  case (Inr x)
  let ?now = "max (clock_ms s) now"
  let ?l = "\<lparr>le_epoch = (case bm_get (leases s) k of None \<Rightarrow> 1
      | Some l \<Rightarrow> if is_held_at l ?now then le_epoch l else wadd64 (le_epoch l) 1),
    le_owner = Some w, le_deadline_ms = sat_add64 ?now ttl\<rparr>"
  from Inr show ?thesis using assms
    by (intro granted [of ?l])
      (auto simp: acquire_lease_def Let_def split: attempt_splits option.splits if_splits)
qed

lemma acquire_lease_le:
  assumes "leases_bound n s" "n < U64_MAX"
  shows "leases_le s (fst (acquire_lease s k w ttl now)) \<and> leases_bound (Suc n) (fst (acquire_lease s k w ttl now))"
proof -
  obtain s' r where eq: "acquire_lease s k w ttl now = (s', r)" by fastforce
  then show ?thesis
  proof (cases rule: acquire_lease_cases)
    case error
    then show ?thesis using eq assms by (auto intro: leases_bound_mono)
  next
    case (granted l')
    have inc: "wadd64 (le_epoch l) 1 = Suc (le_epoch l)" "le_epoch l \<le> n" "1 \<le> le_epoch l"
      if "bm_get (leases s) k = Some l" for l
      using that assms by (force simp: leases_bound_def wadd64_exact)+
    have "1 \<le> le_epoch l' \<and> le_epoch l' \<le> Suc n \<and> (\<forall>l. bm_get (leases s) k = Some l \<longrightarrow> lease_le l l')"
      using granted(5) granted(3) inc by (auto simp: lease_le_def le_SucI split: option.splits if_splits)
    then show ?thesis using eq granted assms
      by (auto intro!: leases_le_insert [of _ k l'] leases_bound_insert [of n s])
  qed
qed

lemma renew_lease_le:
  "leases_bound n s \<Longrightarrow>
     leases_le s (fst (renew_lease s k w ep ttl now)) \<and> leases_bound (Suc n) (fst (renew_lease s k w ep ttl now))"
  by (auto simp: renew_lease_def Let_def leases_le_def leases_bound_def lease_le_def le_SucI
      split: attempt_splits option.splits if_splits)

lemma reacquire_lease_le:
  "leases_bound n s \<Longrightarrow>
     leases_le s (fst (reacquire_lease s k w ep ttl now)) \<and> leases_bound (Suc n) (fst (reacquire_lease s k w ep ttl now))"
  by (auto simp: reacquire_lease_def Let_def leases_le_def leases_bound_def lease_le_def le_SucI
      split: attempt_splits option.splits if_splits)

lemma release_lease_le:
  "leases_bound n s \<Longrightarrow>
     leases_le s (fst (release_lease s k w ep)) \<and> leases_bound (Suc n) (fst (release_lease s k w ep))"
  by (auto simp: release_lease_def leases_le_def leases_bound_def lease_le_def le_SucI
      split: option.splits if_splits)

section \<open>Fenced operations\<close>

text \<open>
  The contract of an operation that carries a fence: with a fence that does not hold it
  changes nothing. A holder whose lease another owner has since acquired can then no
  longer change anything through it.
\<close>

locale fenced_op =
  fixes op :: "MetaState \<Rightarrow> Fence option \<Rightarrow> outcome"
  assumes fenced: "check_fence s f = Inl e \<Longrightarrow> fst (op s (Some f)) = s"
begin

lemma stale_epoch:
  "bm_get (leases s) (f_lease f) = Some l \<Longrightarrow> le_epoch l \<noteq> f_epoch f \<Longrightarrow> fst (op s (Some f)) = s"
  by (rule fenced [of s f "Fenced (f_lease f)"]) (simp add: check_fence_def)

lemma after_release:
  assumes "release_lease s (f_lease f) w (f_epoch f) = (s', Inr r)"
  shows "fst (op s' (Some f)) = s'"
  by (rule fenced [of s' f "Fenced (f_lease f)"])
    (use assms in \<open>auto simp: release_lease_def check_fence_def split: option.splits if_splits\<close>)

lemma after_takeover:
  assumes lease: "bm_get (leases s) (f_lease f) = Some l" "le_epoch l = f_epoch f" "le_epoch l < U64_MAX"
    and other: "le_owner l \<noteq> Some w"
    and acq: "acquire_lease s (f_lease f) w ttl now = (s', Inr r)"
  shows "fst (op s' (Some f)) = s'"
  using acq
proof (cases rule: acquire_lease_cases)
  case (granted l')
  then have "le_epoch l' = le_epoch l + 1"
    using lease other by (auto simp: wadd64_exact split: if_splits)
  then show ?thesis
    using granted lease by (intro stale_epoch [of s' f l']) simp_all
qed simp

end

end
