(* ===== verification/Log.thy ===== *)
theory Log
  imports Leases
begin

text \<open>
  The log of the metastore: offsets for the chunks of a WAL object
  (\<open>state/sequencer.rs\<close>), segment swaps, trims and the life of the objects index
  entries point into (\<open>state/segments.rs\<close>), retention settings and the pruning that
  bounds the state (\<open>state/retention.rs\<close>).
\<close>

section \<open>Objects and index entries\<close>

text \<open>
  \<open>release_entry\<close>: a removed WAL chunk decrements its object's live count and retires the
  object at zero; a removed segment is retired at once.
\<close>

definition release_entry :: "MetaState \<Rightarrow> IndexEntry \<Rightarrow> MetaState" where
  "release_entry s e = (case e_kind e of
     Wal \<Rightarrow>
       (let (live, remaining) = (case bm_get (wal_live_chunks s) (e_object e) of
              Some n \<Rightarrow> (bm_insert (e_object e) (n - 1) (wal_live_chunks s), n - 1)
            | None \<Rightarrow> (wal_live_chunks s, 0))
        in if remaining = 0
           then s\<lparr>wal_live_chunks := bm_remove (e_object e) live,
                  retired := bm_insert (e_object e) (clock_ms s) (retired s)\<rparr>
           else s\<lparr>wal_live_chunks := live\<rparr>)
   | Segment \<Rightarrow> s\<lparr>retired := bm_insert (e_object e) (clock_ms s) (retired s)\<rparr>)"

fun release_entries :: "MetaState \<Rightarrow> IndexEntry list \<Rightarrow> MetaState" where
  "release_entries s [] = s"
| "release_entries s (e # es) = release_entries (release_entry s e) es"

definition partition_state :: "MetaState \<Rightarrow> StreamId \<Rightarrow> u32 \<Rightarrow> ApplyError + PartitionState" where
  "partition_state s stream part =
     (if \<not> bm_contains (streams s) stream then Inl (StreamNotFound stream)
      else ok_or (bm_get (partitions s) (stream, part)) (PartitionNotFound stream part))"

definition partition_state_mut :: "MetaState \<Rightarrow> StreamId \<Rightarrow> u32 \<Rightarrow> ApplyError + PartitionState" where
  "partition_state_mut s stream part =
     ok_or (bm_get (partitions s) (stream, part)) (PartitionNotFound stream part)"

definition put_partition :: "MetaState \<Rightarrow> StreamId \<Rightarrow> u32 \<Rightarrow> PartitionState \<Rightarrow> MetaState" where
  "put_partition s stream part st = s\<lparr>partitions := bm_insert (stream, part) st (partitions s)\<rparr>"

section \<open>The sequencer\<close>

definition validate_chunk :: "MetaState \<Rightarrow> WalChunk \<Rightarrow> ApplyError + unit" where
  "validate_chunk s c =
     (if \<not> bm_contains (streams s) (ch_stream c) then Inl (StreamNotFound (ch_stream c))
      else if \<not> bm_contains (partitions s) (ch_stream c, ch_partition c)
      then Inl (PartitionNotFound (ch_stream c) (ch_partition c))
      else if ch_records c = 0
      then Inl (InvalidArgument (Fmt ''a WAL chunk needs at least one record'' []))
      else if br_end (ch_byte_range c) \<le> br_start (ch_byte_range c)
      then Inl (InvalidArgument (Fmt ''a WAL chunk needs a non-empty byte range, got {:?}''
                 [FRange (br_start (ch_byte_range c)) (br_end (ch_byte_range c))]))
      else Inr ())"

definition chunk_entry :: "string \<Rightarrow> u64 \<Rightarrow> WalChunk \<Rightarrow> IndexEntry" where
  "chunk_entry object base c = \<lparr>e_kind = Wal, e_base_offset = base, e_records = ch_records c,
     e_object = object, e_byte_range = ch_byte_range c, e_max_timestamp_ms = ch_max_timestamp_ms c\<rparr>"

text \<open>The second loop of \<open>commit_wal\<close>: one entry per chunk, at its partition's next offset.\<close>

fun commit_chunks :: "MetaState \<Rightarrow> string \<Rightarrow> WalChunk list \<Rightarrow> MetaState \<times> (ApplyError + u64 list)" where
  "commit_chunks s object [] = (s, Inr [])"
| "commit_chunks s object (c # cs) =
     (case bm_get (partitions s) (ch_stream c, ch_partition c) of
        None \<Rightarrow> (s, Inl (PartitionNotFound (ch_stream c) (ch_partition c)))
      | Some p \<Rightarrow>
          (let base = next_offset p;
               p' = insert_entry (p\<lparr>next_offset := wadd64 base (ch_records c)\<rparr>) (chunk_entry object base c)
           in case commit_chunks (put_partition s (ch_stream c) (ch_partition c) p') object cs of
                (s', Inl e) \<Rightarrow> (s', Inl e)
              | (s', Inr bases) \<Rightarrow> (s', Inr (base # bases))))"

definition commit_wal :: "MetaState \<Rightarrow> string \<Rightarrow> u64 \<Rightarrow> WalChunk list \<Rightarrow> outcome" where
  "commit_wal s object created_at chunks =
     attempt s (validate_key ''WAL object path'' object) (\<lambda>_.
     case bm_get (wal_commits s) object of
       Some record \<Rightarrow> (s, Inr (WalCommitted (w_base_offsets record)))
     | None \<Rightarrow>
         if sat_add64 created_at WAL_COMMIT_WINDOW_MS < clock_ms s then (s, Inl (StaleCommit object))
         else if chunks = []
         then (s, Inl (InvalidArgument (Fmt ''a WAL commit needs at least one chunk'' [])))
         else
           attempt s (ok_or (try_from_u32 (length chunks))
              (InvalidArgument (Fmt ''too many chunks: {}'' [FNat (length chunks)]))) (\<lambda>live.
           attempt s (check_all (validate_chunk s) chunks) (\<lambda>_.
           case commit_chunks s object chunks of
             (s1, Inl e) \<Rightarrow> (s1, Inl e)
           | (s1, Inr bases) \<Rightarrow>
               (s1\<lparr>wal_live_chunks := bm_insert object live (wal_live_chunks s1),
                   wal_commits := bm_insert object
                     \<lparr>w_base_offsets = bases, w_created_at_ms = created_at\<rparr> (wal_commits s1)\<rparr>,
                Inr (WalCommitted bases)))))"

definition wal_commit :: "MetaState \<Rightarrow> string \<Rightarrow> WalCommitRecord option" where
  "wal_commit s object = bm_get (wal_commits s) object"

section \<open>Segment swaps and trims\<close>

text \<open>The check of the replaced entries, with the base expected next and the records so far.\<close>

fun check_replaces ::
  "PartitionState \<Rightarrow> ApplyError \<Rightarrow> (u64 \<times> string) list \<Rightarrow> u64 \<Rightarrow> u32 \<Rightarrow> ApplyError + u32" where
  "check_replaces st mismatch [] expected_base records = Inr records"
| "check_replaces st mismatch ((base, object) # rs) expected_base records =
     check (ok_or (bm_get (index st) base) mismatch) (\<lambda>e.
     if base \<noteq> expected_base \<or> e_kind e \<noteq> Wal \<or> e_object e \<noteq> object then Inl mismatch
     else check (ok_or (checked_add32 records (e_records e))
            (InvalidArgument (Fmt ''a segment holds at most u32::MAX records'' []))) (\<lambda>records'.
     check_replaces st mismatch rs (end_offset e) records'))"

definition swap_segment ::
  "MetaState \<Rightarrow> StreamId \<Rightarrow> u32 \<Rightarrow> (u64 \<times> string) list \<Rightarrow> string \<Rightarrow> byte_range \<Rightarrow> i64
     \<Rightarrow> Fence option \<Rightarrow> u64 \<Rightarrow> Freshness \<Rightarrow> outcome" where
  "swap_segment s stream part replaces segment rng max_ts fence now_ms fresh =
     attempt s (validate_key ''segment path'' segment) (\<lambda>_.
     attempt s (partition_state s stream part) (\<lambda>st.
     case replaces of
       [] \<Rightarrow> (s, Inl (InvalidArgument (Fmt ''a segment swap must replace at least one entry'' [])))
     | (first_base, _) # _ \<Rightarrow>
         if (case bm_get (index st) first_base of
               Some e \<Rightarrow> e_kind e = Segment \<and> e_object e = segment | None \<Rightarrow> False)
         then (s, Inr SegmentSwapped)
         else
           attempt s (check_fence_opt s fence) (\<lambda>_.
           if br_end rng \<le> br_start rng
           then (s, Inl (InvalidArgument (Fmt ''a segment needs a non-empty byte range, got {:?}''
                   [FRange (br_start rng) (br_end rng)])))
           else let clock = max (clock_ms s) now_ms in
           if expired_at fresh clock
           then (s, Inl (StaleObject segment (fr_created_at_ms fresh) (fr_max_age_ms fresh) clock))
           else
             attempt s (check_replaces st (IndexMismatch stream part) replaces first_base 0) (\<lambda>records.
             let s1 = s\<lparr>clock_ms := max (clock_ms s) now_ms\<rparr> in
             attempt s1 (partition_state_mut s1 stream part) (\<lambda>st1.
             let (st2, removed) = remove_entries st1 (map fst replaces);
                 st3 = insert_entry st2 \<lparr>e_kind = Segment, e_base_offset = first_base,
                          e_records = records, e_object = segment, e_byte_range = rng,
                          e_max_timestamp_ms = max_ts\<rparr>
             in (release_entries (put_partition s1 stream part st3) removed, Inr SegmentSwapped))))))"

definition trim_partition ::
  "MetaState \<Rightarrow> StreamId \<Rightarrow> u32 \<Rightarrow> u64 \<Rightarrow> Fence option \<Rightarrow> u64 \<Rightarrow> outcome" where
  "trim_partition s stream part before_offset fence now_ms =
     attempt s (partition_state s stream part) (\<lambda>_.
     attempt s (check_fence_opt s fence) (\<lambda>_.
     let s1 = s\<lparr>clock_ms := max (clock_ms s) now_ms\<rparr> in
     attempt s1 (partition_state_mut s1 stream part) (\<lambda>st.
     let before = min before_offset (next_offset st);
         (st1, removed) = pop_all_before st before;
         st2 = st1\<lparr>log_start_offset := max (log_start_offset st1) before\<rparr>
     in (release_entries (put_partition s1 stream part st2) removed,
         Inr (Trimmed (log_start_offset st2))))))"

section \<open>Retention and pruning\<close>

definition set_retention :: "MetaState \<Rightarrow> StreamId \<Rightarrow> Retention \<Rightarrow> outcome" where
  "set_retention s stream retention =
     attempt s (ok_or (bm_get (streams s) stream) (StreamNotFound stream)) (\<lambda>st.
     if prefix ''_'' (s_name st)
     then (s, Inl (InvalidArgument (Fmt ''stream {} belongs to a collection; its retention cannot be set''
             [FNat (stream_u64 (s_id st))])))
     else (s\<lparr>streams := bm_insert stream (st\<lparr>s_retention := retention\<rparr>) (streams s)\<rparr>, Inr RetentionSet))"

text \<open>\<open>u32::try_from(n).unwrap_or(u32::MAX)\<close>\<close>

definition u32_or_max :: "nat \<Rightarrow> u32" where
  "u32_or_max n = (case try_from_u32 n of Some m \<Rightarrow> m | None \<Rightarrow> U32_MAX)"

definition prune_wal_commits :: "MetaState \<Rightarrow> Fence option \<Rightarrow> u64 \<Rightarrow> outcome" where
  "prune_wal_commits s fence now_ms =
     attempt s (check_fence_opt s fence) (\<lambda>_.
     let clock = max (clock_ms s) now_ms;
         kept = bm_retain (\<lambda>_ r. clock \<le> sat_add64 (w_created_at_ms r) (2 * WAL_COMMIT_WINDOW_MS)) (wal_commits s)
     in (s\<lparr>clock_ms := clock, wal_commits := kept\<rparr>,
         Inr (Pruned (u32_or_max (bm_len (wal_commits s) - bm_len kept)))))"

text \<open>The loop of \<open>forget_objects\<close>.\<close>

fun forget_each :: "(string, u64) btree_map \<Rightarrow> string list \<Rightarrow> u32 \<Rightarrow> (string, u64) btree_map \<times> u32" where
  "forget_each ret [] removed = (ret, removed)"
| "forget_each ret (obj # objs) removed =
     (if bm_contains ret obj then forget_each (bm_remove obj ret) objs (sat_add32 removed 1)
      else forget_each ret objs removed)"

definition forget_objects :: "MetaState \<Rightarrow> string list \<Rightarrow> Fence option \<Rightarrow> outcome" where
  "forget_objects s objects fence =
     attempt s (check_fence_opt s fence) (\<lambda>_.
     let (ret, removed) = forget_each (retired s) objects 0
     in (s\<lparr>retired := ret\<rparr>, Inr (Forgotten removed)))"

definition live_chunks_of :: "MetaState \<Rightarrow> string \<Rightarrow> u32 option" where
  "live_chunks_of s object = bm_get (wal_live_chunks s) object"

definition is_retired :: "MetaState \<Rightarrow> string \<Rightarrow> bool" where
  "is_retired s path = bm_contains (retired s) path"

lemmas log_op_defs = commit_wal_def swap_segment_def trim_partition_def set_retention_def
  prune_wal_commits_def forget_objects_def

declare log_op_defs [state_simps]

section \<open>Frames\<close>

lemma release_entry_frame [simp]:
  "clock_ms (release_entry s e) = clock_ms s"
  "last_namespace_id (release_entry s e) = last_namespace_id s"
  "last_stream_id (release_entry s e) = last_stream_id s"
  "namespaces (release_entry s e) = namespaces s"
  "namespace_names (release_entry s e) = namespace_names s"
  "streams (release_entry s e) = streams s"
  "stream_names (release_entry s e) = stream_names s"
  "partitions (release_entry s e) = partitions s"
  "wal_commits (release_entry s e) = wal_commits s"
  "leases (release_entry s e) = leases s"
  "pointers (release_entry s e) = pointers s"
  "last_link_id (release_entry s e) = last_link_id s"
  "links (release_entry s e) = links s"
  "link_names (release_entry s e) = link_names s"
  "last_collection_id (release_entry s e) = last_collection_id s"
  "collections (release_entry s e) = collections s"
  "collection_names (release_entry s e) = collection_names s"
  "aliases (release_entry s e) = aliases s"
  "collection_hot (release_entry s e) = collection_hot s"
  "alias_targets (release_entry s e) = alias_targets s"
  "idempotency (release_entry s e) = idempotency s"
  by (simp_all add: release_entry_def Let_def split: EntryKind.splits option.splits prod.splits)

lemma release_entries_frame [simp]:
  "clock_ms (release_entries s es) = clock_ms s"
  "last_namespace_id (release_entries s es) = last_namespace_id s"
  "last_stream_id (release_entries s es) = last_stream_id s"
  "namespaces (release_entries s es) = namespaces s"
  "namespace_names (release_entries s es) = namespace_names s"
  "streams (release_entries s es) = streams s"
  "stream_names (release_entries s es) = stream_names s"
  "partitions (release_entries s es) = partitions s"
  "wal_commits (release_entries s es) = wal_commits s"
  "leases (release_entries s es) = leases s"
  "pointers (release_entries s es) = pointers s"
  "last_link_id (release_entries s es) = last_link_id s"
  "links (release_entries s es) = links s"
  "link_names (release_entries s es) = link_names s"
  "last_collection_id (release_entries s es) = last_collection_id s"
  "collections (release_entries s es) = collections s"
  "collection_names (release_entries s es) = collection_names s"
  "aliases (release_entries s es) = aliases s"
  "collection_hot (release_entries s es) = collection_hot s"
  "alias_targets (release_entries s es) = alias_targets s"
  "idempotency (release_entries s es) = idempotency s"
  by (induction es arbitrary: s) simp_all

lemma put_partition_frame [simp]:
  "clock_ms (put_partition s sid p st) = clock_ms s"
  "last_namespace_id (put_partition s sid p st) = last_namespace_id s"
  "last_stream_id (put_partition s sid p st) = last_stream_id s"
  "namespaces (put_partition s sid p st) = namespaces s"
  "namespace_names (put_partition s sid p st) = namespace_names s"
  "streams (put_partition s sid p st) = streams s"
  "stream_names (put_partition s sid p st) = stream_names s"
  "wal_commits (put_partition s sid p st) = wal_commits s"
  "wal_live_chunks (put_partition s sid p st) = wal_live_chunks s"
  "retired (put_partition s sid p st) = retired s"
  "leases (put_partition s sid p st) = leases s"
  "pointers (put_partition s sid p st) = pointers s"
  "last_link_id (put_partition s sid p st) = last_link_id s"
  "links (put_partition s sid p st) = links s"
  "link_names (put_partition s sid p st) = link_names s"
  "last_collection_id (put_partition s sid p st) = last_collection_id s"
  "collections (put_partition s sid p st) = collections s"
  "collection_names (put_partition s sid p st) = collection_names s"
  "aliases (put_partition s sid p st) = aliases s"
  "collection_hot (put_partition s sid p st) = collection_hot s"
  "alias_targets (put_partition s sid p st) = alias_targets s"
  "idempotency (put_partition s sid p st) = idempotency s"
  "partitions (put_partition s sid p st) = bm_insert (sid, p) st (partitions s)"
  by (simp_all add: put_partition_def)

lemma put_partition_update [simp]:
  "put_partition (s\<lparr>clock_ms := c\<rparr>) sid p st = (put_partition s sid p st)\<lparr>clock_ms := c\<rparr>"
  by (simp add: put_partition_def)

lemma commit_chunks_frame:
  "commit_chunks s obj cs = (s', r) \<Longrightarrow> s' = s\<lparr>partitions := partitions s'\<rparr>"
proof (induction s obj cs arbitrary: s' r rule: commit_chunks.induct)
  case (2 s obj c cs)
  then show ?case
    by (fastforce simp: Let_def put_partition_def split: option.splits prod.splits sum.splits)
qed simp

lemma partition_state_Inr [simp]:
  "partition_state s sid p = Inr st \<longleftrightarrow> sid \<in> dom (bm_get (streams s)) \<and> bm_get (partitions s) (sid, p) = Some st"
  by (auto simp: partition_state_def)

lemma partition_state_mut_Inr [simp]:
  "partition_state_mut s sid p = Inr st \<longleftrightarrow> bm_get (partitions s) (sid, p) = Some st"
  by (auto simp: partition_state_mut_def)

lemma partition_state_mut_Inl [simp]:
  "partition_state_mut s sid p = Inl e \<longleftrightarrow> bm_get (partitions s) (sid, p) = None \<and> e = PartitionNotFound sid p"
  by (auto simp: partition_state_mut_def)

lemma validate_chunk_Inr [simp]:
  "validate_chunk s c = Inr u \<longleftrightarrow>
     ch_stream c \<in> dom (bm_get (streams s)) \<and> (ch_stream c, ch_partition c) \<in> dom (bm_get (partitions s))
     \<and> 0 < ch_records c \<and> br_start (ch_byte_range c) < br_end (ch_byte_range c)"
  by (auto simp: validate_chunk_def)

text \<open>A commit whose chunks were all checked does not fail part way.\<close>

lemma commit_chunks_ok:
  "\<forall>c \<in> set cs. (ch_stream c, ch_partition c) \<in> dom (bm_get (partitions s)) \<Longrightarrow>
     \<exists>s' bases. commit_chunks s obj cs = (s', Inr bases) \<and> length bases = length cs
       \<and> dom (bm_get (partitions s')) = dom (bm_get (partitions s))"
proof (induction s obj cs rule: commit_chunks.induct)
  case (2 s obj c cs)
  then obtain p where p: "bm_get (partitions s) (ch_stream c, ch_partition c) = Some p" by auto
  let ?p = "insert_entry (p\<lparr>next_offset := wadd64 (next_offset p) (ch_records c)\<rparr>) (chunk_entry obj (next_offset p) c)"
  have "\<exists>s' bases. commit_chunks (put_partition s (ch_stream c) (ch_partition c) ?p) obj cs = (s', Inr bases)
    \<and> length bases = length cs \<and> dom (bm_get (partitions s'))
      = dom (bm_get (partitions (put_partition s (ch_stream c) (ch_partition c) ?p)))"
    using 2 p by (intro "2.IH" [OF p refl refl]) auto
  then show ?case using p by (auto simp: Let_def)
qed simp

section \<open>What each operation does\<close>

lemma commit_wal_cases:
  assumes "commit_wal s obj t cs = (s', r)"
  obtains (error) e where "s' = s" "r = Inl e"
  | (retry) wr where "s' = s" "bm_get (wal_commits s) obj = Some wr"
      "r = Inr (WalCommitted (w_base_offsets wr))"
  | (committed) s1 bases where "bm_get (wal_commits s) obj = None"
      "clock_ms s \<le> sat_add64 t WAL_COMMIT_WINDOW_MS" "cs \<noteq> []" "length cs \<le> U32_MAX"
      "\<forall>c \<in> set cs. validate_chunk s c = Inr ()"
      "commit_chunks s obj cs = (s1, Inr bases)" "length bases = length cs" "r = Inr (WalCommitted bases)"
      "s' = s\<lparr>partitions := partitions s1, wal_live_chunks := bm_insert obj (length cs) (wal_live_chunks s),
         wal_commits := bm_insert obj \<lparr>w_base_offsets = bases, w_created_at_ms = t\<rparr> (wal_commits s)\<rparr>"
proof (cases "bm_get (wal_commits s) obj")
  case (Some wr)
  then show ?thesis using assms error retry
    by (auto simp: commit_wal_def elim!: attemptE)
next
  case None
  consider e where "s' = s" "r = Inl e"
    | (ok) "clock_ms s \<le> sat_add64 t WAL_COMMIT_WINDOW_MS" "cs \<noteq> []" "length cs \<le> U32_MAX"
        "check_all (validate_chunk s) cs = Inr ()"
        "(case commit_chunks s obj cs of (s1, Inl e) \<Rightarrow> (s1, Inl e)
          | (s1, Inr bases) \<Rightarrow>
             (s1\<lparr>wal_live_chunks := bm_insert obj (length cs) (wal_live_chunks s1),
                 wal_commits := bm_insert obj \<lparr>w_base_offsets = bases, w_created_at_ms = t\<rparr> (wal_commits s1)\<rparr>,
              Inr (WalCommitted bases))) = (s', r)"
    using assms None by (auto simp: commit_wal_def elim!: attemptE split: if_splits)
  then show ?thesis
  proof cases
    case ok
    have v: "\<forall>c \<in> set cs. validate_chunk s c = Inr ()" using ok(4) by (simp add: check_all_Inr)
    then obtain s1 bases where c: "commit_chunks s obj cs = (s1, Inr bases)" "length bases = length cs"
      using commit_chunks_ok [of cs s obj] by auto
    obtain m where "s1 = s\<lparr>partitions := m\<rparr>" using commit_chunks_frame [OF c(1)] by blast
    then show ?thesis using committed [OF None ok(1-3) v c] ok(5) c by simp
  qed (rule error)
qed

lemma swap_segment_cases:
  assumes "swap_segment s sid p rs seg rng ts f now fr = (s', r)"
  obtains (error) e where "s' = s" "r = Inl e"
  | (retry) st b obj rs' e where "s' = s" "r = Inr SegmentSwapped" "rs = (b, obj) # rs'"
      "sid \<in> dom (bm_get (streams s))" "bm_get (partitions s) (sid, p) = Some st"
      "bm_get (index st) b = Some e" "e_kind e = Segment" "e_object e = seg"
  | (swapped) st b obj rs' records st2 removed where
      "r = Inr SegmentSwapped" "rs = (b, obj) # rs'"
      "sid \<in> dom (bm_get (streams s))" "bm_get (partitions s) (sid, p) = Some st"
      "check_fence_opt s f = Inr ()" "br_start rng < br_end rng"
      "\<not> expired_at fr (max (clock_ms s) now)"
      "check_replaces st (IndexMismatch sid p) rs b 0 = Inr records"
      "remove_entries st (map fst rs) = (st2, removed)"
      "s' = release_entries (put_partition (s\<lparr>clock_ms := max (clock_ms s) now\<rparr>) sid p
         (insert_entry st2 \<lparr>e_kind = Segment, e_base_offset = b, e_records = records, e_object = seg,
            e_byte_range = rng, e_max_timestamp_ms = ts\<rparr>)) removed"
proof (cases r)
  case (Inl e)
  have "s' = s" using assms unfolding swap_segment_def Let_def Inl
    by (elim attemptE; auto split: list.split_asm prod.split_asm if_split_asm elim!: attemptE)
  then show ?thesis using Inl by (rule error)
next
  case (Inr y)
  have eq: "swap_segment s sid p rs seg rng ts f now fr = (s', Inr y)" using assms Inr by simp
  then obtain b obj rs' where rs: "rs = (b, obj) # rs'"
    by (cases rs) (auto simp: swap_segment_def attempt_eq_Inr)
  obtain st where st: "sid \<in> dom (bm_get (streams s))" "bm_get (partitions s) (sid, p) = Some st"
    using eq unfolding swap_segment_def attempt_eq_Inr partition_state_Inr by blast
  let ?is_retry = "case bm_get (index st) b of Some e \<Rightarrow> e_kind e = Segment \<and> e_object e = seg | None \<Rightarrow> False"
  show ?thesis
  proof (cases ?is_retry)
    case True
    then have "s' = s" "y = SegmentSwapped"
      using eq st rs by (simp_all add: swap_segment_def attempt_eq_Inr)
    then show ?thesis using retry rs st True Inr by (auto split: option.splits)
  next
    case False
    obtain st2 removed where rem: "remove_entries st (map fst rs) = (st2, removed)" by fastforce
    from eq st False rs rem have "\<exists>records. check_replaces st (IndexMismatch sid p) rs b 0 = Inr records
      \<and> check_fence_opt s f = Inr () \<and> br_start rng < br_end rng
      \<and> \<not> expired_at fr (max (clock_ms s) now) \<and> y = SegmentSwapped
      \<and> s' = release_entries (put_partition (s\<lparr>clock_ms := max (clock_ms s) now\<rparr>) sid p
         (insert_entry st2 \<lparr>e_kind = Segment, e_base_offset = b, e_records = records, e_object = seg,
            e_byte_range = rng, e_max_timestamp_ms = ts\<rparr>)) removed"
      by (auto simp: swap_segment_def attempt_eq_Inr Let_def not_le
          simp del: check_replaces.simps remove_entries.simps list.map split: if_splits)
    then show ?thesis using swapped rs st rem Inr by blast
  qed
qed
lemma trim_partition_cases:
  assumes "trim_partition s sid p off f now = (s', r)"
  obtains (error) e where "s' = s" "r = Inl e"
  | (trimmed) st st1 removed where
      "sid \<in> dom (bm_get (streams s))" "bm_get (partitions s) (sid, p) = Some st"
      "check_fence_opt s f = Inr ()"
      "pop_all_before st (min off (next_offset st)) = (st1, removed)"
      "r = Inr (Trimmed (max (log_start_offset st1) (min off (next_offset st))))"
      "s' = release_entries (put_partition (s\<lparr>clock_ms := max (clock_ms s) now\<rparr>) sid p
         (st1\<lparr>log_start_offset := max (log_start_offset st1) (min off (next_offset st))\<rparr>)) removed"
proof (cases r)
  case (Inl e)
  have "s' = s" using assms unfolding trim_partition_def Let_def Inl
    by (elim attemptE) (auto split: prod.split_asm elim!: attemptE)
  then show ?thesis using Inl by (rule error)
next
  case (Inr y)
  obtain st where st: "sid \<in> dom (bm_get (streams s))" "bm_get (partitions s) (sid, p) = Some st"
    using assms unfolding Inr trim_partition_def attempt_eq_Inr partition_state_Inr by blast
  obtain st1 removed where pop: "pop_all_before st (min off (next_offset st)) = (st1, removed)" by fastforce
  show ?thesis
    by (rule trimmed [OF st _ pop])
      (use assms st pop Inr in \<open>auto simp: trim_partition_def attempt_eq_Inr Let_def\<close>)
qed

section \<open>Errors and the clock\<close>

lemma commit_wal_error [op_errors]: "commit_wal s obj t cs = (s', Inl e) \<Longrightarrow> s' = s"
  by (erule commit_wal_cases) auto

lemma swap_segment_error [op_errors]: "swap_segment s sid p rs seg rng ts f now fr = (s', Inl e) \<Longrightarrow> s' = s"
  by (erule swap_segment_cases) auto

lemma trim_partition_error [op_errors]: "trim_partition s sid p off f now = (s', Inl e) \<Longrightarrow> s' = s"
  by (erule trim_partition_cases) auto

lemma set_retention_error [op_errors]: "set_retention s sid rt = (s', Inl e) \<Longrightarrow> s' = s"
  by (auto simp: set_retention_def split: attempt_splits if_splits)

lemma prune_wal_commits_error [op_errors]: "prune_wal_commits s f now = (s', Inl e) \<Longrightarrow> s' = s"
  by (auto simp: prune_wal_commits_def Let_def split: attempt_splits)

lemma forget_objects_error [op_errors]: "forget_objects s objs f = (s', Inl e) \<Longrightarrow> s' = s"
  by (auto simp: forget_objects_def split: attempt_splits prod.splits)

lemma commit_wal_clock [op_clock]: "commit_wal s obj t cs = (s', r) \<Longrightarrow> clock_ms s \<le> clock_ms s'"
  by (erule commit_wal_cases) simp_all

lemma swap_segment_clock [op_clock]: "swap_segment s sid p rs seg rng ts f now fr = (s', r) \<Longrightarrow> clock_ms s \<le> clock_ms s'"
  by (erule swap_segment_cases) simp_all

lemma trim_partition_clock [op_clock]: "trim_partition s sid p off f now = (s', r) \<Longrightarrow> clock_ms s \<le> clock_ms s'"
  by (erule trim_partition_cases) simp_all

lemma set_retention_clock [op_clock]: "set_retention s sid rt = (s', r) \<Longrightarrow> clock_ms s \<le> clock_ms s'"
  by (auto simp: set_retention_def split: attempt_splits if_splits)

lemma prune_wal_commits_clock [op_clock]: "prune_wal_commits s f now = (s', r) \<Longrightarrow> clock_ms s \<le> clock_ms s'"
  by (auto simp: prune_wal_commits_def Let_def split: attempt_splits)

lemma forget_objects_clock [op_clock]: "forget_objects s objs f = (s', r) \<Longrightarrow> clock_ms s \<le> clock_ms s'"
  by (auto simp: forget_objects_def split: attempt_splits prod.splits)

section \<open>Fences\<close>

interpretation swap: fenced_op "\<lambda>s f. swap_segment s sid p rs seg rng ts f now fr"
  for sid p rs seg rng ts now fr
proof unfold_locales
  fix s f e assume fence: "check_fence s f = Inl e"
  obtain s' r where eq: "swap_segment s sid p rs seg rng ts (Some f) now fr = (s', r)" by fastforce
  then have "s' = s" by (rule swap_segment_cases) (use fence in \<open>auto simp: check_fence_opt_def\<close>)
  then show "fst (swap_segment s sid p rs seg rng ts (Some f) now fr) = s" using eq by simp
qed

interpretation trim: fenced_op "\<lambda>s f. trim_partition s sid p off f now" for sid p off now
  by unfold_locales (auto simp: trim_partition_def check_fence_opt_def split: attempt_splits)

interpretation prune: fenced_op "\<lambda>s f. prune_wal_commits s f now" for now
  by unfold_locales (auto simp: prune_wal_commits_def check_fence_opt_def)

interpretation forget: fenced_op "\<lambda>s f. forget_objects s objs f" for objs
  by unfold_locales (auto simp: forget_objects_def check_fence_opt_def)

end
