(* ===== verification/Objects.thy ===== *)
theory Objects
  imports Log
begin

text \<open>
  The index entries of all partitions and the objects they point into: the paths of WAL
  objects and segments (\<open>loams-log/src/paths.rs\<close>), how often an object is referenced, and
  the invariant that live counts and retired objects agree with the index, kept by
  commits, swaps, trims and the removal of a stream.
\<close>

section \<open>Paths\<close>

fun class_name :: "WalClass \<Rightarrow> string" where
  "class_name Standard = ''standard''"
| "class_name Express = ''express''"
| "class_name Quorum = ''quorum''"

text \<open>The ULID is its text, from the \<open>ulid\<close> crate.\<close>

definition wal_object :: "WalClass \<Rightarrow> u64 \<Rightarrow> string \<Rightarrow> string" where
  "wal_object class node ulid = ''wal/'' @ class_name class @ ''/'' @ show_nat node @ ''/'' @ ulid @ ''.wal''"

text \<open>\<open>{:020}\<close>: at least twenty digits, padded with zeros.\<close>

definition pad20 :: "string \<Rightarrow> string" where
  "pad20 s = replicate (20 - length s) (CHR ''0'') @ s"

definition segment :: "NamespaceId \<Rightarrow> StreamId \<Rightarrow> u32 \<Rightarrow> u64 \<Rightarrow> string \<Rightarrow> string" where
  "segment ns sid p base ulid = ''ns/'' @ show_nat (ns_u64 ns) @ ''/streams/'' @ show_nat (stream_u64 sid)
     @ ''/'' @ show_nat p @ ''/'' @ pad20 (show_nat base) @ ''-'' @ ulid @ ''.seg''"

definition is_wal_path :: "string \<Rightarrow> bool" where
  "is_wal_path obj \<longleftrightarrow> prefix ''wal/'' obj"

definition is_segment_path :: "string \<Rightarrow> bool" where
  "is_segment_path obj \<longleftrightarrow> prefix ''ns/'' obj \<and> suffix ''.seg'' obj"

lemma is_wal_path_wal_object [simp]: "is_wal_path (wal_object class node ulid)"
  by (simp add: is_wal_path_def wal_object_def)

lemma is_segment_path_segment [simp]: "is_segment_path (segment ns sid p base ulid)"
  unfolding is_segment_path_def segment_def append_assoc [symmetric] by (simp add: suffix_def)

lemma paths_disjoint: "is_wal_path obj \<Longrightarrow> is_segment_path obj \<Longrightarrow> False"
  by (auto simp: is_wal_path_def is_segment_path_def prefix_def)

lemma collection_prefix_path [simp]:
  "\<not> is_wal_path (collection_prefix ns cid)" "\<not> is_segment_path (collection_prefix ns cid)"
  "\<not> is_wal_path (collection_pk_prefix ns cid)" "\<not> is_segment_path (collection_pk_prefix ns cid)"
proof -
  have "\<not> suffix ''.seg'' (xs @ ''/'')" for xs by (simp add: suffix_def)
  then show "\<not> is_segment_path (collection_prefix ns cid)" "\<not> is_segment_path (collection_pk_prefix ns cid)"
    unfolding is_segment_path_def collection_prefix_def collection_pk_prefix_def append_assoc [symmetric] by blast+
qed (auto simp: is_wal_path_def collection_prefix_def collection_pk_prefix_def)

section \<open>References\<close>

definition entry_count :: "IndexEntry list \<Rightarrow> EntryKind \<Rightarrow> string \<Rightarrow> nat" where
  "entry_count es k obj = length (filter (\<lambda>e. e_kind e = k \<and> e_object e = obj) es)"

definition ref_count :: "MetaState \<Rightarrow> EntryKind \<Rightarrow> string \<Rightarrow> nat" where
  "ref_count s k obj = sum_list (map (\<lambda>x. entry_count (entries (snd x)) k obj) (bm_iter (partitions s)))"

lemma entry_count_simps [simp]:
  "entry_count [] k obj = 0"
  "entry_count (e # es) k obj = (if e_kind e = k \<and> e_object e = obj then 1 else 0) + entry_count es k obj"
  "entry_count (es @ es') k obj = entry_count es k obj + entry_count es' k obj"
  by (simp_all add: entry_count_def)

lemma entry_count_pos: "0 < entry_count es k obj \<longleftrightarrow> (\<exists>e \<in> set es. e_kind e = k \<and> e_object e = obj)"
  by (induction es) auto

lemma ref_count_frame: "partitions s' = partitions s \<Longrightarrow> ref_count s' = ref_count s"
  by (intro ext) (simp add: ref_count_def)

lemma ref_count_put:
  assumes "bm_get (partitions s) (sid, p) = Some st" "partitions s' = bm_insert (sid, p) st' (partitions s)"
  shows "ref_count s' k obj + entry_count (entries st) k obj = ref_count s k obj + entry_count (entries st') k obj"
  using bm_insert_sum [of "\<lambda>x. entry_count (entries (snd x)) k obj" "(sid, p)" st' "partitions s"] assms
  by (simp add: ref_count_def)

lemma ref_count_remove:
  assumes "bm_get (partitions s) (sid, p) = Some st" "partitions s' = bm_remove (sid, p) (partitions s)"
  shows "ref_count s' k obj + entry_count (entries st) k obj = ref_count s k obj"
  using bm_remove_sum [OF assms(1), of "\<lambda>x. entry_count (entries (snd x)) k obj"] assms(2)
  by (simp add: ref_count_def)

lemma ref_count_pos:
  "0 < ref_count s k obj \<longleftrightarrow>
     (\<exists>key st b e. bm_get (partitions s) key = Some st \<and> bm_get (index st) b = Some e
        \<and> e_kind e = k \<and> e_object e = obj)"
proof -
  have "0 < ref_count s k obj \<longleftrightarrow> (\<exists>x \<in> set (bm_iter (partitions s)). 0 < entry_count (entries (snd x)) k obj)"
    by (induction "bm_iter (partitions s)") (auto simp: ref_count_def sum_list_eq_0_iff neq0_conv [symmetric] simp del: neq0_conv)
  also have "\<dots> \<longleftrightarrow> (\<exists>key st. bm_get (partitions s) key = Some st \<and> 0 < entry_count (entries st) k obj)"
    by (force simp: bm_iter_get [symmetric])
  finally show ?thesis unfolding entry_count_pos entries_def set_bm_values ran_def by blast
qed

section \<open>The invariant\<close>

text \<open>
  \<open>ct\<close> is the creation time a path carries in its ULID. \<open>rc\<close> counts references: the index
  entries, and the entries taken out of the index that are still to be released.
\<close>

definition obj_ok ::
  "(string \<Rightarrow> u64) \<Rightarrow> (EntryKind \<Rightarrow> string \<Rightarrow> nat) \<Rightarrow> (string, u32) btree_map \<Rightarrow> (string, u64) btree_map
     \<Rightarrow> (string, WalCommitRecord) btree_map \<Rightarrow> u64 \<Rightarrow> bool" where
  "obj_ok ct rc live ret commits clock \<longleftrightarrow>
     (\<forall>obj. bm_get live obj = (if rc Wal obj = 0 then None else Some (rc Wal obj)))
     \<and> (\<forall>obj. rc Segment obj \<le> 1)
     \<and> (\<forall>obj. 0 < rc Wal obj \<longrightarrow> is_wal_path obj)
     \<and> (\<forall>obj. 0 < rc Segment obj \<longrightarrow> is_segment_path obj)
     \<and> (\<forall>obj t k. bm_get ret obj = Some t \<longrightarrow> rc k obj = 0)
     \<and> (\<forall>obj. is_wal_path obj \<longrightarrow> bm_get live obj \<noteq> None \<or> bm_get ret obj \<noteq> None \<longrightarrow> bm_get commits obj = None \<longrightarrow>
          sat_add64 (ct obj) (2 * WAL_COMMIT_WINDOW_MS) < clock)
     \<and> (\<forall>obj r. bm_get commits obj = Some r \<longrightarrow> is_wal_path obj \<and> w_created_at_ms r = ct obj)"

definition obj_inv :: "(string \<Rightarrow> u64) \<Rightarrow> MetaState \<Rightarrow> IndexEntry list \<Rightarrow> bool" where
  "obj_inv ct s es \<longleftrightarrow> obj_ok ct (\<lambda>k obj. ref_count s k obj + entry_count es k obj)
     (wal_live_chunks s) (retired s) (wal_commits s) (clock_ms s)"

lemma obj_okI:
  assumes "\<And>obj. bm_get live obj = (if rc Wal obj = 0 then None else Some (rc Wal obj))"
    "\<And>obj. rc Segment obj \<le> 1"
    "\<And>obj. 0 < rc Wal obj \<Longrightarrow> is_wal_path obj"
    "\<And>obj. 0 < rc Segment obj \<Longrightarrow> is_segment_path obj"
    "\<And>obj t k. bm_get ret obj = Some t \<Longrightarrow> rc k obj = 0"
    "\<And>obj. is_wal_path obj \<Longrightarrow> bm_get live obj \<noteq> None \<or> bm_get ret obj \<noteq> None \<Longrightarrow> bm_get commits obj = None \<Longrightarrow>
       sat_add64 (ct obj) (2 * WAL_COMMIT_WINDOW_MS) < clock"
    "\<And>obj r. bm_get commits obj = Some r \<Longrightarrow> is_wal_path obj \<and> w_created_at_ms r = ct obj"
  shows "obj_ok ct rc live ret commits clock"
  using assms unfolding obj_ok_def by blast

lemma obj_okD:
  assumes "obj_ok ct rc live ret commits clock"
  shows "bm_get live obj = (if rc Wal obj = 0 then None else Some (rc Wal obj))"
    "rc Segment obj \<le> 1"
    "0 < rc Wal obj \<Longrightarrow> is_wal_path obj"
    "0 < rc Segment obj \<Longrightarrow> is_segment_path obj"
    "bm_get ret obj = Some t \<Longrightarrow> rc k obj = 0"
    "is_wal_path obj \<Longrightarrow> bm_get live obj \<noteq> None \<or> bm_get ret obj \<noteq> None \<Longrightarrow> bm_get commits obj = None \<Longrightarrow>
       sat_add64 (ct obj) (2 * WAL_COMMIT_WINDOW_MS) < clock"
    "bm_get commits obj = Some r \<Longrightarrow> is_wal_path obj \<and> w_created_at_ms r = ct obj"
  using assms unfolding obj_ok_def by blast+

lemma obj_ok_clock:
  assumes ok: "obj_ok ct rc live ret commits clock" and le: "clock \<le> clock'"
  shows "obj_ok ct rc live ret commits clock'"
  by (intro obj_okI less_le_trans [OF _ le]) (fact obj_okD [OF ok])+

lemma obj_inv_frame:
  assumes "obj_inv ct s es" "clock_ms s \<le> clock_ms s'" "partitions s' = partitions s"
    "wal_live_chunks s' = wal_live_chunks s" "retired s' = retired s" "wal_commits s' = wal_commits s"
  shows "obj_inv ct s' es"
  using assms obj_ok_clock by (simp add: obj_inv_def ref_count_frame [OF assms(3)])

lemma obj_ok_wal_only:
  assumes ok: "obj_ok ct rc live ret commits clock" and "is_wal_path obj"
  shows "rc Segment obj = 0"
  using obj_okD(4) [OF ok, of obj] paths_disjoint [OF assms(2)] by (cases "rc Segment obj") auto

lemma obj_ok_segment_only:
  assumes ok: "obj_ok ct rc live ret commits clock" and "is_segment_path obj"
  shows "rc Wal obj = 0"
  using obj_okD(3) [OF ok, of obj] paths_disjoint [OF _ assms(2)] by (cases "rc Wal obj") auto

lemma obj_ok_release_wal:
  assumes ok: "obj_ok ct rc live ret commits clock" and pos: "0 < rc Wal obj"
    and rc': "\<And>k o'. rc' k o' = rc k o' - (if k = Wal \<and> o' = obj then 1 else 0)"
  shows "obj_ok ct rc'
    (if rc Wal obj = 1 then bm_remove obj live else bm_insert obj (rc Wal obj - 1) live)
    (if rc Wal obj = 1 then bm_insert obj t ret else ret) commits clock"
proof -
  note D = obj_okD [OF ok]
  have wal: "is_wal_path obj" "rc Segment obj = 0" using D(3) pos obj_ok_wal_only [OF ok] by auto
  have zero: "rc' k obj = 0" if "rc Wal obj = 1" for k using that rc' wal(2) by (cases k) auto
  have le: "rc' k o' \<le> rc k o'" for k o' by (simp add: rc')
  have late: "sat_add64 (ct obj) (2 * WAL_COMMIT_WINDOW_MS) < clock" if "bm_get commits obj = None"
    using D(6) [OF wal(1)] D(1) [of obj] pos that by simp
  show ?thesis
  proof (rule obj_okI)
    fix o' t' k
    assume "bm_get (if rc Wal obj = 1 then bm_insert obj t ret else ret) o' = Some t'"
    then show "rc' k o' = 0" using D(5) [of o' t' k] zero le [of k o'] by (auto split: if_splits)
  next
    fix o'
    show "bm_get (if rc Wal obj = 1 then bm_remove obj live else bm_insert obj (rc Wal obj - 1) live) o'
      = (if rc' Wal o' = 0 then None else Some (rc' Wal o'))"
      using D(1) [of o'] pos by (auto simp: rc')
    show "rc' Segment o' \<le> 1" using D(2) [of o'] le [of Segment o'] by linarith
    show "is_wal_path o'" if "0 < rc' Wal o'" using D(3) [of o'] le [of Wal o'] that by linarith
    show "is_segment_path o'" if "0 < rc' Segment o'" using D(4) [of o'] le [of Segment o'] that by linarith
    assume "is_wal_path o'" "bm_get commits o' = None"
      "bm_get (if rc Wal obj = 1 then bm_remove obj live else bm_insert obj (rc Wal obj - 1) live) o' \<noteq> None
        \<or> bm_get (if rc Wal obj = 1 then bm_insert obj t ret else ret) o' \<noteq> None"
    then show "sat_add64 (ct o') (2 * WAL_COMMIT_WINDOW_MS) < clock"
      using D(6) [of o'] late by (cases "o' = obj") (auto split: if_splits)
  qed (rule D(7))
qed

lemma obj_ok_release_segment:
  assumes ok: "obj_ok ct rc live ret commits clock" and pos: "0 < rc Segment obj"
    and rc': "\<And>k o'. rc' k o' = rc k o' - (if k = Segment \<and> o' = obj then 1 else 0)"
  shows "obj_ok ct rc' live (bm_insert obj t ret) commits clock"
proof -
  note D = obj_okD [OF ok]
  have seg: "is_segment_path obj" "rc Segment obj = 1" using D(4) [of obj] D(2) [of obj] pos by simp_all
  have wal: "rc Wal obj = 0" "\<not> is_wal_path obj" using obj_ok_segment_only [OF ok seg(1)] paths_disjoint seg(1) by auto
  have zero: "rc' k obj = 0" for k using rc' wal(1) seg(2) by (cases k) auto
  have le: "rc' k o' \<le> rc k o'" for k o' by (simp add: rc')
  show ?thesis
  proof (rule obj_okI)
    fix o'
    show "bm_get live o' = (if rc' Wal o' = 0 then None else Some (rc' Wal o'))" using D(1) by (simp add: rc')
    show "rc' Segment o' \<le> 1" using D(2) [of o'] le [of Segment o'] by linarith
    show "is_wal_path o'" if "0 < rc' Wal o'" using D(3) [of o'] le [of Wal o'] that by linarith
    show "is_segment_path o'" if "0 < rc' Segment o'" using D(4) [of o'] le [of Segment o'] that by linarith
    show "rc' k o' = 0" if "bm_get (bm_insert obj t ret) o' = Some t'" for t' k
      using D(5) [of o' t' k] zero le [of k o'] that by (auto split: if_splits)
    assume "is_wal_path o'" "bm_get commits o' = None"
      "bm_get live o' \<noteq> None \<or> bm_get (bm_insert obj t ret) o' \<noteq> None"
    then show "sat_add64 (ct o') (2 * WAL_COMMIT_WINDOW_MS) < clock"
      using D(6) [of o'] wal(2) by (cases "o' = obj") auto
  qed (rule D(7))
qed

lemma release_entry_wal:
  assumes "e_kind e = Wal" "bm_get (wal_live_chunks s) (e_object e) = Some n" "0 < n"
  shows "wal_live_chunks (release_entry s e) = (if n = 1 then bm_remove (e_object e) (wal_live_chunks s)
      else bm_insert (e_object e) (n - 1) (wal_live_chunks s))"
    "retired (release_entry s e) = (if n = 1 then bm_insert (e_object e) (clock_ms s) (retired s) else retired s)"
proof -
  have "bm_remove k (bm_insert k v m) = bm_remove k m" for k v and m :: "(string, u32) btree_map"
    by (rule bm_eqI) simp
  then show "wal_live_chunks (release_entry s e) = (if n = 1 then bm_remove (e_object e) (wal_live_chunks s)
      else bm_insert (e_object e) (n - 1) (wal_live_chunks s))"
    "retired (release_entry s e) = (if n = 1 then bm_insert (e_object e) (clock_ms s) (retired s) else retired s)"
    using assms by (simp_all add: release_entry_def)
qed

lemma release_entry_obj:
  assumes "obj_inv ct s (e # es)"
  shows "obj_inv ct (release_entry s e) es"
proof -
  define rc where "rc = (\<lambda>k obj. ref_count s k obj + entry_count (e # es) k obj)"
  define rc' where "rc' = (\<lambda>k obj. ref_count s k obj + entry_count es k obj)"
  have ok: "obj_ok ct rc (wal_live_chunks s) (retired s) (wal_commits s) (clock_ms s)"
    using assms by (simp add: obj_inv_def rc_def)
  have goal: "obj_inv ct (release_entry s e) es \<longleftrightarrow> obj_ok ct rc'
    (wal_live_chunks (release_entry s e)) (retired (release_entry s e)) (wal_commits s) (clock_ms s)"
    by (simp add: obj_inv_def rc'_def ref_count_frame [of "release_entry s e" s])
  have pos: "0 < rc (e_kind e) (e_object e)" by (simp add: rc_def)
  have rc': "rc' k obj = rc k obj - (if k = e_kind e \<and> obj = e_object e then 1 else 0)" for k obj
    by (auto simp: rc_def rc'_def)
  show ?thesis
  proof (cases "e_kind e")
    case Wal
    have live: "bm_get (wal_live_chunks s) (e_object e) = Some (rc Wal (e_object e))"
      using obj_okD(1) [OF ok, of "e_object e"] pos Wal by simp
    show ?thesis unfolding goal release_entry_wal [OF Wal live pos [unfolded Wal]]
      by (rule obj_ok_release_wal [OF ok]) (use pos rc' Wal in simp_all)
  next
    case Segment
    then have "wal_live_chunks (release_entry s e) = wal_live_chunks s"
      "retired (release_entry s e) = bm_insert (e_object e) (clock_ms s) (retired s)"
      by (simp_all add: release_entry_def)
    then show ?thesis unfolding goal
      by (simp only:) (rule obj_ok_release_segment [OF ok], use pos rc' Segment in simp_all)
  qed
qed

lemma release_entries_obj: "obj_inv ct s es \<Longrightarrow> obj_inv ct (release_entries s es) []"
  by (induction es arbitrary: s) (auto dest: release_entry_obj)

text \<open>Entries leave the index: they wait to be released.\<close>

lemma obj_inv_moved:
  assumes "obj_inv ct s es" "clock_ms s \<le> clock_ms s'"
    "\<And>k obj. ref_count s' k obj + entry_count es' k obj = ref_count s k obj + entry_count es k obj"
    "wal_live_chunks s' = wal_live_chunks s" "retired s' = retired s" "wal_commits s' = wal_commits s"
  shows "obj_inv ct s' es'"
  using assms obj_ok_clock by (simp add: obj_inv_def)

text \<open>A new segment is indexed.\<close>

lemma obj_inv_segment:
  assumes inv: "obj_inv ct s []" and clock: "clock_ms s \<le> clock_ms s'"
    and rc: "\<And>k obj. ref_count s' k obj + entry_count es k obj
      = ref_count s k obj + (if k = Segment \<and> obj = seg then 1 else 0)"
    and same: "wal_live_chunks s' = wal_live_chunks s" "retired s' = retired s" "wal_commits s' = wal_commits s"
    and fresh: "is_segment_path seg" "ref_count s Segment seg = 0" "bm_get (retired s) seg = None"
  shows "obj_inv ct s' es"
proof -
  have ok: "obj_ok ct (ref_count s) (wal_live_chunks s) (retired s) (wal_commits s) (clock_ms s)"
    using inv by (simp add: obj_inv_def)
  note D = obj_okD [OF ok]
  have "obj_ok ct (\<lambda>k obj. ref_count s k obj + (if k = Segment \<and> obj = seg then 1 else 0))
     (wal_live_chunks s) (retired s) (wal_commits s) (clock_ms s)"
  proof (rule obj_okI)
    fix obj
    show "ref_count s k obj + (if k = Segment \<and> obj = seg then 1 else 0) = 0"
      if "bm_get (retired s) obj = Some t" for t k
      using D(5) [OF that, of k] fresh(3) that by auto
    show "is_segment_path obj" if "0 < ref_count s Segment obj + (if Segment = Segment \<and> obj = seg then 1 else 0)"
      using D(4) [of obj] fresh(1) that by (cases "obj = seg") auto
    show "ref_count s Segment obj + (if Segment = Segment \<and> obj = seg then 1 else 0) \<le> 1"
      using D(2) [of obj] fresh(2) by (cases "obj = seg") auto
  qed (use D in simp_all)
  then show ?thesis using clock obj_ok_clock unfolding obj_inv_def rc same by blast
qed

text \<open>An object never seen before is committed.\<close>

lemma obj_inv_commit:
  assumes inv: "obj_inv ct s []" and clock: "clock_ms s' = clock_ms s"
    and rc: "\<And>k o'. ref_count s' k o' = ref_count s k o' + (if k = Wal \<and> o' = obj then n else 0)"
    and new: "is_wal_path obj" "bm_get (wal_commits s) obj = None" "0 < n"
      "clock_ms s \<le> sat_add64 (ct obj) WAL_COMMIT_WINDOW_MS"
    and upd: "wal_live_chunks s' = bm_insert obj n (wal_live_chunks s)" "retired s' = retired s"
      "wal_commits s' = bm_insert obj \<lparr>w_base_offsets = bases, w_created_at_ms = ct obj\<rparr> (wal_commits s)"
  shows "obj_inv ct s' []"
proof -
  have ok: "obj_ok ct (ref_count s) (wal_live_chunks s) (retired s) (wal_commits s) (clock_ms s)"
    using inv by (simp add: obj_inv_def)
  note D = obj_okD [OF ok]
  have "clock_ms s \<le> sat_add64 (ct obj) (2 * WAL_COMMIT_WINDOW_MS)"
    using new(4) sat_add64_mono [of WAL_COMMIT_WINDOW_MS "2 * WAL_COMMIT_WINDOW_MS" "ct obj"] by simp
  then have fresh: "bm_get (wal_live_chunks s) obj = None" "bm_get (retired s) obj = None"
    using D(6) [OF new(1) _ new(2)] by force+
  have zero: "ref_count s Wal obj = 0" using fresh(1) D(1) [of obj] by (simp split: if_splits)
  show ?thesis unfolding obj_inv_def rc clock upd
  proof (rule obj_okI)
    fix o'
    let ?rc = "\<lambda>k o'. ref_count s k o' + (if k = Wal \<and> o' = obj then n else 0) + entry_count [] k o'"
    show "bm_get (bm_insert obj n (wal_live_chunks s)) o' = (if ?rc Wal o' = 0 then None else Some (?rc Wal o'))"
      using D(1) [of o'] zero new(3) by (cases "o' = obj") auto
    show "is_wal_path o'" if "0 < ?rc Wal o'" using D(3) [of o'] new(1) that by (cases "o' = obj") auto
    show "?rc k o' = 0" if "bm_get (retired s) o' = Some t" for t k
      using D(5) [OF that, of k] fresh(2) that by auto
    show "sat_add64 (ct o') (2 * WAL_COMMIT_WINDOW_MS) < clock_ms s"
      if "is_wal_path o'" "bm_get (bm_insert obj n (wal_live_chunks s)) o' \<noteq> None \<or> bm_get (retired s) o' \<noteq> None"
        "bm_get (bm_insert obj \<lparr>w_base_offsets = bases, w_created_at_ms = ct obj\<rparr> (wal_commits s)) o' = None"
      using D(6) [OF that(1)] that by (auto split: if_splits)
    show "is_wal_path o' \<and> w_created_at_ms r = ct o'"
      if "bm_get (bm_insert obj \<lparr>w_base_offsets = bases, w_created_at_ms = ct obj\<rparr> (wal_commits s)) o' = Some r" for r
      using D(7) [of o' r] new(1) that by (auto split: if_splits)
  qed (use D in simp_all)
qed

end
