(* ===== verification/Idempotency.thy ===== *)
theory Idempotency
  imports Log
begin

text \<open>
  The stream ingest ledger of idempotency keys (\<open>loams-meta/src/state/idempotency.rs\<close>):
  claim, complete, release and prune.
\<close>

section \<open>Operations\<close>

definition validate_idempotency_args :: "string \<Rightarrow> nat \<Rightarrow> u64 option \<Rightarrow> ApplyError + unit" where
  "validate_idempotency_args owner keys ttl =
     check (validate_key ''idempotency owner'' owner) (\<lambda>_.
     if keys = 0 \<or> MAX_IDEMPOTENCY_KEYS < keys
     then Inl (InvalidArgument (Fmt ''an idempotency request carries 1..={} keys, got {}''
                [FNat MAX_IDEMPOTENCY_KEYS, FNat keys]))
     else case ttl of
       Some ms \<Rightarrow>
         if ms = 0 \<or> MAX_IDEMPOTENCY_TTL_MS < ms
         then Inl (InvalidArgument (Fmt ''an idempotency TTL is 1..={} ms, got {}''
                    [FNat MAX_IDEMPOTENCY_TTL_MS, FNat ms]))
         else Inr ()
     | None \<Rightarrow> Inr ())"

fun refuse_repeats_from :: "IdempotencyKey set \<Rightarrow> IdempotencyKey list \<Rightarrow> ApplyError + unit" where
  "refuse_repeats_from seen [] = Inr ()"
| "refuse_repeats_from seen (key # keys) =
     (if key \<in> seen
      then Inl (InvalidArgument (Fmt ''an idempotency request repeats a key'' []))
      else refuse_repeats_from (insert key seen) keys)"

definition refuse_repeats :: "IdempotencyKey list \<Rightarrow> ApplyError + unit" where
  "refuse_repeats keys = refuse_repeats_from {} keys"

type_synonym ledger = "(StreamId \<times> IdempotencyKey, IdempotencyEntry) btree_map"

text \<open>What a claim of one key by \<open>owner\<close> finds at \<open>now\<close>.\<close>

definition claim_state :: "IdempotencyEntry option \<Rightarrow> string \<Rightarrow> u64 \<Rightarrow> IdempotencyState" where
  "claim_state found owner now = (case found of
     Some (EntryDone part offset until) \<Rightarrow> if now < until then Done part offset else Claimed
   | Some (EntryPending holder until) \<Rightarrow>
       if now < until \<and> holder \<noteq> owner then InFlight until else Claimed
   | None \<Rightarrow> Claimed)"

fun claim_keys :: "ledger \<Rightarrow> StreamId \<Rightarrow> string \<Rightarrow> u64 \<Rightarrow> u64 \<Rightarrow> IdempotencyKey list
    \<Rightarrow> ledger \<times> IdempotencyState list" where
  "claim_keys m stream owner now until [] = (m, [])"
| "claim_keys m stream owner now until (key # keys) =
     (let slot = (stream, key);
          st = claim_state (bm_get m slot) owner now;
          m1 = (if st = Claimed then bm_insert slot (EntryPending owner until) m else m);
          (m2, sts) = claim_keys m1 stream owner now until keys
      in (m2, st # sts))"

definition claim_idempotency_keys ::
  "MetaState \<Rightarrow> StreamId \<Rightarrow> string \<Rightarrow> IdempotencyKey list \<Rightarrow> u64 \<Rightarrow> u64 \<Rightarrow> outcome" where
  "claim_idempotency_keys s stream owner keys ttl now_ms =
     attempt s (validate_idempotency_args owner (length keys) (Some ttl)) (\<lambda>_.
     attempt s (refuse_repeats keys) (\<lambda>_.
     if \<not> bm_contains (streams s) stream then (s, Inl (StreamNotFound stream))
     else
       let now = max (clock_ms s) now_ms;
           (m, sts) = claim_keys (idempotency s) stream owner now (sat_add64 now ttl) keys
       in (s\<lparr>clock_ms := now, idempotency := m\<rparr>, Inr (IdempotencyClaimed sts))))"

fun complete_keys :: "ledger \<Rightarrow> StreamId \<Rightarrow> string \<Rightarrow> u64 \<Rightarrow> (IdempotencyKey \<times> u32 \<times> u64) list \<Rightarrow> ledger" where
  "complete_keys m stream owner until [] = m"
| "complete_keys m stream owner until ((key, part, offset) # done) =
     complete_keys
       (case bm_get m (stream, key) of
          Some (EntryPending holder _) \<Rightarrow>
            if holder = owner then bm_insert (stream, key) (EntryDone part offset until) m else m
        | _ \<Rightarrow> m)
       stream owner until done"

definition complete_idempotency_keys ::
  "MetaState \<Rightarrow> StreamId \<Rightarrow> string \<Rightarrow> (IdempotencyKey \<times> u32 \<times> u64) list \<Rightarrow> u64 \<Rightarrow> u64 \<Rightarrow> outcome" where
  "complete_idempotency_keys s stream owner done window now_ms =
     attempt s (validate_idempotency_args owner (length done) (Some window)) (\<lambda>_.
     attempt s (refuse_repeats (map fst done)) (\<lambda>_.
     let now = max (clock_ms s) now_ms in
     (s\<lparr>clock_ms := now,
        idempotency := complete_keys (idempotency s) stream owner (sat_add64 now window) done\<rparr>,
      Inr IdempotencyKeysUpdated)))"

fun release_keys :: "ledger \<Rightarrow> StreamId \<Rightarrow> string \<Rightarrow> IdempotencyKey list \<Rightarrow> ledger" where
  "release_keys m stream owner [] = m"
| "release_keys m stream owner (key # keys) =
     release_keys
       (case bm_get m (stream, key) of
          Some (EntryPending holder _) \<Rightarrow> if holder = owner then bm_remove (stream, key) m else m
        | _ \<Rightarrow> m)
       stream owner keys"

definition release_idempotency_keys ::
  "MetaState \<Rightarrow> StreamId \<Rightarrow> string \<Rightarrow> IdempotencyKey list \<Rightarrow> outcome" where
  "release_idempotency_keys s stream owner keys =
     attempt s (validate_idempotency_args owner (length keys) None) (\<lambda>_.
     (s\<lparr>idempotency := release_keys (idempotency s) stream owner keys\<rparr>, Inr IdempotencyKeysUpdated))"

definition prune_idempotency_keys :: "MetaState \<Rightarrow> Fence option \<Rightarrow> u64 \<Rightarrow> outcome" where
  "prune_idempotency_keys s fence now_ms =
     attempt s (check_fence_opt s fence) (\<lambda>_.
     let clock = max (clock_ms s) now_ms;
         kept = bm_retain (\<lambda>_ e. is_live_at e clock) (idempotency s)
     in (s\<lparr>clock_ms := clock, idempotency := kept\<rparr>,
         Inr (Pruned (u32_or_max (bm_len (idempotency s) - bm_len kept)))))"

definition idempotency_entry :: "MetaState \<Rightarrow> StreamId \<Rightarrow> IdempotencyKey \<Rightarrow> IdempotencyEntry option" where
  "idempotency_entry s stream key = bm_get (idempotency s) (stream, key)"

definition drop_stream_idempotency :: "MetaState \<Rightarrow> StreamId \<Rightarrow> MetaState" where
  "drop_stream_idempotency s stream =
     s\<lparr>idempotency := bm_retain (\<lambda>(sid, _) _. sid \<noteq> stream) (idempotency s)\<rparr>"

lemmas idempotency_op_defs = claim_idempotency_keys_def complete_idempotency_keys_def
  release_idempotency_keys_def prune_idempotency_keys_def

declare idempotency_op_defs [state_simps]

section \<open>Errors and the clock\<close>

lemma claim_idempotency_keys_error [op_errors]:
  "claim_idempotency_keys s sid w ks ttl now = (s', Inl e) \<Longrightarrow> s' = s"
  by (auto simp: claim_idempotency_keys_def Let_def split: attempt_splits if_splits prod.splits)

lemma complete_idempotency_keys_error [op_errors]:
  "complete_idempotency_keys s sid w ks ttl now = (s', Inl e) \<Longrightarrow> s' = s"
  by (auto simp: complete_idempotency_keys_def Let_def split: attempt_splits)

lemma release_idempotency_keys_error [op_errors]:
  "release_idempotency_keys s sid w ks = (s', Inl e) \<Longrightarrow> s' = s"
  by (auto simp: release_idempotency_keys_def split: attempt_splits)

lemma prune_idempotency_keys_error [op_errors]: "prune_idempotency_keys s f now = (s', Inl e) \<Longrightarrow> s' = s"
  by (auto simp: prune_idempotency_keys_def Let_def split: attempt_splits)

lemma claim_idempotency_keys_clock [op_clock]:
  "claim_idempotency_keys s sid w ks ttl now = (s', r) \<Longrightarrow> clock_ms s \<le> clock_ms s'"
  by (auto simp: claim_idempotency_keys_def Let_def split: attempt_splits if_splits prod.splits)

lemma complete_idempotency_keys_clock [op_clock]:
  "complete_idempotency_keys s sid w ks ttl now = (s', r) \<Longrightarrow> clock_ms s \<le> clock_ms s'"
  by (auto simp: complete_idempotency_keys_def Let_def split: attempt_splits)

lemma release_idempotency_keys_clock [op_clock]:
  "release_idempotency_keys s sid w ks = (s', r) \<Longrightarrow> clock_ms s \<le> clock_ms s'"
  by (auto simp: release_idempotency_keys_def split: attempt_splits)

lemma prune_idempotency_keys_clock [op_clock]:
  "prune_idempotency_keys s f now = (s', r) \<Longrightarrow> clock_ms s \<le> clock_ms s'"
  by (auto simp: prune_idempotency_keys_def Let_def split: attempt_splits)

interpretation prune_keys: fenced_op "\<lambda>s f. prune_idempotency_keys s f now" for now
  by unfold_locales (auto simp: prune_idempotency_keys_def check_fence_opt_def)

end
