(* ===== verification/Catalog.thy ===== *)
theory Catalog
  imports Idempotency
begin

text \<open>
  Namespaces and streams (\<open>loams-meta/src/state/catalog.rs\<close>) and the link catalog
  (\<open>state/links.rs\<close>).
\<close>

section \<open>Namespaces and streams\<close>

definition create_namespace :: "MetaState \<Rightarrow> string \<Rightarrow> outcome" where
  "create_namespace s name =
     attempt s (validate_name ''namespace'' name) (\<lambda>_.
     case bm_get (namespace_names s) name of
       Some nid \<Rightarrow> (s, Inl (NamespaceExists nid))
     | None \<Rightarrow>
         let last = wadd64 (last_namespace_id s) 1; nid = NamespaceId last in
         (s\<lparr>last_namespace_id := last,
            namespace_names := bm_insert name nid (namespace_names s),
            namespaces := bm_insert nid \<lparr>n_id = nid, n_name = name\<rparr> (namespaces s)\<rparr>,
          Inr (NamespaceCreated nid)))"

text \<open>The loop of \<open>insert_stream\<close>: partitions \<open>0..n\<close>, each empty.\<close>

primrec insert_partitions ::
  "(StreamId \<times> u32, PartitionState) btree_map \<Rightarrow> StreamId \<Rightarrow> nat
     \<Rightarrow> (StreamId \<times> u32, PartitionState) btree_map" where
  "insert_partitions m sid 0 = m"
| "insert_partitions m sid (Suc n) =
     bm_insert (sid, n) PartitionState_default (insert_partitions m sid n)"

definition insert_stream ::
  "MetaState \<Rightarrow> NamespaceId \<Rightarrow> string \<Rightarrow> u32 \<Rightarrow> WalClass \<Rightarrow> Retention \<Rightarrow> MetaState \<times> StreamId" where
  "insert_stream s ns name parts class retention =
     (let last = wadd64 (last_stream_id s) 1; sid = StreamId last in
      (s\<lparr>last_stream_id := last,
         partitions := insert_partitions (partitions s) sid parts,
         stream_names := bm_insert (ns, name) sid (stream_names s),
         streams := bm_insert sid \<lparr>s_id = sid, s_namespace = ns, s_name = name,
           s_partitions = parts, s_class = class, s_retention = retention\<rparr> (streams s)\<rparr>,
       sid))"

definition create_stream ::
  "MetaState \<Rightarrow> NamespaceId \<Rightarrow> string \<Rightarrow> u32 \<Rightarrow> WalClass \<Rightarrow> Retention \<Rightarrow> outcome" where
  "create_stream s ns name parts class retention =
     attempt s (validate_name ''stream'' name) (\<lambda>_.
     attempt s (refuse_reserved name) (\<lambda>_.
     attempt s (check_partitions parts) (\<lambda>_.
     if \<not> bm_contains (namespaces s) ns then (s, Inl (NamespaceNotFound ns))
     else case bm_get (stream_names s) (ns, name) of
       Some sid \<Rightarrow> (s, Inl (StreamExists sid))
     | None \<Rightarrow>
         let (s1, sid) = insert_stream s ns name parts class retention
         in (s1, Inr (StreamCreated sid)))))"

text \<open>The loop of \<open>remove_stream\<close> over the partitions \<open>p..\<close>, in order.\<close>

fun remove_partitions :: "MetaState \<Rightarrow> StreamId \<Rightarrow> u32 list \<Rightarrow> MetaState" where
  "remove_partitions s sid [] = s"
| "remove_partitions s sid (p # ps) =
     (case bm_get (partitions s) (sid, p) of
        None \<Rightarrow> remove_partitions s sid ps
      | Some st \<Rightarrow>
          remove_partitions
            (release_entries (s\<lparr>partitions := bm_remove (sid, p) (partitions s)\<rparr>)
               (bm_values (index st))) sid ps)"

definition remove_stream :: "MetaState \<Rightarrow> StreamId \<Rightarrow> MetaState" where
  "remove_stream s sid = (case bm_get (streams s) sid of
     None \<Rightarrow> s
   | Some st \<Rightarrow>
       remove_partitions
         (drop_stream_idempotency
            (s\<lparr>streams := bm_remove sid (streams s),
               stream_names := bm_remove (s_namespace st, s_name st) (stream_names s)\<rparr>) sid)
         sid [0..<s_partitions st])"

definition namespace :: "MetaState \<Rightarrow> NamespaceId \<Rightarrow> Namespace option" where
  "namespace s nid = bm_get (namespaces s) nid"

definition namespace_by_name :: "MetaState \<Rightarrow> string \<Rightarrow> Namespace option" where
  "namespace_by_name s name = Option.bind (bm_get (namespace_names s) name) (bm_get (namespaces s))"

definition stream :: "MetaState \<Rightarrow> StreamId \<Rightarrow> Stream option" where
  "stream s sid = bm_get (streams s) sid"

definition stream_by_name :: "MetaState \<Rightarrow> NamespaceId \<Rightarrow> string \<Rightarrow> Stream option" where
  "stream_by_name s ns name = Option.bind (bm_get (stream_names s) (ns, name)) (bm_get (streams s))"

definition streams_of :: "MetaState \<Rightarrow> NamespaceId \<Rightarrow> Stream list" where
  "streams_of s ns = filter (\<lambda>st. s_namespace st = ns) (bm_values (streams s))"

definition partition_of :: "MetaState \<Rightarrow> StreamId \<Rightarrow> u32 \<Rightarrow> PartitionState option" where
  "partition_of s sid p = bm_get (partitions s) (sid, p)"

section \<open>Links\<close>

definition MAX_LINK_OPTIONS :: nat where
  "MAX_LINK_OPTIONS = 64"

definition insert_link ::
  "MetaState \<Rightarrow> NamespaceId \<Rightarrow> string \<Rightarrow> StreamId \<Rightarrow> TargetRef \<Rightarrow> (string, string) btree_map
     \<Rightarrow> MetaState \<times> LinkId" where
  "insert_link s ns name source target opts =
     (let last = wadd64 (last_link_id s) 1; lid = LinkId last in
      (s\<lparr>last_link_id := last,
         link_names := bm_insert (ns, name) lid (link_names s),
         links := bm_insert lid \<lparr>l_id = lid, l_namespace = ns, l_name = name, l_source = source,
           l_target = target, l_options = opts\<rparr> (links s)\<rparr>,
       lid))"

text \<open>The checks on a link's source stream.\<close>

definition check_source :: "MetaState \<Rightarrow> NamespaceId \<Rightarrow> StreamId \<Rightarrow> ApplyError + unit" where
  "check_source s ns source = (case bm_get (streams s) source of
     None \<Rightarrow> Inl (StreamNotFound source)
   | Some st \<Rightarrow>
       if s_namespace st \<noteq> ns
       then Inl (InvalidArgument (Fmt ''stream {} is not in namespace {}''
                  [FNat (stream_u64 source), FNat (ns_u64 ns)]))
       else if prefix ''_'' (s_name st)
       then Inl (InvalidArgument (Fmt ''stream {} belongs to a collection and cannot be a link source''
                  [FNat (stream_u64 source)]))
       else Inr ())"

definition create_link ::
  "MetaState \<Rightarrow> NamespaceId \<Rightarrow> string \<Rightarrow> StreamId \<Rightarrow> TargetRef \<Rightarrow> (string, string) btree_map \<Rightarrow> outcome" where
  "create_link s ns name source target opts =
     attempt s (validate_name ''link'' name) (\<lambda>_.
     attempt s (refuse_reserved name) (\<lambda>_.
     if \<not> bm_contains (namespaces s) ns then (s, Inl (NamespaceNotFound ns))
     else case bm_get (link_names s) (ns, name) of
       Some lid \<Rightarrow> (s, Inl (LinkExists lid))
     | None \<Rightarrow>
         attempt s (check_source s ns source) (\<lambda>_.
         attempt s (validate_name ''link target kind'' (t_kind target)) (\<lambda>_.
         attempt s (validate_name ''link target name'' (t_name target)) (\<lambda>_.
         if t_kind target = COLLECTION_KIND
         then (s, Inl (InvalidArgument (Fmt ''a collection's link is created with the collection'' [])))
         else if MAX_LINK_OPTIONS < bm_len opts
           \<or> list_ex (\<lambda>(k, v). k = [] \<or> MAX_KEY_LEN < length k \<or> MAX_KEY_LEN < length v) (bm_iter opts)
         then (s, Inl (InvalidArgument (Fmt (''a link takes at most {} options, with keys of 1..={} '' @
                  ''bytes and values of at most {} bytes'')
                [FNat MAX_LINK_OPTIONS, FNat MAX_KEY_LEN, FNat MAX_KEY_LEN])))
         else let (s1, lid) = insert_link s ns name source target opts
              in (s1, Inr (LinkCreated lid)))))))"

definition remove_link :: "MetaState \<Rightarrow> LinkId \<Rightarrow> MetaState" where
  "remove_link s lid = (case bm_get (links s) lid of
     None \<Rightarrow> s
   | Some l \<Rightarrow> s\<lparr>links := bm_remove lid (links s),
                 link_names := bm_remove (l_namespace l, l_name l) (link_names s)\<rparr>)"

definition link :: "MetaState \<Rightarrow> LinkId \<Rightarrow> Link option" where
  "link s lid = bm_get (links s) lid"

definition link_by_name :: "MetaState \<Rightarrow> NamespaceId \<Rightarrow> string \<Rightarrow> Link option" where
  "link_by_name s ns name = Option.bind (bm_get (link_names s) (ns, name)) (bm_get (links s))"

definition links_of :: "MetaState \<Rightarrow> NamespaceId \<Rightarrow> Link list" where
  "links_of s ns = filter (\<lambda>l. l_namespace l = ns) (bm_values (links s))"

lemmas catalog_op_defs = create_namespace_def create_stream_def create_link_def

declare catalog_op_defs [state_simps]

section \<open>Errors and the clock\<close>

lemma create_namespace_error [op_errors]: "create_namespace s n = (s', Inl e) \<Longrightarrow> s' = s"
  by (auto simp: create_namespace_def Let_def split: attempt_splits option.splits)

lemma create_stream_error [op_errors]: "create_stream s ns n p c r = (s', Inl e) \<Longrightarrow> s' = s"
  by (auto simp: create_stream_def split: attempt_splits option.splits if_splits prod.splits)

lemma create_link_error [op_errors]: "create_link s ns n src t opts = (s', Inl e) \<Longrightarrow> s' = s"
  by (auto simp: create_link_def elim!: attemptE split: option.splits if_splits prod.splits)

lemma insert_stream_clock [simp]: "insert_stream s ns n p c r = (s', sid) \<Longrightarrow> clock_ms s' = clock_ms s"
  by (auto simp: insert_stream_def Let_def)

lemma insert_link_clock [simp]: "insert_link s ns n src t opts = (s', lid) \<Longrightarrow> clock_ms s' = clock_ms s"
  by (auto simp: insert_link_def Let_def)

lemma create_namespace_clock [op_clock]: "create_namespace s n = (s', r) \<Longrightarrow> clock_ms s \<le> clock_ms s'"
  by (auto simp: create_namespace_def Let_def split: attempt_splits option.splits)

lemma create_stream_clock [op_clock]: "create_stream s ns n p c rt = (s', r) \<Longrightarrow> clock_ms s \<le> clock_ms s'"
  by (auto simp: create_stream_def split: attempt_splits option.splits if_splits prod.splits)

lemma create_link_clock [op_clock]: "create_link s ns n src t opts = (s', r) \<Longrightarrow> clock_ms s \<le> clock_ms s'"
  by (auto simp: create_link_def elim!: attemptE split: option.splits if_splits prod.splits)

lemma remove_partitions_clock [simp]: "clock_ms (remove_partitions s sid ps) = clock_ms s"
  by (induction s sid ps rule: remove_partitions.induct) (simp_all split: option.splits)

lemma remove_stream_clock [simp]: "clock_ms (remove_stream s sid) = clock_ms s"
  by (simp add: remove_stream_def drop_stream_idempotency_def split: option.splits)

lemma remove_link_clock [simp]: "clock_ms (remove_link s lid) = clock_ms s"
  by (simp add: remove_link_def split: option.splits)

end
