(* ===== verification/LogInv.thy ===== *)
theory LogInv
  imports Objects Catalog
begin

text \<open>
  What commits, swaps, trims and the removal of a stream do to the partitions and to the
  objects of the log: each partition stays well formed, and the invariant of
  \<open>Objects\<close> is kept. A commit is shown to act on each partition alone, as a sequence
  of appends.
\<close>

definition parts_inv :: "MetaState \<Rightarrow> bool" where
  "parts_inv s \<longleftrightarrow> (\<forall>key st. bm_get (partitions s) key = Some st \<longrightarrow> part_inv st)"

lemma parts_invD: "parts_inv s \<Longrightarrow> bm_get (partitions s) key = Some st \<Longrightarrow> part_inv st"
  unfolding parts_inv_def by blast

lemma parts_inv_frame: "parts_inv s \<Longrightarrow> partitions s' = partitions s \<Longrightarrow> parts_inv s'"
  by (simp add: parts_inv_def)

lemma parts_inv_put:
  "parts_inv s \<Longrightarrow> part_inv st \<Longrightarrow> partitions s' = bm_insert key st (partitions s) \<Longrightarrow> parts_inv s'"
  by (simp add: parts_inv_def)

section \<open>Commits\<close>

definition chunk_key :: "WalChunk \<Rightarrow> StreamId \<times> u32" where
  "chunk_key c = (ch_stream c, ch_partition c)"

definition append_chunk :: "string \<Rightarrow> PartitionState \<Rightarrow> WalChunk \<Rightarrow> PartitionState" where
  "append_chunk obj st c = insert_entry (st\<lparr>next_offset := wadd64 (next_offset st) (ch_records c)\<rparr>)
     (chunk_entry obj (next_offset st) c)"

definition records_for :: "WalChunk list \<Rightarrow> StreamId \<times> u32 \<Rightarrow> nat" where
  "records_for cs key = sum_list (map ch_records (filter (\<lambda>c. chunk_key c = key) cs))"

text \<open>No partition's offsets grow past \<open>u64::MAX\<close>.\<close>

definition offsets_fit :: "MetaState \<Rightarrow> WalChunk list \<Rightarrow> bool" where
  "offsets_fit s cs \<longleftrightarrow>
     list_all (\<lambda>(key, st). next_offset st + records_for cs key \<le> U64_MAX) (bm_iter (partitions s))"

lemma offsets_fitD:
  "offsets_fit s cs \<Longrightarrow> bm_get (partitions s) key = Some st \<Longrightarrow> next_offset st + records_for cs key \<le> U64_MAX"
  by (auto simp: offsets_fit_def list_all_iff bm_iter_get [symmetric])

lemma offsets_fitI:
  "(\<And>key st. bm_get (partitions s) key = Some st \<Longrightarrow> next_offset st + records_for cs key \<le> U64_MAX) \<Longrightarrow> offsets_fit s cs"
  by (auto simp: offsets_fit_def list_all_iff bm_iter_get)

lemma records_for_Cons:
  "records_for (c # cs) key = (if chunk_key c = key then ch_records c else 0) + records_for cs key"
  by (simp add: records_for_def)

lemma records_for_Nil [simp]: "records_for [] key = 0"
  by (simp add: records_for_def)

lemma chunk_entry_simps [simp]:
  "e_kind (chunk_entry obj b c) = Wal" "e_base_offset (chunk_entry obj b c) = b"
  "e_records (chunk_entry obj b c) = ch_records c" "e_object (chunk_entry obj b c) = obj"
  by (simp_all add: chunk_entry_def)

lemma append_chunk_inv:
  assumes inv: "part_inv st" and c: "0 < ch_records c" "next_offset st + ch_records c \<le> U64_MAX"
  shows "part_inv (append_chunk obj st c)"
    and "next_offset (append_chunk obj st c) = next_offset st + ch_records c"
    and "log_start_offset (append_chunk obj st c) = log_start_offset st"
    and "bm_iter (index (append_chunk obj st c))
      = bm_iter (index st) @ [(next_offset st, chunk_entry obj (next_offset st) c)]"
proof -
  have w: "wadd64 (next_offset st) (ch_records c) = next_offset st + ch_records c" using c by (simp add: wadd64_exact)
  note a = append_entry_inv [OF inv, of "chunk_entry obj (next_offset st) c"]
  show "part_inv (append_chunk obj st c)" using a(1) c by (simp add: append_chunk_def w)
  show "next_offset (append_chunk obj st c) = next_offset st + ch_records c" by (simp add: append_chunk_def w)
  show "log_start_offset (append_chunk obj st c) = log_start_offset st" by (simp add: append_chunk_def)
  show "bm_iter (index (append_chunk obj st c))
      = bm_iter (index st) @ [(next_offset st, chunk_entry obj (next_offset st) c)]"
    using a(2) c by (simp add: append_chunk_def)
qed

lemma commit_chunks_Cons:
  "commit_chunks s obj (c # cs) =
     (case bm_get (partitions s) (chunk_key c) of
        None \<Rightarrow> (s, Inl (PartitionNotFound (ch_stream c) (ch_partition c)))
      | Some p \<Rightarrow>
          (case commit_chunks (put_partition s (ch_stream c) (ch_partition c) (append_chunk obj p c)) obj cs of
             (s', Inl e) \<Rightarrow> (s', Inl e)
           | (s', Inr bases) \<Rightarrow> (s', Inr (next_offset p # bases))))"
  unfolding commit_chunks.simps append_chunk_def Let_def chunk_key_def ..

lemma commit_chunks_ConsE:
  assumes "commit_chunks s obj (c # cs) = (s1, Inr bases)"
  obtains p bases' where "bm_get (partitions s) (chunk_key c) = Some p" "bases = next_offset p # bases'"
    "commit_chunks (put_partition s (ch_stream c) (ch_partition c) (append_chunk obj p c)) obj cs = (s1, Inr bases')"
  using assms unfolding commit_chunks_Cons by (auto split: option.splits prod.splits sum.splits)

lemma chunk_key_fold [simp]: "(ch_stream c, ch_partition c) = chunk_key c"
  by (simp add: chunk_key_def)

text \<open>A commit acts on each partition alone: it appends the chunks for it, in order.\<close>

lemma commit_chunks_partitions:
  "commit_chunks s obj cs = (s1, Inr bases) \<Longrightarrow>
     bm_get (partitions s1) key
       = map_option (\<lambda>st. foldl (append_chunk obj) st (filter (\<lambda>c. chunk_key c = key) cs)) (bm_get (partitions s) key)"
proof (induction cs arbitrary: s bases)
  case Nil
  then show ?case by (simp add: option.map_ident)
next
  case (Cons c cs)
  then obtain p bases' where "bm_get (partitions s) (chunk_key c) = Some p"
    "commit_chunks (put_partition s (ch_stream c) (ch_partition c) (append_chunk obj p c)) obj cs = (s1, Inr bases')"
    by (blast elim: commit_chunks_ConsE)
  then show ?case using Cons.IH by auto
qed

lemma offsets_fit_put:
  assumes "offsets_fit s (c # cs)" "bm_get (partitions s) (chunk_key c) = Some p" "part_inv p" "0 < ch_records c"
  shows "next_offset p + ch_records c \<le> U64_MAX"
    and "offsets_fit (put_partition s (ch_stream c) (ch_partition c) (append_chunk obj p c)) cs"
proof -
  show room: "next_offset p + ch_records c \<le> U64_MAX"
    using offsets_fitD [OF assms(1,2)] by (simp add: records_for_Cons)
  show "offsets_fit (put_partition s (ch_stream c) (ch_partition c) (append_chunk obj p c)) cs"
  proof (rule offsets_fitI)
    fix key st assume st: "bm_get (partitions (put_partition s (ch_stream c) (ch_partition c) (append_chunk obj p c))) key = Some st"
    show "next_offset st + records_for cs key \<le> U64_MAX"
    proof (cases "key = chunk_key c")
      case True
      then show ?thesis
        using st offsets_fitD [OF assms(1,2)] append_chunk_inv(2) [OF assms(3,4) room, of obj]
        by (auto simp: records_for_Cons)
    next
      case False
      then show ?thesis using st offsets_fitD [OF assms(1), of key st] by (simp add: records_for_Cons split: if_splits)
    qed
  qed
qed

lemma commit_chunks_inv:
  assumes "commit_chunks s obj cs = (s1, Inr bases)" "parts_inv s" "offsets_fit s cs"
    "\<forall>c \<in> set cs. 0 < ch_records c"
  shows "parts_inv s1 \<and> dom (bm_get (partitions s1)) = dom (bm_get (partitions s))
    \<and> (\<forall>k o'. ref_count s1 k o' = ref_count s k o' + (if k = Wal \<and> o' = obj then length cs else 0))"
  using assms
proof (induction cs arbitrary: s bases)
  case (Cons c cs)
  then obtain p bases' where p: "bm_get (partitions s) (chunk_key c) = Some p"
    and rest: "commit_chunks (put_partition s (ch_stream c) (ch_partition c) (append_chunk obj p c)) obj cs = (s1, Inr bases')"
    by (blast elim: commit_chunks_ConsE)
  let ?s = "put_partition s (ch_stream c) (ch_partition c) (append_chunk obj p c)"
  have inv: "part_inv p" and c: "0 < ch_records c" using Cons.prems p by (auto dest: parts_invD)
  note room = offsets_fit_put [OF Cons.prems(3) p inv c]
  note a = append_chunk_inv [OF inv c room(1), of obj]
  have "parts_inv ?s" using Cons.prems(2) a(1) by (rule parts_inv_put) simp
  from Cons.IH [OF rest this room(2)] Cons.prems(4)
  have IH: "parts_inv s1" "dom (bm_get (partitions s1)) = dom (bm_get (partitions ?s))"
    "\<And>k o'. ref_count s1 k o' = ref_count ?s k o' + (if k = Wal \<and> o' = obj then length cs else 0)" by auto
  have "ref_count ?s k o' = ref_count s k o' + (if k = Wal \<and> o' = obj then 1 else 0)" for k o'
  proof -
    have "entries (append_chunk obj p c) = entries p @ [chunk_entry obj (next_offset p) c]"
      using a(4) by (simp add: entries_def bm_values_def)
    then show ?thesis
      using ref_count_put [of s "ch_stream c" "ch_partition c" p ?s "append_chunk obj p c" k o'] p
      by auto
  qed
  then show ?case using IH p by auto
qed simp

text \<open>The offsets given out: each chunk starts where the records before it end.\<close>

lemma commit_chunks_bases:
  assumes "commit_chunks s obj cs = (s1, Inr bases)" "parts_inv s" "offsets_fit s cs"
    "\<forall>c \<in> set cs. 0 < ch_records c" "i < length cs"
  shows "\<exists>st. bm_get (partitions s) (chunk_key (cs ! i)) = Some st
    \<and> bases ! i = next_offset st + records_for (take i cs) (chunk_key (cs ! i))"
  using assms
proof (induction cs arbitrary: s bases i)
  case (Cons c cs)
  then obtain p bases' where p: "bm_get (partitions s) (chunk_key c) = Some p" "bases = next_offset p # bases'"
    and rest: "commit_chunks (put_partition s (ch_stream c) (ch_partition c) (append_chunk obj p c)) obj cs = (s1, Inr bases')"
    by (blast elim: commit_chunks_ConsE)
  let ?s = "put_partition s (ch_stream c) (ch_partition c) (append_chunk obj p c)"
  have inv: "part_inv p" and c: "0 < ch_records c" using Cons.prems p by (auto dest: parts_invD)
  note room = offsets_fit_put [OF Cons.prems(3) p(1) inv c]
  note a = append_chunk_inv [OF inv c room(1), of obj]
  have inv': "parts_inv ?s" using Cons.prems(2) a(1) by (rule parts_inv_put) simp
  show ?case
  proof (cases i)
    case 0
    then show ?thesis using p by simp
  next
    case (Suc j)
    then obtain st where "bm_get (partitions ?s) (chunk_key (cs ! j)) = Some st"
      "bases' ! j = next_offset st + records_for (take j cs) (chunk_key (cs ! j))"
      using Cons.IH [OF rest inv' room(2), of j] Cons.prems by auto
    then show ?thesis using Suc p a(2) by (auto simp: records_for_Cons split: if_splits)
  qed
qed simp

lemma append_all_inv:
  assumes "part_inv st" "\<forall>c \<in> set cs. 0 < ch_records c"
    "next_offset st + sum_list (map ch_records cs) \<le> U64_MAX"
  shows "part_inv (foldl (append_chunk obj) st cs)
    \<and> next_offset (foldl (append_chunk obj) st cs) = next_offset st + sum_list (map ch_records cs)
    \<and> log_start_offset (foldl (append_chunk obj) st cs) = log_start_offset st
    \<and> (\<forall>b e. bm_get (index st) b = Some e \<longrightarrow> bm_get (index (foldl (append_chunk obj) st cs)) b = Some e)
    \<and> (\<forall>i < length cs.
        bm_get (index (foldl (append_chunk obj) st cs)) (next_offset st + sum_list (map ch_records (take i cs)))
          = Some (chunk_entry obj (next_offset st + sum_list (map ch_records (take i cs))) (cs ! i)))"
  using assms
proof (induction cs arbitrary: st)
  case (Cons c cs)
  let ?st = "append_chunk obj st c"
  have room: "next_offset st + ch_records c \<le> U64_MAX" and c: "0 < ch_records c" using Cons.prems by simp_all
  note a = append_chunk_inv [OF Cons.prems(1) c room, of obj]
  have get: "bm_get (index ?st) (next_offset st) = Some (chunk_entry obj (next_offset st) c)"
    "\<And>b e. bm_get (index st) b = Some e \<Longrightarrow> bm_get (index ?st) b = Some e"
    using a(4) by (simp_all add: bm_iter_get [symmetric])
  have pre: "\<forall>c \<in> set cs. 0 < ch_records c" "next_offset ?st + sum_list (map ch_records cs) \<le> U64_MAX"
    using Cons.prems a(2) by simp_all
  note IH' = Cons.IH [OF a(1) pre]
  have "bm_get (index (foldl (append_chunk obj) ?st cs)) (next_offset st + sum_list (map ch_records (take i (c # cs))))
      = Some (chunk_entry obj (next_offset st + sum_list (map ch_records (take i (c # cs)))) ((c # cs) ! i))"
    if "i < length (c # cs)" for i
  proof (cases i)
    case 0
    then show ?thesis using IH' get(1) by simp
  next
    case (Suc j)
    then show ?thesis using IH' a(2) that by (simp add: add.assoc)
  qed
  then show ?case using IH' get(2) a(2,3) by simp
qed simp

section \<open>Swaps\<close>

text \<open>A run of entries that passed the check is contiguous in the index.\<close>

lemma tiles_head:
  assumes "bm_iter m = pre @ post" "tiles lo pre b" "tiles b post hi" "bm_get m b = Some e"
  shows "\<exists>post'. post = (b, e) # post'"
proof -
  have mem: "(b, e) \<in> set pre \<union> set post" using assms(1,4) by (metis Un_iff bm_iter_get set_append)
  have "(b, e) \<notin> set pre" using tiles_mem [OF assms(2), of b e] by force
  with mem have b: "(b, e) \<in> set post" by simp
  then obtain b' e' post' where post: "post = (b', e') # post'" by (cases post) auto
  then have "b' = b" using assms(3) by simp
  moreover have "bm_get m b' = Some e'" using assms(1) post bm_iter_get [of b' e' m] by simp
  ultimately show ?thesis using post assms(4) by simp
qed

lemma check_replaces_run:
  assumes "check_replaces st mm rs b n = Inr r" "bm_iter (index st) = pre @ post"
    "tiles lo pre b" "tiles b post hi" "hi \<le> U64_MAX"
  shows "\<exists>run post'. post = run @ post' \<and> map fst run = map fst rs \<and> map (\<lambda>x. e_object (snd x)) run = map snd rs
    \<and> (\<forall>x \<in> set run. e_kind (snd x) = Wal) \<and> r = n + sum_list (map (\<lambda>x. e_records (snd x)) run)"
  using assms
proof (induction rs arbitrary: b n pre post)
  case (Cons x rs)
  obtain base obj where x: "x = (base, obj)" by (cases x)
  from Cons.prems(1) x obtain e where e: "bm_get (index st) b = Some e" "base = b" "e_kind e = Wal" "e_object e = obj"
    and rest: "check_replaces st mm rs (end_offset e) (n + e_records e) = Inr r"
    by (auto simp: check_Inr_iff split: if_splits)
  obtain post1 where post: "post = (b, e) # post1" using tiles_head [OF Cons.prems(2-4) e(1)] by blast
  have end_eq: "end_offset e = b + e_records e" using tiles_end_offset [OF Cons.prems(4,5)] post by simp
  have "tiles lo (pre @ [(b, e)]) (end_offset e)" "tiles (end_offset e) post1 hi"
    using Cons.prems(3,4) post end_eq unfolding tiles_append by auto
  from Cons.IH [OF rest _ this Cons.prems(5)] Cons.prems(2) post obtain run post' where
    run: "post1 = run @ post'" "map fst run = map fst rs" "map (\<lambda>x. e_object (snd x)) run = map snd rs"
      "\<forall>x \<in> set run. e_kind (snd x) = Wal" "r = n + e_records e + sum_list (map (\<lambda>x. e_records (snd x)) run)"
    by auto
  show ?case
    by (rule exI [of _ "(b, e) # run"], rule exI [of _ post']) (use run post x e in simp)
qed simp

lemma check_replaces_split:
  assumes inv: "part_inv st" and chk: "check_replaces st mm ((b, obj) # rs) b n = Inr r"
  shows "\<exists>pre run post. bm_iter (index st) = pre @ run @ post \<and> run \<noteq> [] \<and> map fst run = map fst ((b, obj) # rs)
    \<and> map (\<lambda>x. e_object (snd x)) run = map snd ((b, obj) # rs) \<and> (\<forall>x \<in> set run. e_kind (snd x) = Wal)
    \<and> r = n + sum_list (map (\<lambda>x. e_records (snd x)) run)"
proof -
  obtain lo where lo: "tiles lo (bm_iter (index st)) (next_offset st)" "next_offset st \<le> U64_MAX"
    using part_inv_tiles [OF inv] by metis
  obtain e where "bm_get (index st) b = Some e" using chk by (auto simp: check_Inr_iff)
  then obtain pre post where split: "bm_iter (index st) = pre @ (b, e) # post" by (rule bm_iter_split)
  then have "tiles lo pre b" "tiles b ((b, e) # post) (next_offset st)"
    using lo(1) unfolding split tiles_append by auto
  from check_replaces_run [OF chk split this lo(2)] obtain run post' where
    "(b, e) # post = run @ post'" "map fst run = map fst ((b, obj) # rs)"
    "map (\<lambda>x. e_object (snd x)) run = map snd ((b, obj) # rs)" "\<forall>x \<in> set run. e_kind (snd x) = Wal"
    "r = n + sum_list (map (\<lambda>x. e_records (snd x)) run)" by blast
  then show ?thesis using split
    by (intro exI [of _ pre] exI [of _ run] exI [of _ post']) auto
qed

text \<open>
  What a swap does to its partition: the run of replaced entries becomes one entry that
  covers the same offsets; nothing else changes.
\<close>

lemma swap_partition:
  assumes inv: "part_inv st" and rs: "rs = (b, obj) # rs'"
    and chk: "check_replaces st mm rs b 0 = Inr records" and rem: "remove_entries st (map fst rs) = (st2, removed)"
    and seg: "e_base_offset seg = b" "e_records seg = records"
  shows "part_inv (insert_entry st2 seg)"
    and "next_offset (insert_entry st2 seg) = next_offset st"
    and "log_start_offset (insert_entry st2 seg) = log_start_offset st"
    and "\<exists>pre run post. bm_iter (index st) = pre @ run @ post \<and> removed = map snd run \<and> run \<noteq> []
      \<and> bm_iter (index (insert_entry st2 seg)) = pre @ (b, seg) # post
      \<and> map fst run = map fst rs \<and> map e_object removed = map snd rs \<and> (\<forall>e \<in> set removed. e_kind e = Wal)
      \<and> records = sum_list (map e_records removed)"
proof -
  obtain pre run post where run: "bm_iter (index st) = pre @ run @ post" "run \<noteq> []" "map fst run = map fst rs"
    "map (\<lambda>x. e_object (snd x)) run = map snd rs" "\<forall>x \<in> set run. e_kind (snd x) = Wal"
    "records = sum_list (map (\<lambda>x. e_records (snd x)) run)"
    using check_replaces_split [OF inv chk [unfolded rs], folded rs] unfolding add_0 by blast
  have hd: "fst (hd run) = b" using run(2,3) rs by (cases run) auto
  from replace_run_inv [OF inv run(1,2), of seg] seg hd run(6)
  obtain st' where st': "remove_entries st (map fst run) = (st', map snd run)" "part_inv (insert_entry st' seg)"
    "bm_iter (index (insert_entry st' seg)) = pre @ (b, seg) # post"
    "next_offset st' = next_offset st" "log_start_offset st' = log_start_offset st" by auto
  have eq: "st2 = st'" "removed = map snd run" using st'(1) rem run(3) by simp_all
  show "part_inv (insert_entry st2 seg)" "next_offset (insert_entry st2 seg) = next_offset st"
    "log_start_offset (insert_entry st2 seg) = log_start_offset st" using st' eq by simp_all
  show "\<exists>pre run post. bm_iter (index st) = pre @ run @ post \<and> removed = map snd run \<and> run \<noteq> []
      \<and> bm_iter (index (insert_entry st2 seg)) = pre @ (b, seg) # post
      \<and> map fst run = map fst rs \<and> map e_object removed = map snd rs \<and> (\<forall>e \<in> set removed. e_kind e = Wal)
      \<and> records = sum_list (map e_records removed)"
    by (rule exI [of _ pre], rule exI [of _ run], rule exI [of _ post])
      (use run st' eq in \<open>simp add: comp_def\<close>)
qed

section \<open>The log invariant is kept\<close>

definition log_inv :: "(string \<Rightarrow> u64) \<Rightarrow> MetaState \<Rightarrow> bool" where
  "log_inv ct s \<longleftrightarrow> parts_inv s \<and> obj_inv ct s []"

lemma log_inv_frame:
  assumes "log_inv ct s" "clock_ms s \<le> clock_ms s'" "partitions s' = partitions s"
    "wal_live_chunks s' = wal_live_chunks s" "retired s' = retired s" "wal_commits s' = wal_commits s"
  shows "log_inv ct s'"
  using assms obj_inv_frame parts_inv_frame unfolding log_inv_def by blast

lemma ref_count_update [simp]:
  "ref_count (s\<lparr>clock_ms := c\<rparr>) = ref_count s"
  "ref_count (s\<lparr>wal_commits := w\<rparr>) = ref_count s"
  "ref_count (s\<lparr>retired := t\<rparr>) = ref_count s"
  by (rule ref_count_frame, simp)+

text \<open>A swap that its partition already shows as done.\<close>

definition swap_retry :: "MetaState \<Rightarrow> StreamId \<Rightarrow> u32 \<Rightarrow> (u64 \<times> string) list \<Rightarrow> string \<Rightarrow> bool" where
  "swap_retry s sid p rs seg = (case (bm_get (partitions s) (sid, p), rs) of
     (Some st, (b, _) # _) \<Rightarrow> (case bm_get (index st) b of
        Some e \<Rightarrow> e_kind e = Segment \<and> e_object e = seg | None \<Rightarrow> False)
   | _ \<Rightarrow> False)"

definition segment_fresh :: "MetaState \<Rightarrow> string \<Rightarrow> bool" where
  "segment_fresh s seg \<longleftrightarrow> is_segment_path seg \<and> ref_count s Segment seg = 0 \<and> \<not> bm_contains (retired s) seg"

lemma commit_wal_log_inv:
  assumes "commit_wal s obj t cs = (s', r)" and inv: "log_inv ct s"
    and env: "is_wal_path obj" "t = ct obj" "offsets_fit s cs"
  shows "log_inv ct s'"
  using assms(1)
proof (cases rule: commit_wal_cases)
  case (committed s1 bases)
  have pos: "\<forall>c \<in> set cs. 0 < ch_records c" using committed(5) by simp
  note c = commit_chunks_inv [OF committed(6) _ env(3) pos]
  have s1: "parts_inv s1" "\<And>k o'. ref_count s1 k o' = ref_count s k o' + (if k = Wal \<and> o' = obj then length cs else 0)"
    using c inv by (auto simp: log_inv_def)
  have rc: "ref_count s' = ref_count s1" using committed(9) by (intro ref_count_frame) simp
  have upd: "clock_ms s' = clock_ms s" "wal_live_chunks s' = bm_insert obj (length cs) (wal_live_chunks s)"
    "retired s' = retired s"
    "wal_commits s' = bm_insert obj \<lparr>w_base_offsets = bases, w_created_at_ms = ct obj\<rparr> (wal_commits s)"
    using env(2) by (simp_all add: committed(9))
  have inv0: "obj_inv ct s []" using inv by (simp add: log_inv_def)
  have "obj_inv ct s' []"
    by (rule obj_inv_commit [OF inv0 upd(1) s1(2) [folded rc] env(1) committed(1) _ _ upd(2-4)])
      (use committed(2,3) env(2) in simp_all)
  moreover have "parts_inv s'" using s1(1) by (rule parts_inv_frame) (simp add: committed(9))
  ultimately show ?thesis by (simp add: log_inv_def)
qed (use inv in simp_all)

lemma swap_segment_log_inv:
  assumes "swap_segment s sid p rs seg rng ts f now fr = (s', r)" and inv: "log_inv ct s"
    and env: "swap_retry s sid p rs seg \<or> segment_fresh s seg"
  shows "log_inv ct s'"
  using assms(1)
proof (cases rule: swap_segment_cases)
  case (swapped st b obj rs' records st2 removed)
  let ?seg = "\<lparr>e_kind = Segment, e_base_offset = b, e_records = records, e_object = seg,
    e_byte_range = rng, e_max_timestamp_ms = ts\<rparr>"
  let ?s = "put_partition (s\<lparr>clock_ms := max (clock_ms s) now\<rparr>) sid p (insert_entry st2 ?seg)"
  have st: "part_inv st" using inv swapped(4) by (auto simp: log_inv_def dest: parts_invD)
  note w = swap_partition [OF st swapped(2,8,9), of ?seg]
  obtain pre run post where run: "bm_iter (index st) = pre @ run @ post" "removed = map snd run"
    "bm_iter (index (insert_entry st2 ?seg)) = pre @ (b, ?seg) # post" using w(4) by auto
  obtain e where "bm_get (index st) b = Some e" "e_kind e = Wal"
    using swapped(2,8) by (auto simp: check_Inr_iff split: if_splits)
  then have "\<not> swap_retry s sid p rs seg" using swapped(2,4) by (simp add: swap_retry_def)
  with env have fresh: "segment_fresh s seg" by simp
  have ec: "entry_count (entries (insert_entry st2 ?seg)) k o' + entry_count removed k o'
      = entry_count (entries st) k o' + (if k = Segment \<and> o' = seg then 1 else 0)" for k o'
    using run by (auto simp: entries_def bm_values_def)
  have put: "ref_count ?s k o' + entry_count (entries st) k o'
      = ref_count s k o' + entry_count (entries (insert_entry st2 ?seg)) k o'" for k o'
    by (rule ref_count_put [OF swapped(4)]) simp
  have rc: "ref_count ?s k o' + entry_count removed k o'
      = ref_count s k o' + (if k = Segment \<and> o' = seg then 1 else 0)" for k o'
    using put [of k o'] ec [of k o'] by linarith
  have inv0: "obj_inv ct s []" using inv by (simp add: log_inv_def)
  have "obj_inv ct ?s removed"
    by (rule obj_inv_segment [OF inv0 _ rc]) (use fresh in \<open>simp_all add: segment_fresh_def domIff\<close>)
  then have "obj_inv ct s' []" using swapped(10) release_entries_obj by simp
  moreover have "parts_inv s'" by (rule parts_inv_put [where s = s and st = "insert_entry st2 ?seg"])
    (use inv w(1) swapped(10) in \<open>auto simp: log_inv_def\<close>)
  ultimately show ?thesis by (simp add: log_inv_def)
qed (use inv in simp_all)

lemma trim_partition_log_inv:
  assumes "trim_partition s sid p off f now = (s', r)" and inv: "log_inv ct s"
  shows "log_inv ct s'"
  using assms(1)
proof (cases rule: trim_partition_cases)
  case (trimmed st st1 removed)
  let ?st = "st1\<lparr>log_start_offset := max (log_start_offset st1) (min off (next_offset st))\<rparr>"
  let ?s = "put_partition (s\<lparr>clock_ms := max (clock_ms s) now\<rparr>) sid p ?st"
  have st: "part_inv st" using inv trimmed(2) by (auto simp: log_inv_def dest: parts_invD)
  note w = trim_inv [OF st _ trimmed(4)]
  obtain gone rest where "bm_iter (index st) = gone @ rest" "bm_iter (index st1) = rest" "removed = map snd gone"
    using w(2) by auto
  then have ec: "entry_count (entries ?st) k o' + entry_count removed k o' = entry_count (entries st) k o'" for k o'
    by (simp add: entries_def bm_values_def)
  have put: "ref_count ?s k o' + entry_count (entries st) k o' = ref_count s k o' + entry_count (entries ?st) k o'" for k o'
    by (rule ref_count_put [OF trimmed(2)]) simp
  have rc: "ref_count ?s k o' + entry_count removed k o' = ref_count s k o' + entry_count [] k o'" for k o'
    using put [of k o'] ec [of k o'] by (simp only: entry_count_simps)
  have inv0: "obj_inv ct s []" using inv by (simp add: log_inv_def)
  have "obj_inv ct ?s removed" by (rule obj_inv_moved [OF inv0 _ rc]) simp_all
  then have "obj_inv ct s' []" using trimmed(6) release_entries_obj by simp
  moreover have "parts_inv s'" by (rule parts_inv_put [where s = s and st = ?st])
    (use inv w(1) trimmed(6) in \<open>auto simp: log_inv_def\<close>)
  ultimately show ?thesis by (simp add: log_inv_def)
qed (use inv in simp_all)

lemma prune_wal_commits_log_inv:
  assumes "prune_wal_commits s f now = (s', r)" and inv: "log_inv ct s"
  shows "log_inv ct s'"
proof (cases r)
  case (Inl e)
  then show ?thesis using assms prune_wal_commits_error by blast
next
  case (Inr y)
  let ?clock = "max (clock_ms s) now"
  let ?kept = "bm_retain (\<lambda>_ r. ?clock \<le> sat_add64 (w_created_at_ms r) (2 * WAL_COMMIT_WINDOW_MS)) (wal_commits s)"
  have s': "s' = s\<lparr>clock_ms := ?clock, wal_commits := ?kept\<rparr>"
    using assms(1) Inr by (auto simp: prune_wal_commits_def Let_def attempt_eq_Inr)
  have ok: "obj_ok ct (ref_count s) (wal_live_chunks s) (retired s) (wal_commits s) ?clock"
    by (rule obj_ok_clock [where clock = "clock_ms s"]) (use inv in \<open>simp_all add: log_inv_def obj_inv_def\<close>)
  note D = obj_okD [OF ok]
  have "obj_ok ct (ref_count s) (wal_live_chunks s) (retired s) ?kept ?clock"
  proof (rule obj_okI)
    fix obj
    show "sat_add64 (ct obj) (2 * WAL_COMMIT_WINDOW_MS) < ?clock"
      if "is_wal_path obj" "bm_get (wal_live_chunks s) obj \<noteq> None \<or> bm_get (retired s) obj \<noteq> None"
        "bm_get ?kept obj = None"
      using D(6) [OF that(1,2)] D(7) [of obj] that(3)
      by (cases "bm_get (wal_commits s) obj") (auto simp: bm_get_retain not_le split: if_splits)
    show "is_wal_path obj \<and> w_created_at_ms r = ct obj" if "bm_get ?kept obj = Some r" for r
      using D(7) that by simp
  qed (fact D)+
  then show ?thesis using inv by (simp add: log_inv_def obj_inv_def s' parts_inv_def)
qed

lemma forget_each_get: "bm_get (fst (forget_each ret objs n)) obj = Some t \<Longrightarrow> bm_get ret obj = Some t"
  by (induction ret objs n rule: forget_each.induct) (auto split: if_splits)

lemma forget_objects_log_inv:
  assumes "forget_objects s objs f = (s', r)" and inv: "log_inv ct s"
  shows "log_inv ct s'"
proof (cases r)
  case (Inl e)
  then show ?thesis using assms forget_objects_error by blast
next
  case (Inr y)
  let ?ret = "fst (forget_each (retired s) objs 0)"
  have s': "s' = s\<lparr>retired := ?ret\<rparr>"
    using assms(1) Inr by (auto simp: forget_objects_def attempt_eq_Inr split: prod.splits)
  have ok: "obj_ok ct (ref_count s) (wal_live_chunks s) (retired s) (wal_commits s) (clock_ms s)"
    using inv by (simp add: log_inv_def obj_inv_def)
  note D = obj_okD [OF ok]
  have sub: "bm_get ?ret obj \<noteq> None \<Longrightarrow> bm_get (retired s) obj \<noteq> None" for obj
    by (cases "bm_get ?ret obj") (auto dest: forget_each_get)
  have "obj_ok ct (ref_count s) (wal_live_chunks s) ?ret (wal_commits s) (clock_ms s)"
  proof (rule obj_okI)
    show "ref_count s k obj = 0" if "bm_get ?ret obj = Some t" for obj t k using D(5) forget_each_get [OF that] .
    show "sat_add64 (ct obj) (2 * WAL_COMMIT_WINDOW_MS) < clock_ms s"
      if "is_wal_path obj" "bm_get (wal_live_chunks s) obj \<noteq> None \<or> bm_get ?ret obj \<noteq> None" "bm_get (wal_commits s) obj = None" for obj
      using D(6) [OF that(1) _ that(3)] that(2) sub by blast
  qed (fact D)+
  then show ?thesis using inv by (simp add: log_inv_def obj_inv_def s' parts_inv_def)
qed

section \<open>Removing a stream\<close>

lemma release_entries_only:
  "\<exists>l r. release_entries s es = s\<lparr>wal_live_chunks := l, retired := r\<rparr>"
  by (rule exI [of _ "wal_live_chunks (release_entries s es)"], rule exI [of _ "retired (release_entries s es)"])
    (rule MetaState.equality; simp)

lemma remove_partitions_only:
  "\<exists>m l r. remove_partitions s sid ps = s\<lparr>partitions := m, wal_live_chunks := l, retired := r\<rparr>"
proof (induction s sid ps rule: remove_partitions.induct)
  case (1 s sid)
  show ?case by (rule exI [of _ "partitions s"], rule exI [of _ "wal_live_chunks s"], rule exI [of _ "retired s"]) simp
next
  case (2 s sid p ps)
  show ?case
  proof (cases "bm_get (partitions s) (sid, p)")
    case None
    then show ?thesis using "2.IH"(1) by simp
  next
    case (Some st)
    let ?s = "s\<lparr>partitions := bm_remove (sid, p) (partitions s)\<rparr>"
    obtain l r where "release_entries ?s (bm_values (index st)) = ?s\<lparr>wal_live_chunks := l, retired := r\<rparr>"
      using release_entries_only by blast
    then show ?thesis using "2.IH"(2) [OF Some] Some by auto
  qed
qed

lemma remove_partitions_frame [simp]:
  "clock_ms (remove_partitions s sid ps) = clock_ms s"
  "last_namespace_id (remove_partitions s sid ps) = last_namespace_id s"
  "last_stream_id (remove_partitions s sid ps) = last_stream_id s"
  "namespaces (remove_partitions s sid ps) = namespaces s"
  "namespace_names (remove_partitions s sid ps) = namespace_names s"
  "streams (remove_partitions s sid ps) = streams s"
  "stream_names (remove_partitions s sid ps) = stream_names s"
  "wal_commits (remove_partitions s sid ps) = wal_commits s"
  "leases (remove_partitions s sid ps) = leases s"
  "pointers (remove_partitions s sid ps) = pointers s"
  "last_link_id (remove_partitions s sid ps) = last_link_id s"
  "links (remove_partitions s sid ps) = links s"
  "link_names (remove_partitions s sid ps) = link_names s"
  "last_collection_id (remove_partitions s sid ps) = last_collection_id s"
  "collections (remove_partitions s sid ps) = collections s"
  "collection_names (remove_partitions s sid ps) = collection_names s"
  "aliases (remove_partitions s sid ps) = aliases s"
  "collection_hot (remove_partitions s sid ps) = collection_hot s"
  "alias_targets (remove_partitions s sid ps) = alias_targets s"
  "idempotency (remove_partitions s sid ps) = idempotency s"
proof -
  obtain m l r where eq: "remove_partitions s sid ps = s\<lparr>partitions := m, wal_live_chunks := l, retired := r\<rparr>"
    using remove_partitions_only by blast
  show
    "clock_ms (remove_partitions s sid ps) = clock_ms s"
    "last_namespace_id (remove_partitions s sid ps) = last_namespace_id s"
    "last_stream_id (remove_partitions s sid ps) = last_stream_id s"
    "namespaces (remove_partitions s sid ps) = namespaces s"
    "namespace_names (remove_partitions s sid ps) = namespace_names s"
    "streams (remove_partitions s sid ps) = streams s"
    "stream_names (remove_partitions s sid ps) = stream_names s"
    "wal_commits (remove_partitions s sid ps) = wal_commits s"
    "leases (remove_partitions s sid ps) = leases s"
    "pointers (remove_partitions s sid ps) = pointers s"
    "last_link_id (remove_partitions s sid ps) = last_link_id s"
    "links (remove_partitions s sid ps) = links s"
    "link_names (remove_partitions s sid ps) = link_names s"
    "last_collection_id (remove_partitions s sid ps) = last_collection_id s"
    "collections (remove_partitions s sid ps) = collections s"
    "collection_names (remove_partitions s sid ps) = collection_names s"
    "aliases (remove_partitions s sid ps) = aliases s"
    "collection_hot (remove_partitions s sid ps) = collection_hot s"
    "alias_targets (remove_partitions s sid ps) = alias_targets s"
    "idempotency (remove_partitions s sid ps) = idempotency s"
    unfolding eq by simp_all
qed

lemma remove_partitions_get:
  "bm_get (partitions (remove_partitions s sid ps)) key
     = (if fst key = sid \<and> snd key \<in> set ps then None else bm_get (partitions s) key)"
  by (induction s sid ps rule: remove_partitions.induct) (auto split: option.splits)

lemma remove_partitions_log_inv: "log_inv ct s \<Longrightarrow> log_inv ct (remove_partitions s sid ps)"
proof (induction s sid ps rule: remove_partitions.induct)
  case (2 s sid p ps)
  show ?case
  proof (cases "bm_get (partitions s) (sid, p)")
    case None
    then show ?thesis using 2 by simp
  next
    case (Some st)
    let ?s = "s\<lparr>partitions := bm_remove (sid, p) (partitions s)\<rparr>"
    have inv0: "obj_inv ct s []" using "2.prems" by (simp add: log_inv_def)
    have "ref_count ?s k o' + entry_count (bm_values (index st)) k o' = ref_count s k o' + entry_count [] k o'" for k o'
      using ref_count_remove [OF Some, of ?s k o'] by (simp add: entries_def)
    then have "obj_inv ct ?s (bm_values (index st))" by (rule obj_inv_moved [OF inv0, rotated]) simp_all
    moreover have "parts_inv ?s" using "2.prems" by (auto simp: log_inv_def parts_inv_def split: if_splits)
    ultimately have "log_inv ct (release_entries ?s (bm_values (index st)))"
      using release_entries_obj parts_inv_frame [of ?s "release_entries ?s (bm_values (index st))"]
      by (simp add: log_inv_def)
    then show ?thesis using "2.IH"(2) [OF Some] Some by simp
  qed
qed simp

lemma remove_stream_log_inv: "log_inv ct s \<Longrightarrow> log_inv ct (remove_stream s sid)"
  by (auto simp: remove_stream_def drop_stream_idempotency_def split: option.splits
      intro!: remove_partitions_log_inv elim!: log_inv_frame)

end
