(* ===== verification/Pointers.thy ===== *)
theory Pointers
  imports Leases
begin

text \<open>
  Versioned pointers with compare-and-swap (\<open>loams-meta/src/state/pointers.rs\<close>).
\<close>

definition check_collection_pointer :: "MetaState \<Rightarrow> NamespaceId \<Rightarrow> string \<Rightarrow> ApplyError + unit" where
  "check_collection_pointer s ns key = (case strip_prefix COLLECTION_POINTER_PREFIX key of
     None \<Rightarrow> Inr ()
   | Some rest \<Rightarrow> (case parse_CollectionId rest of
       Inl _ \<Rightarrow> Inl (InvalidArgument (Fmt ''invalid collection pointer key {:?}'' [FStr key]))
     | Inr cid \<Rightarrow> (case bm_get (collections s) cid of
         Some c \<Rightarrow> if c_namespace c = ns then Inr () else Inl (CollectionNotFound cid)
       | None \<Rightarrow> Inl (CollectionNotFound cid))))"

definition cas_pointer ::
  "MetaState \<Rightarrow> NamespaceId \<Rightarrow> string \<Rightarrow> u64 option \<Rightarrow> string \<Rightarrow> Fence option \<Rightarrow> Freshness option \<Rightarrow> outcome" where
  "cas_pointer s ns key expected val fence fresh =
     attempt s (validate_key ''pointer key'' key) (\<lambda>_.
     attempt s (validate_key ''pointer value'' val) (\<lambda>_.
     attempt s (check_collection_pointer s ns key) (\<lambda>_.
     if \<not> bm_contains (namespaces s) ns then (s, Inl (NamespaceNotFound ns))
     else
       attempt s (check_fence_opt s fence) (\<lambda>_.
       let current = bm_get (pointers s) (ns, key) in
       attempt s (case (expected, current) of
           (None, None) \<Rightarrow> Inr 1
         | (Some e, Some p) \<Rightarrow>
             if p_version p = e then Inr (wadd64 e 1) else Inl (VersionMismatch current)
         | _ \<Rightarrow> Inl (VersionMismatch current)) (\<lambda>version.
       case fresh of
         Some f \<Rightarrow>
           if expired_at f (clock_ms s)
           then (s, Inl (StaleObject val (fr_created_at_ms f) (fr_max_age_ms f) (clock_ms s)))
           else (s\<lparr>pointers := bm_insert (ns, key) \<lparr>p_version = version, p_value = val\<rparr> (pointers s)\<rparr>,
                 Inr (PointerSet version))
       | None \<Rightarrow>
           (s\<lparr>pointers := bm_insert (ns, key) \<lparr>p_version = version, p_value = val\<rparr> (pointers s)\<rparr>,
            Inr (PointerSet version)))))))"

definition pointer :: "MetaState \<Rightarrow> NamespaceId \<Rightarrow> string \<Rightarrow> Pointer option" where
  "pointer s ns key = bm_get (pointers s) (ns, key)"

declare cas_pointer_def [state_simps] check_collection_pointer_def [state_simps]

section \<open>Errors, the clock and the fence\<close>

lemma cas_pointer_cases:
  assumes "cas_pointer s ns key expected val f fr = (s', r)"
  obtains (error) e where "s' = s" "r = Inl e"
  | (set) version where "key \<noteq> []" "ns \<in> dom (bm_get (namespaces s))" "check_collection_pointer s ns key = Inr ()"
      "check_fence_opt s f = Inr ()"
      "case bm_get (pointers s) (ns, key) of None \<Rightarrow> expected = None \<and> version = 1
       | Some p \<Rightarrow> expected = Some (p_version p) \<and> version = wadd64 (p_version p) 1"
      "\<forall>x. fr = Some x \<longrightarrow> \<not> expired_at x (clock_ms s)"
      "r = Inr (PointerSet version)"
      "s' = s\<lparr>pointers := bm_insert (ns, key) \<lparr>p_version = version, p_value = val\<rparr> (pointers s)\<rparr>"
proof (cases r)
  case (Inl e)
  have "s' = s" using assms unfolding cas_pointer_def Let_def Inl
    by (elim attemptE; simp split: if_splits; elim attemptE; simp split: option.splits if_splits)
  then show ?thesis using Inl by (rule error)
next
  case (Inr y)
  from assms obtain version where v:
    "(case (expected, bm_get (pointers s) (ns, key)) of
        (None, None) \<Rightarrow> Inr 1
      | (Some e, Some p) \<Rightarrow>
          if p_version p = e then Inr (wadd64 e 1) else Inl (VersionMismatch (bm_get (pointers s) (ns, key)))
      | _ \<Rightarrow> Inl (VersionMismatch (bm_get (pointers s) (ns, key)))) = Inr version"
    and pre: "key \<noteq> []" "ns \<in> dom (bm_get (namespaces s))" "check_collection_pointer s ns key = Inr ()"
      "check_fence_opt s f = Inr ()"
    and upd: "(case fr of
         Some f \<Rightarrow>
           if expired_at f (clock_ms s)
           then (s, Inl (StaleObject val (fr_created_at_ms f) (fr_max_age_ms f) (clock_ms s)))
           else (s\<lparr>pointers := bm_insert (ns, key) \<lparr>p_version = version, p_value = val\<rparr> (pointers s)\<rparr>,
                 Inr (PointerSet version))
       | None \<Rightarrow>
           (s\<lparr>pointers := bm_insert (ns, key) \<lparr>p_version = version, p_value = val\<rparr> (pointers s)\<rparr>,
            Inr (PointerSet version))) = (s', Inr y)"
    unfolding Inr cas_pointer_def Let_def by (auto simp: attempt_eq_Inr split: if_splits)
  show ?thesis
    by (rule set [OF pre, of version])
      (use v upd Inr in \<open>auto split: option.splits if_splits\<close>)
qed

lemma cas_pointer_error [op_errors]: "cas_pointer s ns k ex v f fr = (s', Inl e) \<Longrightarrow> s' = s"
  by (erule cas_pointer_cases) auto

lemma cas_pointer_clock [op_clock]: "cas_pointer s ns k ex v f fr = (s', r) \<Longrightarrow> clock_ms s \<le> clock_ms s'"
  by (erule cas_pointer_cases) auto

interpretation cas: fenced_op "\<lambda>s f. cas_pointer s ns k ex v f fr" for ns k ex v fr
proof unfold_locales
  fix s f e assume fence: "check_fence s f = Inl e"
  obtain s' r where eq: "cas_pointer s ns k ex v (Some f) fr = (s', r)" by fastforce
  then have "s' = s" by (rule cas_pointer_cases) (use fence in \<open>auto simp: check_fence_opt_def\<close>)
  then show "fst (cas_pointer s ns k ex v (Some f) fr) = s" using eq by simp
qed

end
