(* ===== verification/Collections.thy ===== *)
theory Collections
  imports Catalog Pointers
begin

text \<open>
  The collection catalog (\<open>loams-meta/src/state/collections.rs\<close>): collections with their
  implicit streams and links, aliases, and schema evolution; and the hot configuration
  of a collection (\<open>state/hot.rs\<close>).
\<close>

section \<open>Collections\<close>

definition MAX_ALIAS_ACTIONS :: nat where
  "MAX_ALIAS_ACTIONS = 100"

text \<open>\<open>schema.validate().map_err(|e| InvalidArgument(e.to_string()))\<close>\<close>

definition check_schema :: "CollectionSchema \<Rightarrow> ApplyError + unit" where
  "check_schema sc = (case validate sc of
     Inl e \<Rightarrow> Inl (InvalidArgument (SchemaError_to_string e)) | Inr _ \<Rightarrow> Inr ())"

definition create_collection ::
  "MetaState \<Rightarrow> NamespaceId \<Rightarrow> string \<Rightarrow> CollectionSchema \<Rightarrow> u32 \<Rightarrow> outcome" where
  "create_collection s ns name schema parts =
     (if \<not> bm_contains (namespaces s) ns then (s, Inl (NamespaceNotFound ns))
      else
        attempt s (validate_name ''collection'' name) (\<lambda>_.
        if MAX_COLLECTION_NAME_LEN < length name
        then (s, Inl (InvalidArgument (Fmt ''a collection name is at most {} bytes, got {}''
               [FNat MAX_COLLECTION_NAME_LEN, FNat (length name)])))
        else
          attempt s (refuse_reserved name) (\<lambda>_.
          attempt s (check_partitions parts) (\<lambda>_.
          attempt s (check_schema schema) (\<lambda>_.
          if sc_version schema \<noteq> 1
          then (s, Inl (InvalidArgument (Fmt ''a new collection's schema is at version 1, got {}''
                 [FNat (sc_version schema)])))
          else case Option.bind (bm_get (collection_names s) (ns, name)) (bm_get (collections s)) of
            Some existing \<Rightarrow>
              (s, Inl (if c_schema existing = schema \<and> c_partitions existing = parts
                       then CollectionExists (c_id existing) else NameTaken name))
          | None \<Rightarrow>
              if bm_contains (aliases s) (ns, name) \<or> bm_contains (alias_targets s) (ns, name)
              then (s, Inl (NameTaken name))
              else
                let cid = CollectionId (wadd64 (last_collection_id s) 1);
                    s1 = s\<lparr>last_collection_id := coll_u64 cid\<rparr>;
                    implicit = implicit_name name cid;
                    (s2, sid) = insert_stream s1 ns implicit parts Standard Retention_default;
                    (s3, lid) = insert_link s2 ns implicit sid
                      \<lparr>t_kind = COLLECTION_KIND, t_name = name\<rparr> bm_empty
                in (s3\<lparr>collection_names := bm_insert (ns, name) cid (collection_names s3),
                       collections := bm_insert cid
                         \<lparr>c_id = cid, c_namespace = ns, c_name = name, c_schema = schema,
                           c_partitions = parts, c_stream = sid, c_link = lid\<rparr> (collections s3)\<rparr>,
                    Inr (CollectionCreated cid sid lid)))))))"

section \<open>Aliases\<close>

definition alias_members_of :: "MetaState \<Rightarrow> NamespaceId \<Rightarrow> string \<Rightarrow> alias_members" where
  "alias_members_of s ns alias = (case bm_get (aliases s) (ns, alias) of
     Some cid \<Rightarrow> bm_singleton cid None
   | None \<Rightarrow> (case bm_get (alias_targets s) (ns, alias) of
       Some targets \<Rightarrow> members targets | None \<Rightarrow> bm_empty))"

definition put_alias :: "MetaState \<Rightarrow> NamespaceId \<Rightarrow> string \<Rightarrow> alias_members \<Rightarrow> MetaState" where
  "put_alias s ns alias ms =
     (let s1 = s\<lparr>aliases := bm_remove (ns, alias) (aliases s),
                 alias_targets := bm_remove (ns, alias) (alias_targets s)\<rparr>
      in case bm_iter ms of
           [] \<Rightarrow> s1
         | [(cid, None)] \<Rightarrow> s1\<lparr>aliases := bm_insert (ns, alias) cid (aliases s1)\<rparr>
         | _ \<Rightarrow> s1\<lparr>alias_targets := bm_insert (ns, alias) \<lparr>members = ms\<rparr> (alias_targets s1)\<rparr>)"

text \<open>
  The actions of \<open>UpdateAliases\<close>, collected into the changes they make: alias to its new
  target, or \<open>None\<close> to remove it.
\<close>

fun alias_changes ::
  "MetaState \<Rightarrow> NamespaceId \<Rightarrow> AliasAction list \<Rightarrow> (string, CollectionId option) btree_map
     \<Rightarrow> ApplyError + (string, CollectionId option) btree_map" where
  "alias_changes s ns [] changes = Inr changes"
| "alias_changes s ns (AliasCreate alias collection # as) changes =
     check (validate_name ''alias'' alias) (\<lambda>_.
     check (refuse_reserved alias) (\<lambda>_.
     if bm_contains (collection_names s) (ns, alias) then Inl (NameTaken alias)
     else case bm_get (collection_names s) (ns, collection) of
       None \<Rightarrow> Inl (UnknownCollection collection)
     | Some cid \<Rightarrow> alias_changes s ns as (bm_insert alias (Some cid) changes)))"
| "alias_changes s ns (AliasDelete alias # as) changes =
     alias_changes s ns as (bm_insert alias None changes)"

fun apply_alias_changes :: "MetaState \<Rightarrow> NamespaceId \<Rightarrow> (string \<times> CollectionId option) list \<Rightarrow> MetaState" where
  "apply_alias_changes s ns [] = s"
| "apply_alias_changes s ns ((alias, target) # cs) =
     apply_alias_changes
       (let s1 = s\<lparr>alias_targets := bm_remove (ns, alias) (alias_targets s)\<rparr> in
        case target of
          Some cid \<Rightarrow> s1\<lparr>aliases := bm_insert (ns, alias) cid (aliases s1)\<rparr>
        | None \<Rightarrow> s1\<lparr>aliases := bm_remove (ns, alias) (aliases s1)\<rparr>)
       ns cs"

definition check_action_count :: "nat \<Rightarrow> ApplyError + unit" where
  "check_action_count n =
     (if \<not> (1 \<le> n \<and> n \<le> MAX_ALIAS_ACTIONS)
      then Inl (InvalidArgument (Fmt ''an alias update takes 1..={} actions, got {}''
                 [FNat MAX_ALIAS_ACTIONS, FNat n]))
      else Inr ())"

definition update_aliases :: "MetaState \<Rightarrow> NamespaceId \<Rightarrow> AliasAction list \<Rightarrow> outcome" where
  "update_aliases s ns actions =
     (if \<not> bm_contains (namespaces s) ns then (s, Inl (NamespaceNotFound ns))
      else
        attempt s (check_action_count (length actions)) (\<lambda>_.
        attempt s (alias_changes s ns actions bm_empty) (\<lambda>changes.
        (apply_alias_changes s ns (bm_iter changes), Inr AliasesUpdated))))"

type_synonym working_aliases = "(string, alias_members) btree_map"

text \<open>
  \<open>working_members\<close> is the entry of an alias, seeded from the state on first use; here with
  the change the caller makes through the reference it returns.
\<close>

definition working_members ::
  "MetaState \<Rightarrow> working_aliases \<Rightarrow> NamespaceId \<Rightarrow> string \<Rightarrow> (alias_members \<Rightarrow> alias_members) \<Rightarrow> working_aliases" where
  "working_members s working ns alias change =
     bm_insert alias (change (case bm_get working alias of
       Some ms \<Rightarrow> ms | None \<Rightarrow> alias_members_of s ns alias)) working"

fun alias_target_changes ::
  "MetaState \<Rightarrow> NamespaceId \<Rightarrow> AliasTargetAction list \<Rightarrow> working_aliases \<Rightarrow> ApplyError + working_aliases" where
  "alias_target_changes s ns [] working = Inr working"
| "alias_target_changes s ns (TargetAdd alias collection is_write_index # as) working =
     check (validate_name ''alias'' alias) (\<lambda>_.
     check (refuse_reserved alias) (\<lambda>_.
     if bm_contains (collection_names s) (ns, alias) then Inl (NameTaken alias)
     else case bm_get (collection_names s) (ns, collection) of
       None \<Rightarrow> Inl (UnknownCollection collection)
     | Some cid \<Rightarrow> alias_target_changes s ns as
         (working_members s working ns alias (bm_insert cid is_write_index))))"
| "alias_target_changes s ns (TargetRemove alias collection # as) working =
     alias_target_changes s ns as
       (working_members s working ns alias
          (case bm_get (collection_names s) (ns, collection) of
             Some cid \<Rightarrow> bm_remove cid | None \<Rightarrow> (\<lambda>ms. ms)))"
| "alias_target_changes s ns (TargetRemoveAlias alias # as) working =
     alias_target_changes s ns as (working_members s working ns alias (\<lambda>_. bm_empty))"

fun join_strs :: "string \<Rightarrow> string list \<Rightarrow> string" where
  "join_strs sep [] = []"
| "join_strs sep [x] = x"
| "join_strs sep (x # y # ys) = x @ sep @ join_strs sep (y # ys)"

text \<open>The names of an alias's write indices, for the collections that exist.\<close>

definition writers :: "MetaState \<Rightarrow> alias_members \<Rightarrow> string list" where
  "writers s ms = List.map_filter (\<lambda>(cid, _). map_option c_name (bm_get (collections s) cid))
     (filter (\<lambda>(_, w). w = Some True) (bm_iter ms))"

definition check_working :: "MetaState \<Rightarrow> string \<times> alias_members \<Rightarrow> ApplyError + unit" where
  "check_working s = (\<lambda>(alias, ms).
     if MAX_ALIAS_TARGETS < bm_len ms
     then Inl (InvalidArgument (Fmt ''alias [{}] would name {} collections; the limit is {}''
                [FStr alias, FNat (bm_len ms), FNat MAX_ALIAS_TARGETS]))
     else if 1 < length (writers s ms)
     then Inl (InvalidArgument (Fmt ''alias [{}] has more than one write index [{}]''
                [FStr alias, FStr (join_strs '','' (sort (writers s ms)))]))
     else Inr ())"

fun put_aliases :: "MetaState \<Rightarrow> NamespaceId \<Rightarrow> (string \<times> alias_members) list \<Rightarrow> MetaState" where
  "put_aliases s ns [] = s"
| "put_aliases s ns ((alias, ms) # ws) = put_aliases (put_alias s ns alias ms) ns ws"

definition update_alias_targets :: "MetaState \<Rightarrow> NamespaceId \<Rightarrow> AliasTargetAction list \<Rightarrow> outcome" where
  "update_alias_targets s ns actions =
     (if \<not> bm_contains (namespaces s) ns then (s, Inl (NamespaceNotFound ns))
      else
        attempt s (check_action_count (length actions)) (\<lambda>_.
        attempt s (alias_target_changes s ns actions bm_empty) (\<lambda>working.
        attempt s (check_all (check_working s) (bm_iter working)) (\<lambda>_.
        (put_aliases s ns (bm_iter working), Inr AliasesUpdated)))))"

section \<open>Dropping a collection\<close>

text \<open>The aliases with several members that name a collection, and the loop that leaves them.\<close>

definition aliases_naming :: "MetaState \<Rightarrow> CollectionId \<Rightarrow> (NamespaceId \<times> string) list" where
  "aliases_naming s cid =
     map fst (filter (\<lambda>(_, targets). bm_contains (members targets) cid) (bm_iter (alias_targets s)))"

fun leave_aliases :: "MetaState \<Rightarrow> CollectionId \<Rightarrow> (NamespaceId \<times> string) list \<Rightarrow> MetaState" where
  "leave_aliases s cid [] = s"
| "leave_aliases s cid ((ns, alias) # keys) =
     leave_aliases (put_alias s ns alias (bm_remove cid (alias_members_of s ns alias))) cid keys"

definition drop_collection :: "MetaState \<Rightarrow> NamespaceId \<Rightarrow> string \<Rightarrow> u64 \<Rightarrow> outcome" where
  "drop_collection s ns name now_ms =
     (let s0 = s\<lparr>clock_ms := max (clock_ms s) now_ms\<rparr> in
      case bm_get (collection_names s0) (ns, name) of
        None \<Rightarrow> (s0, Inr (CollectionDropped None))
      | Some cid \<Rightarrow>
          let s1 = s0\<lparr>collection_names := bm_remove (ns, name) (collection_names s0)\<rparr> in
          case bm_get (collections s1) cid of
            None \<Rightarrow> (s1, Inr (CollectionDropped None))
          | Some c \<Rightarrow>
              let s2 = s1\<lparr>collections := bm_remove cid (collections s1)\<rparr>;
                  s3 = s2\<lparr>aliases := bm_retain (\<lambda>_ target. target \<noteq> cid) (aliases s2)\<rparr>;
                  s4 = leave_aliases s3 cid (aliases_naming s3 cid);
                  s5 = s4\<lparr>collection_hot := bm_remove cid (collection_hot s4)\<rparr>;
                  s6 = remove_stream s5 (c_stream c);
                  s7 = remove_link s6 (c_link c);
                  s8 = s7\<lparr>pointers := bm_remove (ns, collection_pointer_key cid) (pointers s7)\<rparr>;
                  s9 = s8\<lparr>retired := bm_insert (collection_prefix ns cid) (clock_ms s8) (retired s8)\<rparr>;
                  s10 = s9\<lparr>retired := bm_insert (collection_pk_prefix ns cid) (clock_ms s9) (retired s9)\<rparr>
              in (s10, Inr (CollectionDropped (Some cid))))"

section \<open>Schema evolution and hot configuration\<close>

definition update_collection_schema ::
  "MetaState \<Rightarrow> CollectionId \<Rightarrow> u64 \<Rightarrow> CollectionSchema \<Rightarrow> outcome" where
  "update_collection_schema s cid expected_version schema =
     attempt s (ok_or (bm_get (collections s) cid) (CollectionNotFound cid)) (\<lambda>c.
     let current = c_schema c in
     attempt s (check_schema schema) (\<lambda>_.
     if checked_add64 expected_version 1 = Some (sc_version current) \<and> same_ignoring_version current schema
     then (s, Inr (SchemaUpdated (sc_version current)))
     else if sc_version current \<noteq> expected_version
     then (s, Inl (SchemaVersionMismatch cid (sc_version current)))
     else
       attempt s (case check_additive current schema of
           Inl e \<Rightarrow> Inl (IncompatibleSchema (schema_message e)) | Inr u \<Rightarrow> Inr u) (\<lambda>_.
       attempt s (ok_or (checked_add64 expected_version 1)
           (InvalidArgument (Fmt ''the schema version cannot grow past u64::MAX'' []))) (\<lambda>version.
       attempt s (ok_or (bm_get (collections s) cid) (CollectionNotFound cid)) (\<lambda>stored.
       (s\<lparr>collections := bm_insert cid (stored\<lparr>c_schema := schema\<lparr>sc_version := version\<rparr>\<rparr>)
            (collections s)\<rparr>,
        Inr (SchemaUpdated version)))))))"

definition set_collection_hot :: "MetaState \<Rightarrow> CollectionId \<Rightarrow> HotConfig \<Rightarrow> outcome" where
  "set_collection_hot s cid hot =
     (if \<not> bm_contains (collections s) cid then (s, Inl (CollectionNotFound cid))
      else (s\<lparr>collection_hot :=
                (if hot_any hot then bm_insert cid hot (collection_hot s)
                 else bm_remove cid (collection_hot s))\<rparr>,
            Inr CollectionHotSet))"

definition collection_hot_of :: "MetaState \<Rightarrow> CollectionId \<Rightarrow> HotConfig" where
  "collection_hot_of s cid =
     (case bm_get (collection_hot s) cid of Some hot \<Rightarrow> hot | None \<Rightarrow> HotConfig_default)"

definition hot_collections :: "MetaState \<Rightarrow> (CollectionId \<times> HotConfig) list" where
  "hot_collections s = bm_iter (collection_hot s)"

section \<open>Lookups\<close>

datatype NameTarget =
    TargetCollection Collection
  | TargetAlias "CollectionId option" "(Collection \<times> bool option) list"

definition collection :: "MetaState \<Rightarrow> CollectionId \<Rightarrow> Collection option" where
  "collection s cid = bm_get (collections s) cid"

definition collection_by_name :: "MetaState \<Rightarrow> NamespaceId \<Rightarrow> string \<Rightarrow> Collection option" where
  "collection_by_name s ns name =
     Option.bind (bm_get (collection_names s) (ns, name)) (bm_get (collections s))"

definition collections_of :: "MetaState \<Rightarrow> NamespaceId \<Rightarrow> Collection list" where
  "collections_of s ns = filter (\<lambda>c. c_namespace c = ns) (bm_values (collections s))"

text \<open>\<open>Option::or_else\<close>\<close>

definition or_else :: "'a option \<Rightarrow> 'a option \<Rightarrow> 'a option" where
  "or_else a b = (case a of Some x \<Rightarrow> Some x | None \<Rightarrow> b)"

definition resolve_collection :: "MetaState \<Rightarrow> NamespaceId \<Rightarrow> string \<Rightarrow> Collection option" where
  "resolve_collection s ns name =
     Option.bind
       (or_else (bm_get (collection_names s) (ns, name))
       (or_else (bm_get (aliases s) (ns, name))
         (Option.bind (bm_get (alias_targets s) (ns, name)) (\<lambda>targets.
            case bm_keys (members targets) of [cid] \<Rightarrow> Some cid | _ \<Rightarrow> None))))
       (bm_get (collections s))"

definition resolve_name :: "MetaState \<Rightarrow> NamespaceId \<Rightarrow> string \<Rightarrow> NameTarget option" where
  "resolve_name s ns name = (case collection_by_name s ns name of
     Some c \<Rightarrow> Some (TargetCollection c)
   | None \<Rightarrow>
       let ms = alias_members_of s ns name in
       if bm_is_empty ms then None
       else Some (TargetAlias (write_target \<lparr>members = ms\<rparr>)
              (List.map_filter (\<lambda>(cid, w). map_option (\<lambda>c. (c, w)) (bm_get (collections s) cid))
                 (bm_iter ms))))"

definition aliases_of :: "MetaState \<Rightarrow> NamespaceId \<Rightarrow> (string \<times> CollectionId) list" where
  "aliases_of s ns = sort
     (map (\<lambda>((_, alias), cid). (alias, cid))
        (takeWhile (\<lambda>((n, _), _). n = ns) (bm_range_from (aliases s) (ns, [])))
      @ concat (map (\<lambda>((_, alias), targets). map (Pair alias) (bm_keys (members targets)))
        (takeWhile (\<lambda>((n, _), _). n = ns) (bm_range_from (alias_targets s) (ns, [])))))"

definition alias_targets_of :: "MetaState \<Rightarrow> NamespaceId \<Rightarrow> (string \<times> AliasTargets) list" where
  "alias_targets_of s ns = sort_key fst
     (map (\<lambda>((_, alias), cid). (alias, \<lparr>members = bm_singleton cid None\<rparr>))
        (takeWhile (\<lambda>((n, _), _). n = ns) (bm_range_from (aliases s) (ns, [])))
      @ map (\<lambda>((_, alias), targets). (alias, targets))
        (takeWhile (\<lambda>((n, _), _). n = ns) (bm_range_from (alias_targets s) (ns, []))))"

definition collection_for_link :: "MetaState \<Rightarrow> LinkId \<Rightarrow> Collection option" where
  "collection_for_link s lid = (case bm_get (links s) lid of
     None \<Rightarrow> None
   | Some l \<Rightarrow>
       if t_kind (l_target l) \<noteq> COLLECTION_KIND then None
       else (case collection_by_name s (l_namespace l) (t_name (l_target l)) of
           Some c \<Rightarrow> if c_link c = l_id l then Some c else None
         | None \<Rightarrow> None))"

lemmas collection_op_defs = create_collection_def drop_collection_def update_collection_schema_def
  update_aliases_def update_alias_targets_def set_collection_hot_def

declare collection_op_defs [state_simps]

section \<open>Errors and the clock\<close>

lemma create_collection_cases:
  assumes "create_collection s ns name schema parts = (s', r)"
  obtains (error) e where "s' = s" "r = Inl e"
  | (created) cid s2 sid s3 lid where
      "ns \<in> dom (bm_get (namespaces s))" "validate_name ''collection'' name = Inr ()"
      "length name \<le> MAX_COLLECTION_NAME_LEN" "\<not> prefix ''_'' name" "1 \<le> parts" "parts \<le> MAX_PARTITIONS"
      "validate schema = Inr ()" "sc_version schema = 1"
      "Option.bind (bm_get (collection_names s) (ns, name)) (bm_get (collections s)) = None"
      "bm_get (aliases s) (ns, name) = None" "bm_get (alias_targets s) (ns, name) = None"
      "cid = CollectionId (wadd64 (last_collection_id s) 1)"
      "insert_stream (s\<lparr>last_collection_id := coll_u64 cid\<rparr>) ns (implicit_name name cid) parts Standard Retention_default
         = (s2, sid)"
      "insert_link s2 ns (implicit_name name cid) sid \<lparr>t_kind = COLLECTION_KIND, t_name = name\<rparr> bm_empty = (s3, lid)"
      "r = Inr (CollectionCreated cid sid lid)"
      "s' = s3\<lparr>collection_names := bm_insert (ns, name) cid (collection_names s3),
         collections := bm_insert cid \<lparr>c_id = cid, c_namespace = ns, c_name = name, c_schema = schema,
           c_partitions = parts, c_stream = sid, c_link = lid\<rparr> (collections s3)\<rparr>"
proof (cases r)
  case (Inl e)
  have "s' = s" using assms unfolding create_collection_def Let_def Inl
    by (simp split: if_splits; elim attemptE; simp split: if_splits; elim attemptE;
        simp split: if_splits option.splits prod.splits)
  then show ?thesis using Inl by (rule error)
next
  case (Inr y)
  let ?cid = "CollectionId (wadd64 (last_collection_id s) 1)"
  obtain s2 sid where st: "insert_stream (s\<lparr>last_collection_id := coll_u64 ?cid\<rparr>) ns (implicit_name name ?cid) parts
    Standard Retention_default = (s2, sid)" by fastforce
  obtain s3 lid where li: "insert_link s2 ns (implicit_name name ?cid) sid
    \<lparr>t_kind = COLLECTION_KIND, t_name = name\<rparr> bm_empty = (s3, lid)" by fastforce
  have chk: "check_schema schema = Inr u \<longleftrightarrow> validate schema = Inr ()" for u
    by (auto simp: check_schema_def split: sum.splits)
  show ?thesis
    by (rule created [OF _ _ _ _ _ _ _ _ _ _ _ refl st li])
      (use assms st li Inr in \<open>auto simp: create_collection_def Let_def attempt_eq_Inr chk domIff
        split: if_splits option.splits\<close>)
qed

lemma create_collection_error [op_errors]: "create_collection s ns n sc p = (s', Inl e) \<Longrightarrow> s' = s"
  by (erule create_collection_cases) auto

lemma drop_collection_error [op_errors]: "drop_collection s ns n now = (s', Inl e) \<Longrightarrow> s' = s"
  by (auto simp: drop_collection_def Let_def split: option.splits)

lemma update_collection_schema_cases:
  assumes "update_collection_schema s cid ver schema = (s', r)"
  obtains (error) e where "s' = s" "r = Inl e"
  | (retry) c where "s' = s" "bm_get (collections s) cid = Some c" "validate schema = Inr ()"
      "sc_version (c_schema c) = ver + 1" "same_ignoring_version (c_schema c) schema"
      "r = Inr (SchemaUpdated (sc_version (c_schema c)))"
  | (updated) c where "bm_get (collections s) cid = Some c" "validate schema = Inr ()"
      "sc_version (c_schema c) = ver" "check_additive (c_schema c) schema = Inr ()" "ver + 1 \<le> U64_MAX"
      "r = Inr (SchemaUpdated (ver + 1))"
      "s' = s\<lparr>collections := bm_insert cid (c\<lparr>c_schema := schema\<lparr>sc_version := ver + 1\<rparr>\<rparr>) (collections s)\<rparr>"
proof (cases "bm_get (collections s) cid")
  case None
  then show ?thesis using assms error by (auto simp: update_collection_schema_def)
next
  case (Some c)
  have chk: "check_schema schema = Inr u \<longleftrightarrow> validate schema = Inr ()" for u
    by (auto simp: check_schema_def split: sum.splits)
  let ?retry = "checked_add64 ver 1 = Some (sc_version (c_schema c)) \<and> same_ignoring_version (c_schema c) schema"
  show ?thesis
  proof (cases "validate schema")
    case (Inl e)
    then show ?thesis using assms Some error by (auto simp: update_collection_schema_def check_schema_def)
  next
    case (Inr u)
    have eq: "update_collection_schema s cid ver schema =
      (if ?retry then (s, Inr (SchemaUpdated (sc_version (c_schema c))))
       else if sc_version (c_schema c) \<noteq> ver then (s, Inl (SchemaVersionMismatch cid (sc_version (c_schema c))))
       else case check_additive (c_schema c) schema of
         Inl e \<Rightarrow> (s, Inl (IncompatibleSchema (schema_message e)))
       | Inr _ \<Rightarrow> (case checked_add64 ver 1 of
           None \<Rightarrow> (s, Inl (InvalidArgument (Fmt ''the schema version cannot grow past u64::MAX'' [])))
         | Some v \<Rightarrow> (s\<lparr>collections := bm_insert cid (c\<lparr>c_schema := schema\<lparr>sc_version := v\<rparr>\<rparr>) (collections s)\<rparr>,
             Inr (SchemaUpdated v))))"
      using Some Inr by (simp add: update_collection_schema_def check_schema_def Let_def checked_add64_def split: sum.split)
    show ?thesis
    proof (cases ?retry)
      case True
      then show ?thesis using assms eq Inr by (intro retry [OF _ Some]) auto
    next
      case False
      show ?thesis
      proof (cases "sc_version (c_schema c) = ver \<and> check_additive (c_schema c) schema = Inr () \<and> ver + 1 \<le> U64_MAX")
        case True
        then show ?thesis using assms eq Inr False by (intro updated [OF Some]) (simp_all add: checked_add64_def)
      next
        case fail: False
        have "\<exists>e. s' = s \<and> r = Inl e"
          using assms eq False fail by (auto simp: checked_add64_def split: if_splits sum.splits)
        then show ?thesis using error by blast
      qed
    qed
  qed
qed

lemma update_collection_schema_error [op_errors]: "update_collection_schema s cid v sc = (s', Inl e) \<Longrightarrow> s' = s"
  by (erule update_collection_schema_cases) auto

lemma update_aliases_error [op_errors]: "update_aliases s ns as = (s', Inl e) \<Longrightarrow> s' = s"
  by (auto simp: update_aliases_def elim!: attemptE split: if_splits)

lemma update_alias_targets_error [op_errors]: "update_alias_targets s ns as = (s', Inl e) \<Longrightarrow> s' = s"
  by (auto simp: update_alias_targets_def elim!: attemptE split: if_splits)

lemma set_collection_hot_error [op_errors]: "set_collection_hot s cid h = (s', Inl e) \<Longrightarrow> s' = s"
  by (auto simp: set_collection_hot_def split: if_splits)

lemma put_alias_clock [simp]: "clock_ms (put_alias s ns a ms) = clock_ms s"
  by (simp add: put_alias_def Let_def split: list.split prod.split option.split)

lemma put_aliases_clock [simp]: "clock_ms (put_aliases s ns ws) = clock_ms s"
  by (induction s ns ws rule: put_aliases.induct) simp_all

lemma leave_aliases_clock [simp]: "clock_ms (leave_aliases s cid keys) = clock_ms s"
  by (induction s cid keys rule: leave_aliases.induct) simp_all

lemma apply_alias_changes_clock [simp]: "clock_ms (apply_alias_changes s ns cs) = clock_ms s"
  by (induction s ns cs rule: apply_alias_changes.induct) (simp_all add: Let_def split: option.split)

lemma create_collection_clock [op_clock]: "create_collection s ns n sc p = (s', r) \<Longrightarrow> clock_ms s \<le> clock_ms s'"
  by (erule create_collection_cases) (auto dest!: insert_stream_clock insert_link_clock)

lemma drop_collection_clock [op_clock]: "drop_collection s ns n now = (s', r) \<Longrightarrow> clock_ms s \<le> clock_ms s'"
  by (auto simp: drop_collection_def Let_def split: option.splits)

lemma update_collection_schema_clock [op_clock]:
  "update_collection_schema s cid v sc = (s', r) \<Longrightarrow> clock_ms s \<le> clock_ms s'"
  by (erule update_collection_schema_cases) auto

lemma update_aliases_clock [op_clock]: "update_aliases s ns as = (s', r) \<Longrightarrow> clock_ms s \<le> clock_ms s'"
  by (auto simp: update_aliases_def elim!: attemptE split: if_splits)

lemma update_alias_targets_clock [op_clock]: "update_alias_targets s ns as = (s', r) \<Longrightarrow> clock_ms s \<le> clock_ms s'"
  by (auto simp: update_alias_targets_def elim!: attemptE split: if_splits)

lemma set_collection_hot_clock [op_clock]: "set_collection_hot s cid h = (s', r) \<Longrightarrow> clock_ms s \<le> clock_ms s'"
  by (auto simp: set_collection_hot_def split: if_splits)

end
