(* ===== verification/AliasInv.thy ===== *)
theory AliasInv
  imports Collections
begin

text \<open>
  The two alias maps as one: \<open>alias_members_of\<close> reads the members of an alias from
  whichever map holds it, and every operation is shown to be a function update of that
  view. The maps stay in canonical form: an alias is in at most one of them, in
  \<open>aliases\<close> exactly when it is one unset member.
\<close>

section \<open>Canonical form\<close>

definition canonical_members :: "alias_members \<Rightarrow> bool" where
  "canonical_members ms \<longleftrightarrow> (case bm_iter ms of [] \<Rightarrow> False | [(_, None)] \<Rightarrow> False | _ \<Rightarrow> True)"

definition alias_canonical :: "MetaState \<Rightarrow> bool" where
  "alias_canonical s \<longleftrightarrow> (\<forall>k t. bm_get (alias_targets s) k = Some t \<longrightarrow>
     bm_get (aliases s) k = None \<and> canonical_members (members t))"

lemma bm_iter_Nil_iff [simp]: "bm_iter m = [] \<longleftrightarrow> m = bm_empty"
  by (metis bm_iter_inject bm_iter_empty)

lemma bm_iter_singleton [simp]: "bm_iter (bm_singleton k v) = [(k, v)]"
  by (simp add: bm_singleton_def bm_iter_insert_last)

lemma bm_iter_single_iff: "bm_iter m = [(k, v)] \<longleftrightarrow> m = bm_singleton k v"
  by (metis bm_iter_inject bm_iter_singleton)

lemma bm_get_singleton [simp]: "bm_get (bm_singleton k v) = [k \<mapsto> v]"
  by (simp add: bm_singleton_def)

lemma bm_insert_remove [simp]: "bm_insert k v (bm_remove k m) = bm_insert k v m"
  by (rule bm_eqI) simp

lemma canonical_members_simps [simp]:
  "\<not> canonical_members bm_empty" "\<not> canonical_members (bm_singleton cid None)"
  by (simp_all add: canonical_members_def)

lemma members_cases:
  obtains (empty) "ms = bm_empty" | (single) cid where "ms = bm_singleton cid None" | (multi) "canonical_members ms"
proof (cases "bm_iter ms")
  case Nil
  then show ?thesis using empty by simp
next
  case (Cons x xs)
  obtain cid w where x: "x = (cid, w)" by (cases x)
  show ?thesis
  proof (cases "xs = [] \<and> w = None")
    case True
    then show ?thesis using Cons x single by (auto simp: bm_iter_single_iff)
  next
    case False
    then show ?thesis using Cons x multi
      by (auto simp: canonical_members_def split: list.splits option.splits)
  qed
qed

lemma put_alias_simps:
  "put_alias s ns a bm_empty = s\<lparr>aliases := bm_remove (ns, a) (aliases s),
     alias_targets := bm_remove (ns, a) (alias_targets s)\<rparr>"
  "put_alias s ns a (bm_singleton cid None) = s\<lparr>aliases := bm_insert (ns, a) cid (aliases s),
     alias_targets := bm_remove (ns, a) (alias_targets s)\<rparr>"
  "canonical_members ms \<Longrightarrow> put_alias s ns a ms = s\<lparr>aliases := bm_remove (ns, a) (aliases s),
     alias_targets := bm_insert (ns, a) \<lparr>members = ms\<rparr> (alias_targets s)\<rparr>"
proof -
  assume "canonical_members ms"
  then consider cid b where "bm_iter ms = [(cid, Some b)]" | cid w y xs where "bm_iter ms = (cid, w) # y # xs"
    by (auto simp: canonical_members_def split: list.splits option.splits)
  then show "put_alias s ns a ms = s\<lparr>aliases := bm_remove (ns, a) (aliases s),
     alias_targets := bm_insert (ns, a) \<lparr>members = ms\<rparr> (alias_targets s)\<rparr>"
  proof cases
    case (2 cid w y xs)
    then show ?thesis by (cases w) (simp_all add: put_alias_def Let_def)
  qed (simp add: put_alias_def Let_def)
qed (simp_all add: put_alias_def Let_def)

lemma put_alias_members [simp]:
  "alias_members_of (put_alias s ns a ms) ns' a' = (if ns' = ns \<and> a' = a then ms else alias_members_of s ns' a')"
  by (cases ms rule: members_cases) (auto simp: put_alias_simps alias_members_of_def cong: option.case_cong)

lemma alias_canonicalD:
  "alias_canonical s \<Longrightarrow> bm_get (alias_targets s) k = Some t \<Longrightarrow> bm_get (aliases s) k = None \<and> canonical_members (members t)"
  unfolding alias_canonical_def by blast

lemma put_alias_canonical [simp]:
  assumes "alias_canonical s"
  shows "alias_canonical (put_alias s ns a ms)"
proof -
  have "bm_get (aliases (put_alias s ns a ms)) k = None \<and> canonical_members (members t)"
    if "bm_get (alias_targets (put_alias s ns a ms)) k = Some t" for k t
    using that alias_canonicalD [OF assms, of k t]
    by (cases ms rule: members_cases) (auto simp: put_alias_simps split: if_splits)
  then show ?thesis unfolding alias_canonical_def by blast
qed

lemma bm_singleton_inject [simp]: "bm_singleton j u = bm_singleton k v \<longleftrightarrow> j = k \<and> u = v"
  by (metis Pair_inject bm_iter_singleton list.inject)

lemma bm_singleton_ne [simp]: "bm_singleton k v \<noteq> bm_empty" "bm_empty \<noteq> bm_singleton k v"
  by (metis bm_iter_empty bm_iter_singleton list.distinct(1))+

lemma alias_canonical_view:
  assumes "alias_canonical s"
  shows "bm_get (aliases s) (ns, a) = Some cid \<longleftrightarrow> alias_members_of s ns a = bm_singleton cid None"
    and "bm_get (alias_targets s) (ns, a) = Some t \<longleftrightarrow>
      alias_members_of s ns a = members t \<and> canonical_members (members t)"
proof -
  note D = alias_canonicalD [OF assms, of "(ns, a)"]
  show "bm_get (aliases s) (ns, a) = Some cid \<longleftrightarrow> alias_members_of s ns a = bm_singleton cid None"
    using D by (cases "bm_get (aliases s) (ns, a)"; cases "bm_get (alias_targets s) (ns, a)")
      (auto simp: alias_members_of_def dest: sym)
  show "bm_get (alias_targets s) (ns, a) = Some t \<longleftrightarrow>
      alias_members_of s ns a = members t \<and> canonical_members (members t)"
    using D [of t] by (cases "bm_get (aliases s) (ns, a)"; cases "bm_get (alias_targets s) (ns, a)")
      (auto simp: alias_members_of_def dest: sym intro: AliasTargets.equality)
qed

section \<open>Frames\<close>

definition same_but_aliases :: "MetaState \<Rightarrow> MetaState \<Rightarrow> bool" where
  "same_but_aliases s s' \<longleftrightarrow> s' = s\<lparr>aliases := aliases s', alias_targets := alias_targets s'\<rparr>"

lemma same_but_aliases_refl [simp]: "same_but_aliases s s"
  by (simp add: same_but_aliases_def)

lemma same_but_aliases_trans: "same_but_aliases a b \<Longrightarrow> same_but_aliases b c \<Longrightarrow> same_but_aliases a c"
  by (cases a; cases b; cases c) (simp add: same_but_aliases_def)

lemma put_alias_same [simp]: "same_but_aliases s (put_alias s ns alias ms)"
  by (cases ms rule: members_cases) (simp_all add: put_alias_simps same_but_aliases_def)

lemma same_but_aliasesD:
  assumes "same_but_aliases s s'"
  obtains al at where "s' = s\<lparr>aliases := al, alias_targets := at\<rparr>"
  using assms unfolding same_but_aliases_def by blast

section \<open>What the alias operations do\<close>

lemma put_aliases_same: "same_but_aliases s (put_aliases s ns ws)"
  by (induction s ns ws rule: put_aliases.induct) (auto intro: same_but_aliases_trans [OF put_alias_same])

lemma put_aliases_canonical: "alias_canonical s \<Longrightarrow> alias_canonical (put_aliases s ns ws)"
  by (induction s ns ws rule: put_aliases.induct) auto

lemma put_aliases_members:
  "distinct (map fst ws) \<Longrightarrow> alias_members_of (put_aliases s ns ws) ns' a
     = (if ns' = ns then (case map_of ws a of Some ms \<Rightarrow> ms | None \<Rightarrow> alias_members_of s ns' a)
        else alias_members_of s ns' a)"
  by (induction s ns ws rule: put_aliases.induct) (auto simp: map_of_eq_None_iff [symmetric] split: option.splits)

text \<open>A change of \<open>UpdateAliases\<close> puts one unset member, or none.\<close>

definition change_members :: "CollectionId option \<Rightarrow> alias_members" where
  "change_members target = (case target of Some cid \<Rightarrow> bm_singleton cid None | None \<Rightarrow> bm_empty)"

lemma apply_alias_changes_eq:
  "apply_alias_changes s ns cs = put_aliases s ns (map (\<lambda>(a, target). (a, change_members target)) cs)"
proof (induction s ns cs rule: apply_alias_changes.induct)
  case (2 s ns a target cs)
  have "(let s1 = s\<lparr>alias_targets := bm_remove (ns, a) (alias_targets s)\<rparr> in
        case target of
          Some cid \<Rightarrow> s1\<lparr>aliases := bm_insert (ns, a) cid (aliases s1)\<rparr>
        | None \<Rightarrow> s1\<lparr>aliases := bm_remove (ns, a) (aliases s1)\<rparr>) = put_alias s ns a (change_members target)"
    by (cases target) (simp_all add: put_alias_simps change_members_def)
  then show ?case using "2.IH" by simp
qed simp

lemma leave_aliases_same: "same_but_aliases s (leave_aliases s cid keys)"
  by (induction s cid keys rule: leave_aliases.induct) (auto intro: same_but_aliases_trans [OF put_alias_same])

lemma leave_aliases_canonical: "alias_canonical s \<Longrightarrow> alias_canonical (leave_aliases s cid keys)"
  by (induction s cid keys rule: leave_aliases.induct) auto

lemma bm_remove_twice [simp]: "bm_remove k (bm_remove k m) = bm_remove k m"
  by (rule bm_eqI) simp

lemma leave_aliases_members:
  "alias_members_of (leave_aliases s cid keys) ns a
     = (if (ns, a) \<in> set keys then bm_remove cid (alias_members_of s ns a) else alias_members_of s ns a)"
  by (induction s cid keys rule: leave_aliases.induct) auto

lemma aliases_naming_iff:
  "(ns, a) \<in> set (aliases_naming s cid) \<longleftrightarrow>
     (\<exists>t. bm_get (alias_targets s) (ns, a) = Some t \<and> bm_get (members t) cid \<noteq> None)"
  by (force simp: aliases_naming_def bm_iter_get [symmetric] domIff)

text \<open>Dropping the single-member aliases of a collection and leaving the others removes it everywhere.\<close>

definition forget_member :: "MetaState \<Rightarrow> CollectionId \<Rightarrow> MetaState" where
  "forget_member s cid =
     (let s3 = s\<lparr>aliases := bm_retain (\<lambda>_ target. target \<noteq> cid) (aliases s)\<rparr>
      in leave_aliases s3 cid (aliases_naming s3 cid))"

lemma forget_member_same: "same_but_aliases s (forget_member s cid)"
  by (auto simp: forget_member_def Let_def same_but_aliases_def
      intro: same_but_aliases_trans [OF _ leave_aliases_same, unfolded same_but_aliases_def])

lemma forget_member_canonical: "alias_canonical s \<Longrightarrow> alias_canonical (forget_member s cid)"
  unfolding forget_member_def Let_def
  by (rule leave_aliases_canonical) (auto simp: alias_canonical_def bm_get_retain split: option.splits)

lemma forget_member_members:
  assumes "alias_canonical s"
  shows "alias_members_of (forget_member s cid) ns a = bm_remove cid (alias_members_of s ns a)"
proof -
  let ?s = "s\<lparr>aliases := bm_retain (\<lambda>_ target. target \<noteq> cid) (aliases s)\<rparr>"
  have single: "bm_remove cid (bm_singleton c None) = (if c = cid then bm_empty else bm_singleton c None)" for c
    by (rule bm_eqI) (auto simp: fun_eq_iff)
  have eq: "alias_members_of (forget_member s cid) ns a =
    (if \<exists>t. bm_get (alias_targets s) (ns, a) = Some t \<and> bm_get (members t) cid \<noteq> None
     then bm_remove cid (alias_members_of ?s ns a) else alias_members_of ?s ns a)"
    by (simp add: forget_member_def Let_def leave_aliases_members aliases_naming_iff)
  show ?thesis
  proof (cases "bm_get (aliases s) (ns, a)")
    case (Some c)
    then have "bm_get (alias_targets s) (ns, a) = None"
      using alias_canonicalD [OF assms, of "(ns, a)"] by (cases "bm_get (alias_targets s) (ns, a)") auto
    then show ?thesis using Some unfolding eq by (simp add: alias_members_of_def bm_get_retain single)
  next
    case None
    then show ?thesis unfolding eq
      by (cases "bm_get (alias_targets s) (ns, a)") (simp_all add: alias_members_of_def bm_get_retain)
  qed
qed

section \<open>The alias invariant\<close>

text \<open>
  Relative to the collections of each namespace and the names they take: every member is a
  collection of its alias's namespace, an alias does not have a collection's name, and
  neither limit is passed.
\<close>

definition write_count :: "alias_members \<Rightarrow> nat" where
  "write_count ms = length (filter (\<lambda>(_, w). w = Some True) (bm_iter ms))"

definition members_ok :: "(CollectionId \<Rightarrow> bool) \<Rightarrow> bool \<Rightarrow> alias_members \<Rightarrow> bool" where
  "members_ok is_coll taken ms \<longleftrightarrow>
     (\<forall>cid w. bm_get ms cid = Some w \<longrightarrow> is_coll cid \<and> \<not> taken)
     \<and> bm_len ms \<le> MAX_ALIAS_TARGETS \<and> write_count ms \<le> 1"

definition alias_ok :: "(NamespaceId \<Rightarrow> CollectionId \<Rightarrow> bool) \<Rightarrow> (NamespaceId \<Rightarrow> string \<Rightarrow> bool) \<Rightarrow> MetaState \<Rightarrow> bool" where
  "alias_ok cols taken s \<longleftrightarrow>
     alias_canonical s \<and> (\<forall>ns a. members_ok (cols ns) (taken ns a) (alias_members_of s ns a))"

lemma members_ok_empty [simp]: "members_ok is_coll taken bm_empty"
  by (simp add: members_ok_def bm_len_def write_count_def)

lemma members_ok_singleton [simp]: "members_ok is_coll taken (bm_singleton cid None) \<longleftrightarrow> is_coll cid \<and> \<not> taken"
  by (simp add: members_ok_def bm_len_def write_count_def MAX_ALIAS_TARGETS_def)

lemma filter_filter_le: "length (filter P (filter Q xs)) \<le> length (filter P xs)"
  by (induction xs) auto

lemma members_ok_remove:
  assumes "members_ok is_coll taken ms" "\<And>c w. bm_get ms c = Some w \<Longrightarrow> c \<noteq> cid \<Longrightarrow> is_coll c \<Longrightarrow> is_coll' c"
    "taken' \<Longrightarrow> taken"
  shows "members_ok is_coll' taken' (bm_remove cid ms)"
proof -
  have "bm_len (bm_remove cid ms) \<le> bm_len ms" "write_count (bm_remove cid ms) \<le> write_count ms"
    unfolding bm_len_def write_count_def bm_iter_remove
    by (rule length_filter_le, rule filter_filter_le)
  then show ?thesis using assms unfolding members_ok_def by (auto split: if_splits)
qed

lemma alias_ok_put: "alias_ok cols taken s \<Longrightarrow> members_ok (cols ns) (taken ns a) ms \<Longrightarrow> alias_ok cols taken (put_alias s ns a ms)"
  by (simp add: alias_ok_def)

lemma alias_ok_put_aliases:
  "alias_ok cols taken s \<Longrightarrow> (\<And>a ms. (a, ms) \<in> set ws \<Longrightarrow> members_ok (cols ns) (taken ns a) ms) \<Longrightarrow>
     alias_ok cols taken (put_aliases s ns ws)"
  by (induction s ns ws rule: put_aliases.induct) (simp_all add: alias_ok_put)

lemma alias_ok_forget:
  assumes "alias_ok cols taken s"
    "\<And>ns c. c \<noteq> cid \<Longrightarrow> cols ns c \<Longrightarrow> cols' ns c" "\<And>ns a. taken' ns a \<Longrightarrow> taken ns a"
  shows "alias_ok cols' taken' (forget_member s cid)"
  using assms forget_member_canonical forget_member_members
  by (auto simp: alias_ok_def intro!: members_ok_remove)

lemma alias_members_of_frame:
  "aliases s' = aliases s \<Longrightarrow> alias_targets s' = alias_targets s \<Longrightarrow> alias_members_of s' = alias_members_of s"
  by (intro ext) (simp add: alias_members_of_def cong: option.case_cong)

lemma alias_ok_frame:
  assumes "alias_ok cols taken s" "aliases s' = aliases s" "alias_targets s' = alias_targets s"
  shows "alias_ok cols taken s'"
  using assms(1) by (simp add: alias_ok_def alias_canonical_def assms(2,3) alias_members_of_frame [OF assms(2,3)])

lemma alias_ok_mono:
  assumes "alias_ok cols taken s" "aliases s' = aliases s" "alias_targets s' = alias_targets s"
    "\<And>ns c. cols ns c \<Longrightarrow> cols' ns c"
    "\<And>ns a. taken' ns a \<Longrightarrow> \<not> taken ns a \<Longrightarrow> alias_members_of s ns a = bm_empty"
  shows "alias_ok cols' taken' s'"
proof -
  have "members_ok (cols' ns) (taken' ns a) (alias_members_of s ns a)" for ns a
  proof (cases "taken' ns a \<and> \<not> taken ns a")
    case True
    then show ?thesis using assms(5) [of ns a] by simp
  next
    case False
    have "members_ok (cols ns) (taken ns a) (alias_members_of s ns a)" using assms(1) by (simp add: alias_ok_def)
    then show ?thesis using False assms(4) [of ns] unfolding members_ok_def by blast
  qed
  then show ?thesis using assms(1)
    by (simp add: alias_ok_def alias_canonical_def assms(2,3) alias_members_of_frame [OF assms(2,3)])
qed

end
