(* ===== verification/NamedTable.thy ===== *)
theory NamedTable
  imports BTreeMap
begin

text \<open>
  The contract of a catalog table. Namespaces, streams, links and collections are each
  kept in a table by id and an index from names to ids, with a counter of the last id
  given out. \<open>table_ok\<close> says that the two maps agree both ways, that every row knows its
  id, and that no id is above the counter; the interface \<open>named_table\<close> proves once what
  adding a row under a fresh id, changing a row and removing a row do to it.
\<close>

definition table_ok ::
  "('x \<Rightarrow> 'k) \<Rightarrow> ('x \<Rightarrow> 'i) \<Rightarrow> ('i \<Rightarrow> nat)
     \<Rightarrow> ('k::linorder, 'i::linorder) btree_map \<Rightarrow> ('i, 'x) btree_map \<Rightarrow> nat \<Rightarrow> bool" where
  "table_ok key ident num names tbl cnt \<longleftrightarrow>
     (\<forall>k i. bm_get names k = Some i \<longleftrightarrow> (\<exists>x. bm_get tbl i = Some x \<and> key x = k))
     \<and> (\<forall>i x. bm_get tbl i = Some x \<longrightarrow> ident x = i \<and> 0 < num i \<and> num i \<le> cnt)"

lemma table_okI:
  assumes "\<And>k i. bm_get names k = Some i \<Longrightarrow> \<exists>x. bm_get tbl i = Some x \<and> key x = k"
    and "\<And>i x. bm_get tbl i = Some x \<Longrightarrow>
      bm_get names (key x) = Some i \<and> ident x = i \<and> 0 < num i \<and> num i \<le> cnt"
  shows "table_ok key ident num names tbl cnt"
  using assms unfolding table_ok_def by blast

locale named_table =
  fixes key :: "'x \<Rightarrow> 'k::linorder"
    and ident :: "'x \<Rightarrow> 'i::linorder"
    and num :: "'i \<Rightarrow> nat"
    and mk :: "nat \<Rightarrow> 'i"
  assumes num_mk: "num (mk n) = n"
    and mk_num: "mk (num i) = i"
begin

lemma empty: "table_ok key ident num bm_empty bm_empty cnt"
  by (simp add: table_ok_def)

lemma named:
  "table_ok key ident num names tbl cnt \<Longrightarrow> bm_get names k = Some i \<longleftrightarrow> (\<exists>x. bm_get tbl i = Some x \<and> key x = k)"
  by (simp add: table_ok_def)

lemma row:
  "table_ok key ident num names tbl cnt \<Longrightarrow> bm_get tbl i = Some x \<Longrightarrow>
     ident x = i \<and> 0 < num i \<and> num i \<le> cnt \<and> bm_get names (key x) = Some i"
  by (auto simp: table_ok_def)

lemma names_unique:
  "table_ok key ident num names tbl cnt \<Longrightarrow> bm_get tbl i = Some x \<Longrightarrow> bm_get tbl j = Some y \<Longrightarrow>
     key x = key y \<Longrightarrow> i = j"
  by (frule (1) row [of _ _ _ i], frule (1) row [of _ _ _ j]) auto

lemma fresh: "table_ok key ident num names tbl cnt \<Longrightarrow> cnt < num i \<Longrightarrow> bm_get tbl i = None"
  by (cases "bm_get tbl i") (auto dest: row)

lemma unnamed:
  "table_ok key ident num names tbl cnt \<Longrightarrow> bm_get names k = None \<Longrightarrow> bm_get tbl i = Some x \<Longrightarrow> key x \<noteq> k"
  by (auto dest: row)

lemma add:
  assumes ok: "table_ok key ident num names tbl cnt"
    and free: "bm_get names (key x) = None" and i: "ident x = mk (Suc cnt)"
  shows "table_ok key ident num (bm_insert (key x) (mk (Suc cnt)) names)
    (bm_insert (mk (Suc cnt)) x tbl) (Suc cnt)"
proof (rule table_okI)
  have new: "bm_get tbl (mk (Suc cnt)) = None" using fresh [OF ok] by (simp add: num_mk)
  fix k j assume "bm_get (bm_insert (key x) (mk (Suc cnt)) names) k = Some j"
  then show "\<exists>y. bm_get (bm_insert (mk (Suc cnt)) x tbl) j = Some y \<and> key y = k"
    using named [OF ok] new by (auto split: if_splits)
next
  fix j y assume "bm_get (bm_insert (mk (Suc cnt)) x tbl) j = Some y"
  then consider "j = mk (Suc cnt)" "y = x" | "j \<noteq> mk (Suc cnt)" "bm_get tbl j = Some y"
    by (auto split: if_splits)
  then show "bm_get (bm_insert (key x) (mk (Suc cnt)) names) (key y) = Some j
    \<and> ident y = j \<and> 0 < num j \<and> num j \<le> Suc cnt"
  proof cases
    case 1
    then show ?thesis by (simp add: num_mk i)
  next
    case 2
    then show ?thesis using row [OF ok 2(2)] unnamed [OF ok free 2(2)] by simp
  qed
qed

lemma update:
  assumes ok: "table_ok key ident num names tbl cnt"
    and x: "bm_get tbl i = Some x" and y: "key y = key x" "ident y = i"
  shows "table_ok key ident num names (bm_insert i y tbl) cnt"
proof (rule table_okI)
  fix k j assume "bm_get names k = Some j"
  then show "\<exists>z. bm_get (bm_insert i y tbl) j = Some z \<and> key z = k"
    using named [OF ok, of k j] x y by auto
next
  fix j z assume "bm_get (bm_insert i y tbl) j = Some z"
  then show "bm_get names (key z) = Some j \<and> ident z = j \<and> 0 < num j \<and> num j \<le> cnt"
    using row [OF ok x] row [OF ok, of j z] y by (simp split: if_splits) 
qed

lemma remove:
  assumes ok: "table_ok key ident num names tbl cnt" and x: "bm_get tbl i = Some x"
  shows "table_ok key ident num (bm_remove (key x) names) (bm_remove i tbl) cnt"
proof (rule table_okI)
  fix k j assume "bm_get (bm_remove (key x) names) k = Some j"
  then show "\<exists>z. bm_get (bm_remove i tbl) j = Some z \<and> key z = k"
    using named [OF ok, of k j] x by (auto split: if_splits)
next
  fix j z assume "bm_get (bm_remove i tbl) j = Some z"
  then show "bm_get (bm_remove (key x) names) (key z) = Some j \<and> ident z = j \<and> 0 < num j \<and> num j \<le> cnt"
    using row [OF ok, of j z] names_unique [OF ok _ x, of j z] by (auto split: if_splits)
qed

lemma lookup_added:
  "Option.bind (bm_get (bm_insert k i names) k) (bm_get (bm_insert i x tbl)) = Some x"
  by simp

lemma lookup_by_name:
  assumes ok: "table_ok key ident num names tbl cnt"
  shows "Option.bind (bm_get names k) (bm_get tbl) = Some x \<longleftrightarrow> bm_get tbl (ident x) = Some x \<and> key x = k"
proof
  assume "Option.bind (bm_get names k) (bm_get tbl) = Some x"
  then obtain i where "bm_get names k = Some i" "bm_get tbl i = Some x" by (auto simp: bind_eq_Some_conv)
  then show "bm_get tbl (ident x) = Some x \<and> key x = k"
    using named [OF ok, of k i] row [OF ok, of i x] by simp
next
  assume "bm_get tbl (ident x) = Some x \<and> key x = k"
  then show "Option.bind (bm_get names k) (bm_get tbl) = Some x"
    using named [OF ok, of k "ident x"] by simp
qed

end

end
