(* ===== verification/CatalogInv.thy ===== *)
theory CatalogInv
  imports LogInv AliasInv NamedTable
begin

text \<open>
  The invariant of the catalog: its four tables agree with their names, every collection
  owns its implicit stream and link and every reserved name is owned, links start at
  streams of their namespace that outlive them, partitions are exactly those of the
  streams, and aliases, pointers, hot configurations and ledger entries refer to what
  exists. Every operation of the catalog keeps it.
\<close>

section \<open>The tables\<close>

definition stream_key :: "Stream \<Rightarrow> NamespaceId \<times> string" where
  "stream_key st = (s_namespace st, s_name st)"

definition link_key :: "Link \<Rightarrow> NamespaceId \<times> string" where
  "link_key l = (l_namespace l, l_name l)"

definition coll_key :: "Collection \<Rightarrow> NamespaceId \<times> string" where
  "coll_key c = (c_namespace c, c_name c)"

interpretation nst: named_table n_name n_id ns_u64 NamespaceId
  by unfold_locales simp_all

interpretation stt: named_table stream_key s_id stream_u64 StreamId
  by unfold_locales simp_all

interpretation lit: named_table link_key l_id link_u64 LinkId
  by unfold_locales simp_all

interpretation cot: named_table coll_key c_id coll_u64 CollectionId
  by unfold_locales simp_all

definition namespaces_ok :: "MetaState \<Rightarrow> bool" where
  "namespaces_ok s \<longleftrightarrow> table_ok n_name n_id ns_u64 (namespace_names s) (namespaces s) (last_namespace_id s)"

definition streams_ok :: "MetaState \<Rightarrow> bool" where
  "streams_ok s \<longleftrightarrow> table_ok stream_key s_id stream_u64 (stream_names s) (streams s) (last_stream_id s)"

definition links_ok :: "MetaState \<Rightarrow> bool" where
  "links_ok s \<longleftrightarrow> table_ok link_key l_id link_u64 (link_names s) (links s) (last_link_id s)"

definition colls_ok :: "MetaState \<Rightarrow> bool" where
  "colls_ok s \<longleftrightarrow> table_ok coll_key c_id coll_u64 (collection_names s) (collections s) (last_collection_id s)"

definition tables_inv :: "MetaState \<Rightarrow> bool" where
  "tables_inv s \<longleftrightarrow> namespaces_ok s \<and> streams_ok s \<and> links_ok s \<and> colls_ok s"

definition counters_le :: "nat \<Rightarrow> MetaState \<Rightarrow> bool" where
  "counters_le n s \<longleftrightarrow> last_namespace_id s \<le> n \<and> last_stream_id s \<le> n \<and> last_link_id s \<le> n
     \<and> last_collection_id s \<le> n"

section \<open>References between components\<close>

text \<open>A collection's implicit stream and link.\<close>

definition stream_matches :: "Collection \<Rightarrow> Stream \<Rightarrow> bool" where
  "stream_matches c st \<longleftrightarrow> s_namespace st = c_namespace c \<and> s_name st = implicit_name (c_name c) (c_id c)
     \<and> s_partitions st = c_partitions c \<and> s_class st = Standard \<and> s_retention st = Retention_default"

definition link_matches :: "Collection \<Rightarrow> Link \<Rightarrow> bool" where
  "link_matches c l \<longleftrightarrow> l_namespace l = c_namespace c \<and> l_name l = implicit_name (c_name c) (c_id c)
     \<and> l_source l = c_stream c \<and> t_kind (l_target l) = COLLECTION_KIND \<and> t_name (l_target l) = c_name c"

definition owned_inv :: "MetaState \<Rightarrow> bool" where
  "owned_inv s \<longleftrightarrow>
     (\<forall>cid c. bm_get (collections s) cid = Some c \<longrightarrow>
        (\<exists>st. bm_get (streams s) (c_stream c) = Some st \<and> stream_matches c st)
        \<and> (\<exists>l. bm_get (links s) (c_link c) = Some l \<and> link_matches c l))
     \<and> (\<forall>sid st. bm_get (streams s) sid = Some st \<longrightarrow> prefix ''_'' (s_name st) \<longrightarrow>
        (\<exists>cid c. bm_get (collections s) cid = Some c \<and> c_stream c = sid))
     \<and> (\<forall>lid l. bm_get (links s) lid = Some l \<longrightarrow> prefix ''_'' (l_name l) \<longrightarrow>
        (\<exists>cid c. bm_get (collections s) cid = Some c \<and> c_link c = lid))"

definition source_inv :: "MetaState \<Rightarrow> bool" where
  "source_inv s \<longleftrightarrow> (\<forall>lid l. bm_get (links s) lid = Some l \<longrightarrow>
     (\<exists>st. bm_get (streams s) (l_source l) = Some st \<and> s_namespace st = l_namespace l
        \<and> (prefix ''_'' (s_name st) \<longrightarrow> prefix ''_'' (l_name l))))"

definition space_inv :: "MetaState \<Rightarrow> bool" where
  "space_inv s \<longleftrightarrow>
     (\<forall>sid st. bm_get (streams s) sid = Some st \<longrightarrow> s_namespace st \<in> dom (bm_get (namespaces s)))
     \<and> (\<forall>cid c. bm_get (collections s) cid = Some c \<longrightarrow> c_namespace c \<in> dom (bm_get (namespaces s)))"

definition parts_dom :: "MetaState \<Rightarrow> bool" where
  "parts_dom s \<longleftrightarrow> (\<forall>sid p. bm_get (partitions s) (sid, p) \<noteq> None \<longleftrightarrow>
     (\<exists>st. bm_get (streams s) sid = Some st \<and> p < s_partitions st))"

definition coll_in :: "MetaState \<Rightarrow> NamespaceId \<Rightarrow> CollectionId \<Rightarrow> bool" where
  "coll_in s ns cid \<longleftrightarrow> (\<exists>c. bm_get (collections s) cid = Some c \<and> c_namespace c = ns)"

definition name_taken :: "MetaState \<Rightarrow> NamespaceId \<Rightarrow> string \<Rightarrow> bool" where
  "name_taken s ns a \<longleftrightarrow> bm_get (collection_names s) (ns, a) \<noteq> None"

definition alias_inv :: "MetaState \<Rightarrow> bool" where
  "alias_inv s \<longleftrightarrow> alias_ok (coll_in s) (name_taken s) s"

definition ptr_inv :: "MetaState \<Rightarrow> bool" where
  "ptr_inv s \<longleftrightarrow> (\<forall>ns key p rest. bm_get (pointers s) (ns, key) = Some p \<longrightarrow>
     strip_prefix COLLECTION_POINTER_PREFIX key = Some rest \<longrightarrow>
     (\<exists>cid. parse_CollectionId rest = Inr cid \<and> coll_in s ns cid))"

definition hot_inv :: "MetaState \<Rightarrow> bool" where
  "hot_inv s \<longleftrightarrow> (\<forall>cid h. bm_get (collection_hot s) cid = Some h \<longrightarrow>
     bm_get (collections s) cid \<noteq> None \<and> hot_any h)"

definition ledger_inv :: "MetaState \<Rightarrow> bool" where
  "ledger_inv s \<longleftrightarrow> (\<forall>sid key e. bm_get (idempotency s) (sid, key) = Some e \<longrightarrow> bm_get (streams s) sid \<noteq> None)"

definition cat_inv :: "MetaState \<Rightarrow> bool" where
  "cat_inv s \<longleftrightarrow> tables_inv s \<and> owned_inv s \<and> source_inv s \<and> space_inv s \<and> parts_dom s
     \<and> alias_inv s \<and> ptr_inv s \<and> hot_inv s \<and> ledger_inv s"

lemmas ref_inv_defs = owned_inv_def source_inv_def space_inv_def parts_dom_def ptr_inv_def hot_inv_def ledger_inv_def

lemma cat_invD:
  assumes "cat_inv s"
  shows "namespaces_ok s" "streams_ok s" "links_ok s" "colls_ok s" "owned_inv s" "source_inv s" "space_inv s"
    "parts_dom s" "alias_inv s" "ptr_inv s" "hot_inv s" "ledger_inv s"
  using assms by (simp_all add: cat_inv_def tables_inv_def)

lemma cat_invI:
  assumes "namespaces_ok s" "streams_ok s" "links_ok s" "colls_ok s" "owned_inv s" "source_inv s" "space_inv s"
    "parts_dom s" "alias_inv s" "ptr_inv s" "hot_inv s" "ledger_inv s"
  shows "cat_inv s"
  using assms by (simp add: cat_inv_def tables_inv_def)

section \<open>Frames\<close>

text \<open>
  The catalog fields of two states agree; the partitions have the same keys, and ledger
  entries are of the same streams.
\<close>

definition same_catalog :: "MetaState \<Rightarrow> MetaState \<Rightarrow> bool" where
  "same_catalog s s' \<longleftrightarrow>
     namespaces s' = namespaces s \<and> namespace_names s' = namespace_names s \<and> last_namespace_id s' = last_namespace_id s
     \<and> streams s' = streams s \<and> stream_names s' = stream_names s \<and> last_stream_id s' = last_stream_id s
     \<and> links s' = links s \<and> link_names s' = link_names s \<and> last_link_id s' = last_link_id s
     \<and> collections s' = collections s \<and> collection_names s' = collection_names s
     \<and> last_collection_id s' = last_collection_id s"

lemma same_catalog_tables:
  assumes "same_catalog s s'"
  shows "namespaces_ok s' = namespaces_ok s" "streams_ok s' = streams_ok s" "links_ok s' = links_ok s"
    "colls_ok s' = colls_ok s" "owned_inv s' = owned_inv s" "source_inv s' = source_inv s"
    "space_inv s' = space_inv s" "coll_in s' = coll_in s" "name_taken s' = name_taken s"
    "counters_le n s' = counters_le n s"
  using assms
  by (simp_all add: same_catalog_def namespaces_ok_def streams_ok_def links_ok_def colls_ok_def
      owned_inv_def source_inv_def space_inv_def coll_in_def name_taken_def counters_le_def fun_eq_iff)

lemma cat_inv_same:
  assumes inv: "cat_inv s" and same: "same_catalog s s'"
    and parts: "dom (bm_get (partitions s')) = dom (bm_get (partitions s))"
    and al: "alias_ok (coll_in s) (name_taken s) s'"
    and ptr: "\<And>ns key p rest. bm_get (pointers s') (ns, key) = Some p \<Longrightarrow>
      strip_prefix COLLECTION_POINTER_PREFIX key = Some rest \<Longrightarrow> \<exists>cid. parse_CollectionId rest = Inr cid \<and> coll_in s ns cid"
    and hot: "\<And>cid h. bm_get (collection_hot s') cid = Some h \<Longrightarrow> bm_get (collections s) cid \<noteq> None \<and> hot_any h"
    and led: "\<And>sid key e. bm_get (idempotency s') (sid, key) = Some e \<Longrightarrow> bm_get (streams s) sid \<noteq> None"
  shows "cat_inv s'"
proof (rule cat_invI)
  note D = cat_invD [OF inv] and S = same_catalog_tables [OF same]
  show "namespaces_ok s'" "streams_ok s'" "links_ok s'" "colls_ok s'" "owned_inv s'" "source_inv s'" "space_inv s'"
    unfolding S by (fact D)+
  show "alias_inv s'" unfolding alias_inv_def S by (fact al)
  show "ptr_inv s'" unfolding ptr_inv_def S using ptr by blast
  show "hot_inv s'" "ledger_inv s'" unfolding hot_inv_def ledger_inv_def
    using hot led same by (auto simp: same_catalog_def)
  have "bm_get (partitions s') k \<noteq> None \<longleftrightarrow> bm_get (partitions s) k \<noteq> None" for k
    using parts by (metis domIff)
  then show "parts_dom s'" using D(8) same unfolding parts_dom_def same_catalog_def by simp
qed

lemma cat_inv_frame:
  assumes inv: "cat_inv s" and same: "same_catalog s s'"
    and parts: "dom (bm_get (partitions s')) = dom (bm_get (partitions s))"
    and rest: "aliases s' = aliases s" "alias_targets s' = alias_targets s" "pointers s' = pointers s"
      "collection_hot s' = collection_hot s"
    and led: "\<And>sid key e. bm_get (idempotency s') (sid, key) = Some e \<Longrightarrow> bm_get (streams s) sid \<noteq> None"
  shows "cat_inv s'"
proof (rule cat_inv_same [OF inv same parts])
  note D = cat_invD [OF inv]
  show "alias_ok (coll_in s) (name_taken s) s'"
    using D(9) unfolding alias_inv_def by (rule alias_ok_frame) (fact rest)+
qed (use cat_invD(10,11) [OF inv] rest led in \<open>auto simp: ptr_inv_def hot_inv_def\<close>)

end
