(* ===== verification/CatalogOps.thy ===== *)
theory CatalogOps
  imports CatalogInv
begin

text \<open>
  The operations on leases, the log, pointers, the ledger, hot configurations and aliases
  keep the catalog invariant: they leave the tables alone. The operations that change the
  tables are in \<open>CollectionOps\<close>.
\<close>

lemma ledgerD: "cat_inv s \<Longrightarrow> bm_get (idempotency s) (i, k) = Some e \<Longrightarrow> \<exists>st. bm_get (streams s) i = Some st"
  using cat_invD(12) unfolding ledger_inv_def by blast

lemma hotD: "cat_inv s \<Longrightarrow> bm_get (collection_hot s) cid = Some h \<Longrightarrow> (\<exists>c. bm_get (collections s) cid = Some c) \<and> hot_any h"
  using cat_invD(11) unfolding hot_inv_def by blast

lemma ptrD:
  "cat_inv s \<Longrightarrow> bm_get (pointers s) (ns, COLLECTION_POINTER_PREFIX @ rest) = Some p \<Longrightarrow>
     \<exists>cid. parse_CollectionId rest = Inr cid \<and> coll_in s ns cid"
  using cat_invD(10) unfolding ptr_inv_def by fastforce

section \<open>Leases and the log\<close>

lemma lease_ops_only:
  "acquire_lease s k w ttl now = (s', r) \<Longrightarrow> s' = s\<lparr>clock_ms := clock_ms s', leases := leases s'\<rparr>"
  "renew_lease s k w ep ttl now = (s', r) \<Longrightarrow> s' = s\<lparr>clock_ms := clock_ms s', leases := leases s'\<rparr>"
  "reacquire_lease s k w ep ttl now = (s', r) \<Longrightarrow> s' = s\<lparr>clock_ms := clock_ms s', leases := leases s'\<rparr>"
  "release_lease s k w ep = (s', r) \<Longrightarrow> s' = s\<lparr>clock_ms := clock_ms s', leases := leases s'\<rparr>"
  by (erule acquire_lease_cases; simp)
    (auto simp: renew_lease_def reacquire_lease_def release_lease_def Let_def
      split: attempt_splits option.splits if_splits)

lemma leases_only_cat:
  assumes "cat_inv s" "s' = s\<lparr>clock_ms := clock_ms s', leases := leases s'\<rparr>"
  shows "cat_inv s'"
proof -
  obtain c m where s': "s' = s\<lparr>clock_ms := c, leases := m\<rparr>" using assms(2) by blast
  show ?thesis unfolding s'
    by (rule cat_inv_frame [OF assms(1)])
      (auto simp: same_catalog_def dest: ledgerD [OF assms(1)])
qed

lemma log_only_cat:
  assumes "cat_inv s" "same_catalog s s'" "dom (bm_get (partitions s')) = dom (bm_get (partitions s))"
    "aliases s' = aliases s" "alias_targets s' = alias_targets s" "pointers s' = pointers s"
    "collection_hot s' = collection_hot s" "idempotency s' = idempotency s"
  shows "cat_inv s'"
  using assms by (intro cat_inv_frame [OF assms(1)]) (auto dest: ledgerD [OF assms(1)])

lemma commit_wal_cat:
  assumes "commit_wal s obj t cs = (s', r)" "cat_inv s"
  shows "cat_inv s'"
  using assms(1)
proof (cases rule: commit_wal_cases)
  case (committed s1 bases)
  have "\<forall>c \<in> set cs. (ch_stream c, ch_partition c) \<in> dom (bm_get (partitions s))" using committed(5) by simp
  from commit_chunks_ok [OF this, of obj] committed(6)
  have "dom (bm_get (partitions s1)) = dom (bm_get (partitions s))" by simp
  then show ?thesis by (intro log_only_cat [OF assms(2)]) (simp_all add: committed(9) same_catalog_def)
qed (use assms in simp_all)

lemma swap_segment_cat:
  assumes "swap_segment s sid p rs seg rng ts f now fr = (s', r)" "cat_inv s"
  shows "cat_inv s'"
  using assms(1)
proof (cases rule: swap_segment_cases)
  case (swapped st b obj rs' records st2 removed)
  show ?thesis by (rule log_only_cat [OF assms(2)]) (use swapped(4) in \<open>auto simp: swapped(10) same_catalog_def\<close>)
qed (use assms in simp_all)

lemma trim_partition_cat:
  assumes "trim_partition s sid p off f now = (s', r)" "cat_inv s"
  shows "cat_inv s'"
  using assms(1)
proof (cases rule: trim_partition_cases)
  case (trimmed st st1 removed)
  show ?thesis by (rule log_only_cat [OF assms(2)]) (use trimmed(2) in \<open>auto simp: trimmed(6) same_catalog_def\<close>)
qed (use assms in simp_all)

lemma prune_wal_commits_cat: "prune_wal_commits s f now = (s', r) \<Longrightarrow> cat_inv s \<Longrightarrow> cat_inv s'"
  by (erule log_only_cat; auto simp: prune_wal_commits_def Let_def same_catalog_def split: attempt_splits)

lemma forget_objects_cat: "forget_objects s objs f = (s', r) \<Longrightarrow> cat_inv s \<Longrightarrow> cat_inv s'"
  by (erule log_only_cat; auto simp: forget_objects_def same_catalog_def split: attempt_splits prod.splits)

section \<open>Pointers and hot configurations\<close>

lemma cas_pointer_cat:
  assumes "cas_pointer s ns key ex v f fr = (s', r)" "cat_inv s"
  shows "cat_inv s'"
  using assms(1)
proof (cases rule: cas_pointer_cases)
  case (set version)
  note D = cat_invD [OF assms(2)]
  have new: "\<exists>cid. parse_CollectionId rest = Inr cid \<and> coll_in s ns cid"
    if "strip_prefix COLLECTION_POINTER_PREFIX key = Some rest" for rest
    using set(3) that unfolding check_collection_pointer_def
    by (auto simp: coll_in_def split: sum.splits option.splits if_splits)
  have old: "\<exists>cid. parse_CollectionId rest = Inr cid \<and> coll_in s ns' cid"
    if "bm_get (pointers s) (ns', k) = Some p" "strip_prefix COLLECTION_POINTER_PREFIX k = Some rest" for ns' k p rest
    using D(10) that unfolding ptr_inv_def by blast
  show ?thesis
  proof (rule cat_inv_same [OF assms(2)])
    show "alias_ok (coll_in s) (name_taken s) s'"
      using D(9) unfolding alias_inv_def by (rule alias_ok_frame) (simp_all add: set(8))
    show "\<exists>cid. parse_CollectionId rest = Inr cid \<and> coll_in s ns' cid"
      if "bm_get (pointers s') (ns', k) = Some p" "strip_prefix COLLECTION_POINTER_PREFIX k = Some rest" for ns' k p rest
      using that new old [of ns' k p rest] by (cases "(ns', k) = (ns, key)") (auto simp: set(8))
  qed (auto simp: set(8) same_catalog_def dest: ledgerD [OF assms(2)] hotD [OF assms(2)])
qed (use assms in simp_all)

lemma set_collection_hot_cat:
  assumes "set_collection_hot s cid h = (s', r)" "cat_inv s"
  shows "cat_inv s'"
proof (cases "cid \<in> dom (bm_get (collections s))")
  case False
  then show ?thesis using assms by (auto simp: set_collection_hot_def)
next
  case True
  note D = cat_invD [OF assms(2)]
  have s': "s' = s\<lparr>collection_hot := (if hot_any h then bm_insert cid h (collection_hot s)
      else bm_remove cid (collection_hot s))\<rparr>" using assms(1) True by (auto simp: set_collection_hot_def)
  show ?thesis
  proof (rule cat_inv_same [OF assms(2)])
    show "alias_ok (coll_in s) (name_taken s) s'"
      using D(9) unfolding alias_inv_def by (rule alias_ok_frame) (simp_all add: s')
    show "bm_get (collections s) c \<noteq> None \<and> hot_any h'" if "bm_get (collection_hot s') c = Some h'" for c h'
    proof (cases "c = cid")
      case same: True
      then show ?thesis using that True by (auto simp: s' split: if_splits)
    next
      case False
      then show ?thesis using that D(11) unfolding hot_inv_def s' by (auto split: if_splits)
    qed
  qed (auto simp: s' same_catalog_def dest: ledgerD [OF assms(2)] ptrD [OF assms(2)])
qed

section \<open>The ledger\<close>

definition ledger_only :: "MetaState \<Rightarrow> MetaState \<Rightarrow> bool" where
  "ledger_only s s' \<longleftrightarrow> s' = s\<lparr>clock_ms := clock_ms s', idempotency := idempotency s'\<rparr>"

lemma ledger_only_cat:
  assumes "cat_inv s" "ledger_only s s'"
    "\<And>sid key e. bm_get (idempotency s') (sid, key) = Some e \<Longrightarrow> bm_get (streams s) sid \<noteq> None"
  shows "cat_inv s'"
proof -
  obtain c m where s': "s' = s\<lparr>clock_ms := c, idempotency := m\<rparr>" using assms(2) unfolding ledger_only_def by blast
  show ?thesis using assms(3) unfolding s' by (intro cat_inv_frame [OF assms(1)]) (auto simp: same_catalog_def)
qed

lemma claim_keys_dom:
  "bm_get (fst (claim_keys m sid w now until ks)) (i, k) = Some e \<Longrightarrow> i = sid \<or> bm_get m (i, k) \<noteq> None"
proof (induction ks arbitrary: m e)
  case (Cons key ks)
  let ?st = "claim_state (bm_get m (sid, key)) w now"
  let ?m = "if ?st = Claimed then bm_insert (sid, key) (EntryPending w until) m else m"
  have "bm_get (fst (claim_keys ?m sid w now until ks)) (i, k) = Some e"
    using Cons.prems by (simp add: Let_def case_prod_unfold split del: if_split)
  from Cons.IH [OF this] show ?case by (auto split: if_splits)
qed simp

lemma complete_keys_dom: "bm_get (complete_keys m sid w until ks) (i, k) = Some e \<Longrightarrow> bm_get m (i, k) \<noteq> None"
proof (induction m sid w until ks arbitrary: e rule: complete_keys.induct)
  case (2 m sid w until key part offset ks)
  from "2.IH" [OF "2.prems" [unfolded complete_keys.simps]] show ?case
    by (auto split: option.splits IdempotencyEntry.splits if_splits)
qed simp

lemma release_keys_dom: "bm_get (release_keys m sid w ks) (i, k) = Some e \<Longrightarrow> bm_get m (i, k) \<noteq> None"
proof (induction m sid w ks arbitrary: e rule: release_keys.induct)
  case (2 m sid w key keys)
  from "2.IH" [OF "2.prems" [unfolded release_keys.simps]] show ?case
    by (auto split: option.splits IdempotencyEntry.splits if_splits)
qed simp

lemma claim_idempotency_keys_cat:
  assumes "claim_idempotency_keys s sid w ks ttl now = (s', r)" "cat_inv s"
  shows "cat_inv s'"
proof (cases r)
  case (Inl e)
  then show ?thesis using assms claim_idempotency_keys_error by blast
next
  case (Inr y)
  let ?m = "fst (claim_keys (idempotency s) sid w (max (clock_ms s) now) (sat_add64 (max (clock_ms s) now) ttl) ks)"
  have s': "s' = s\<lparr>clock_ms := max (clock_ms s) now, idempotency := ?m\<rparr>" and sid: "bm_get (streams s) sid \<noteq> None"
    using assms(1) Inr by (auto simp: claim_idempotency_keys_def Let_def attempt_eq_Inr split: if_splits prod.splits)
  show ?thesis
    by (rule ledger_only_cat [OF assms(2)])
      (use sid in \<open>auto simp: s' ledger_only_def dest!: claim_keys_dom dest: ledgerD [OF assms(2)]\<close>)
qed

lemma complete_idempotency_keys_cat:
  assumes "complete_idempotency_keys s sid w ks ttl now = (s', r)" "cat_inv s"
  shows "cat_inv s'"
  by (rule ledger_only_cat [OF assms(2)])
    (use assms in \<open>auto dest: ledgerD simp: complete_idempotency_keys_def Let_def ledger_only_def
      dest!: complete_keys_dom split: attempt_splits\<close>)

lemma release_idempotency_keys_cat:
  assumes "release_idempotency_keys s sid w ks = (s', r)" "cat_inv s"
  shows "cat_inv s'"
  by (rule ledger_only_cat [OF assms(2)])
    (use assms in \<open>auto dest: ledgerD simp: release_idempotency_keys_def ledger_only_def
      dest!: release_keys_dom split: attempt_splits\<close>)

lemma prune_idempotency_keys_cat:
  assumes "prune_idempotency_keys s f now = (s', r)" "cat_inv s"
  shows "cat_inv s'"
  by (rule ledger_only_cat [OF assms(2)])
    (use assms in \<open>auto dest: ledgerD simp: prune_idempotency_keys_def Let_def ledger_only_def
      split: attempt_splits\<close>)

end
