(* ===== verification/CollectionOps.thy ===== *)
theory CollectionOps
  imports CatalogOps
begin

text \<open>
  Aliases, namespaces, streams, links and collections: the operations that change the
  catalog's tables keep the catalog invariant, given that no id counter is at its maximum.
\<close>

section \<open>Aliases\<close>

lemma coll_named: "colls_ok s \<Longrightarrow> bm_get (collection_names s) (ns, n) = Some cid \<Longrightarrow> coll_in s ns cid"
  unfolding colls_ok_def coll_in_def by (auto simp: coll_key_def dest: cot.named [THEN iffD1])

lemma alias_changes_ok:
  assumes "alias_changes s ns acts ch = Inr ch'" "colls_ok s"
    "\<And>a cid. bm_get ch a = Some (Some cid) \<Longrightarrow> coll_in s ns cid \<and> \<not> name_taken s ns a"
  shows "bm_get ch' a = Some (Some cid) \<Longrightarrow> coll_in s ns cid \<and> \<not> name_taken s ns a"
  using assms
proof (induction s ns acts ch rule: alias_changes.induct)
  case (2 s ns al collection acts ch)
  from "2.prems"(2) obtain c where c: "bm_get (collection_names s) (ns, collection) = Some c"
    "bm_get (collection_names s) (ns, al) = None" "alias_changes s ns acts (bm_insert al (Some c) ch) = Inr ch'"
    by (auto simp: check_Inr_iff domIff split: if_splits option.splits)
  show ?case
  proof (rule "2.IH" [OF _ c(1) "2.prems"(1) c(3) "2.prems"(3)])
    show "\<not> bm_contains (collection_names s) (ns, al)" using c(2) by (simp add: domIff)
    show "coll_in s ns cid \<and> \<not> name_taken s ns a" if "bm_get (bm_insert al (Some c) ch) a = Some (Some cid)" for a cid
      using that c(2) coll_named [OF "2.prems"(3) c(1)] "2.prems"(4) [of a cid]
      by (auto simp: name_taken_def split: if_splits)
  qed
next
  case (3 s ns al acts ch)
  show ?case
    by (rule "3.IH" [OF "3.prems"(1) _ "3.prems"(3)]) (use "3.prems" in \<open>auto split: if_splits\<close>)
qed auto

lemma aliases_only_cat:
  assumes "cat_inv s" "same_but_aliases s s'" "alias_ok (coll_in s) (name_taken s) s'"
  shows "cat_inv s'"
proof -
  obtain al at where s': "s' = s\<lparr>aliases := al, alias_targets := at\<rparr>" using assms(2) by (rule same_but_aliasesD)
  show ?thesis
  proof (rule cat_inv_same [OF assms(1) _ _ assms(3)])
  qed (auto simp: s' same_catalog_def dest: ledgerD [OF assms(1)] hotD [OF assms(1)] ptrD [OF assms(1)])
qed

lemma update_aliases_cat:
  assumes "update_aliases s ns acts = (s', r)" "cat_inv s"
  shows "cat_inv s'"
proof (cases r)
  case (Inl e)
  then show ?thesis using assms update_aliases_error by blast
next
  case (Inr y)
  then obtain ch where ch: "alias_changes s ns acts bm_empty = Inr ch" and s': "s' = apply_alias_changes s ns (bm_iter ch)"
    using assms(1) by (auto simp: update_aliases_def attempt_eq_Inr split: if_splits)
  note D = cat_invD [OF assms(2)]
  have "members_ok (coll_in s ns) (name_taken s ns a) (change_members t)" if "bm_get ch a = Some t" for a t
    using alias_changes_ok [OF ch D(4), of a] that by (cases t) (auto simp: change_members_def)
  then have "alias_ok (coll_in s) (name_taken s) s'"
    unfolding s' apply_alias_changes_eq
    by (intro alias_ok_put_aliases D(9) [unfolded alias_inv_def]) (auto simp: bm_iter_get)
  then show ?thesis
    by (rule aliases_only_cat [OF assms(2), rotated]) (simp add: s' apply_alias_changes_eq put_aliases_same)
qed

definition known_members :: "MetaState \<Rightarrow> NamespaceId \<Rightarrow> string \<Rightarrow> alias_members \<Rightarrow> bool" where
  "known_members s ns a ms \<longleftrightarrow> (\<forall>cid w. bm_get ms cid = Some w \<longrightarrow> coll_in s ns cid \<and> \<not> name_taken s ns a)"

definition known_working :: "MetaState \<Rightarrow> NamespaceId \<Rightarrow> working_aliases \<Rightarrow> bool" where
  "known_working s ns wk \<longleftrightarrow> (\<forall>a ms. bm_get wk a = Some ms \<longrightarrow> known_members s ns a ms)"

lemma known_members_state: "cat_inv s \<Longrightarrow> known_members s ns a (alias_members_of s ns a)"
  using cat_invD(9) [of s] unfolding alias_inv_def alias_ok_def members_ok_def known_members_def by blast

lemma known_working_change:
  assumes "cat_inv s" "known_working s ns wk"
    "\<And>ms. known_members s ns a ms \<Longrightarrow> known_members s ns a (change ms)"
  shows "known_working s ns (working_members s wk ns a change)"
proof -
  have "known_members s ns a (case bm_get wk a of Some ms \<Rightarrow> ms | None \<Rightarrow> alias_members_of s ns a)"
    using assms(2) known_members_state [OF assms(1)] by (auto simp: known_working_def split: option.split)
  then show ?thesis using assms(2,3) by (auto simp: known_working_def working_members_def)
qed

lemma alias_target_changes_ok:
  assumes "alias_target_changes s ns acts wk = Inr wk'" "cat_inv s" "known_working s ns wk"
  shows "known_working s ns wk'"
  using assms
proof (induction s ns acts wk rule: alias_target_changes.induct)
  case (2 s ns al collection w acts wk)
  from "2.prems"(1) obtain c where c: "bm_get (collection_names s) (ns, collection) = Some c"
    "bm_get (collection_names s) (ns, al) = None"
    "alias_target_changes s ns acts (working_members s wk ns al (bm_insert c w)) = Inr wk'"
    by (auto simp: check_Inr_iff domIff split: if_splits option.splits)
  have "known_members s ns al (bm_insert c w ms)" if "known_members s ns al ms" for ms
    using that coll_named [OF cat_invD(4) [OF "2.prems"(2)] c(1)] c(2) by (auto simp: known_members_def name_taken_def)
  then show ?case
    using "2.IH" [OF _ c(1) c(3) "2.prems"(2)] known_working_change [OF "2.prems"(2,3)] c(2) by (simp add: domIff)
next
  case (3 s ns al collection acts wk)
  have "known_working s ns (working_members s wk ns al
      (case bm_get (collection_names s) (ns, collection) of Some cid \<Rightarrow> bm_remove cid | None \<Rightarrow> (\<lambda>ms. ms)))"
    by (rule known_working_change [OF "3.prems"(2,3)]) (auto simp: known_members_def split: option.splits if_splits)
  then show ?case using "3.IH" [OF _ "3.prems"(2)] "3.prems"(1) by simp
next
  case (4 s ns al acts wk)
  have "known_working s ns (working_members s wk ns al (\<lambda>_. bm_empty))"
    by (rule known_working_change [OF "4.prems"(2,3)]) (simp add: known_members_def)
  then show ?case using "4.IH" [OF _ "4.prems"(2)] "4.prems"(1) by simp
qed auto

lemma length_map_filter: "(\<And>x. x \<in> set xs \<Longrightarrow> f x \<noteq> None) \<Longrightarrow> length (List.map_filter f xs) = length xs"
proof (induction xs)
  case (Cons x xs)
  then obtain y where "f x = Some y" by fastforce
  then show ?case using Cons by (simp add: List.map_filter_simps)
qed (simp add: List.map_filter_simps)

lemma writers_count: "known_members s ns a ms \<Longrightarrow> length (writers s ms) = write_count ms"
  unfolding writers_def write_count_def
  by (rule length_map_filter) (fastforce simp: known_members_def coll_in_def bm_iter_get)

lemma check_working_ok:
  assumes "check_working s (a, ms) = Inr ()" "known_members s ns a ms"
  shows "members_ok (coll_in s ns) (name_taken s ns a) ms"
  using assms writers_count [OF assms(2)] unfolding members_ok_def known_members_def check_working_def
  by (auto split: if_splits)

lemma update_alias_targets_cat:
  assumes "update_alias_targets s ns acts = (s', r)" "cat_inv s"
  shows "cat_inv s'"
proof (cases r)
  case (Inl e)
  then show ?thesis using assms update_alias_targets_error by blast
next
  case (Inr y)
  then obtain wk where wk: "alias_target_changes s ns acts bm_empty = Inr wk"
    and chk: "check_all (check_working s) (bm_iter wk) = Inr ()" and s': "s' = put_aliases s ns (bm_iter wk)"
    using assms(1) by (auto simp: update_alias_targets_def attempt_eq_Inr split: if_splits)
  have known: "known_working s ns wk"
    by (rule alias_target_changes_ok [OF wk assms(2)]) (simp add: known_working_def)
  have "members_ok (coll_in s ns) (name_taken s ns a) ms" if "(a, ms) \<in> set (bm_iter wk)" for a ms
    using check_working_ok [of s a ms ns] chk known that by (auto simp: check_all_Inr known_working_def bm_iter_get)
  then have "alias_ok (coll_in s) (name_taken s) s'"
    unfolding s' using cat_invD(9) [OF assms(2)] unfolding alias_inv_def by (intro alias_ok_put_aliases)
  then show ?thesis by (rule aliases_only_cat [OF assms(2), rotated]) (simp add: s' put_aliases_same)
qed

end
