(* ===== verification/CreateOps.thy ===== *)
theory CreateOps
  imports CollectionOps
begin

text \<open>
  Creating namespaces, streams, links and collections, and changing a stream's retention
  or a collection's schema, keeps the catalog invariant.
\<close>

section \<open>Adding rows\<close>

lemma insert_partitions_get:
  "bm_get (insert_partitions m sid n) (i, p) = (if i = sid \<and> p < n then Some PartitionState_default else bm_get m (i, p))"
  by (induction n) auto

lemma insert_stream_eq:
  assumes "insert_stream s ns name parts class rt = (s', sid)" "last_stream_id s < U64_MAX"
  shows "sid = StreamId (Suc (last_stream_id s))"
    and "s' = s\<lparr>last_stream_id := Suc (last_stream_id s), partitions := insert_partitions (partitions s) sid parts,
      stream_names := bm_insert (ns, name) sid (stream_names s),
      streams := bm_insert sid \<lparr>s_id = sid, s_namespace = ns, s_name = name, s_partitions = parts,
        s_class = class, s_retention = rt\<rparr> (streams s)\<rparr>"
proof -
  have eq: "wadd64 (last_stream_id s) 1 = Suc (last_stream_id s)" using assms(2) by (simp add: wadd64_exact)
  note res = assms(1) [unfolded insert_stream_def Let_def eq, symmetric]
  show sid: "sid = StreamId (Suc (last_stream_id s))" using res by (rule Pair_inject)
  show "s' = s\<lparr>last_stream_id := Suc (last_stream_id s), partitions := insert_partitions (partitions s) sid parts,
      stream_names := bm_insert (ns, name) sid (stream_names s),
      streams := bm_insert sid \<lparr>s_id = sid, s_namespace = ns, s_name = name, s_partitions = parts,
        s_class = class, s_retention = rt\<rparr> (streams s)\<rparr>"
    unfolding sid using res by (rule Pair_inject)
qed

lemma insert_link_eq:
  assumes "insert_link s ns name src tgt opts = (s', lid)" "last_link_id s < U64_MAX"
  shows "lid = LinkId (Suc (last_link_id s))"
    and "s' = s\<lparr>last_link_id := Suc (last_link_id s), link_names := bm_insert (ns, name) lid (link_names s),
      links := bm_insert lid \<lparr>l_id = lid, l_namespace = ns, l_name = name, l_source = src,
        l_target = tgt, l_options = opts\<rparr> (links s)\<rparr>"
proof -
  have eq: "wadd64 (last_link_id s) 1 = Suc (last_link_id s)" using assms(2) by (simp add: wadd64_exact)
  note res = assms(1) [unfolded insert_link_def Let_def eq, symmetric]
  show lid: "lid = LinkId (Suc (last_link_id s))" using res by (rule Pair_inject)
  show "s' = s\<lparr>last_link_id := Suc (last_link_id s), link_names := bm_insert (ns, name) lid (link_names s),
      links := bm_insert lid \<lparr>l_id = lid, l_namespace = ns, l_name = name, l_source = src,
        l_target = tgt, l_options = opts\<rparr> (links s)\<rparr>"
    unfolding lid using res by (rule Pair_inject)
qed

lemma fresh_stream: "streams_ok s \<Longrightarrow> bm_get (streams s) (StreamId (Suc (last_stream_id s))) = None"
  unfolding streams_ok_def by (erule stt.fresh) simp

lemma fresh_link: "links_ok s \<Longrightarrow> bm_get (links s) (LinkId (Suc (last_link_id s))) = None"
  unfolding links_ok_def by (erule lit.fresh) simp

lemma fresh_coll: "colls_ok s \<Longrightarrow> bm_get (collections s) (CollectionId (Suc (last_collection_id s))) = None"
  unfolding colls_ok_def by (erule cot.fresh) simp

lemma ownedD:
  assumes "owned_inv s"
  shows "bm_get (collections s) cid = Some c \<Longrightarrow> \<exists>st. bm_get (streams s) (c_stream c) = Some st \<and> stream_matches c st"
    "bm_get (collections s) cid = Some c \<Longrightarrow> \<exists>l. bm_get (links s) (c_link c) = Some l \<and> link_matches c l"
    "bm_get (streams s) sid = Some st \<Longrightarrow> prefix ''_'' (s_name st) \<Longrightarrow>
       \<exists>cid c. bm_get (collections s) cid = Some c \<and> c_stream c = sid"
    "bm_get (links s) lid = Some l \<Longrightarrow> prefix ''_'' (l_name l) \<Longrightarrow>
       \<exists>cid c. bm_get (collections s) cid = Some c \<and> c_link c = lid"
  using assms unfolding owned_inv_def by blast+

lemma ownedI:
  assumes "\<And>cid c. bm_get (collections s) cid = Some c \<Longrightarrow> \<exists>st. bm_get (streams s) (c_stream c) = Some st \<and> stream_matches c st"
    "\<And>cid c. bm_get (collections s) cid = Some c \<Longrightarrow> \<exists>l. bm_get (links s) (c_link c) = Some l \<and> link_matches c l"
    "\<And>sid st. bm_get (streams s) sid = Some st \<Longrightarrow> prefix ''_'' (s_name st) \<Longrightarrow>
       \<exists>cid c. bm_get (collections s) cid = Some c \<and> c_stream c = sid"
    "\<And>lid l. bm_get (links s) lid = Some l \<Longrightarrow> prefix ''_'' (l_name l) \<Longrightarrow>
       \<exists>cid c. bm_get (collections s) cid = Some c \<and> c_link c = lid"
  shows "owned_inv s"
  using assms unfolding owned_inv_def by blast

lemma sourceD:
  "source_inv s \<Longrightarrow> bm_get (links s) lid = Some l \<Longrightarrow>
     \<exists>st. bm_get (streams s) (l_source l) = Some st \<and> s_namespace st = l_namespace l
       \<and> (prefix ''_'' (s_name st) \<longrightarrow> prefix ''_'' (l_name l))"
  unfolding source_inv_def by blast

lemma partsD: "parts_dom s \<Longrightarrow> bm_get (partitions s) (sid, p) \<noteq> None \<longleftrightarrow> (\<exists>st. bm_get (streams s) sid = Some st \<and> p < s_partitions st)"
  unfolding parts_dom_def by blast

section \<open>Namespaces and streams\<close>

lemma create_namespace_cat:
  assumes "create_namespace s name = (s', r)" "cat_inv s" "last_namespace_id s < U64_MAX"
  shows "cat_inv s'"
proof (cases r)
  case (Inl e)
  then show ?thesis using assms create_namespace_error by blast
next
  case (Inr y)
  let ?nid = "NamespaceId (Suc (last_namespace_id s))"
  have new: "bm_get (namespace_names s) name = None"
    and s': "s' = s\<lparr>last_namespace_id := Suc (last_namespace_id s),
      namespace_names := bm_insert name ?nid (namespace_names s),
      namespaces := bm_insert ?nid \<lparr>n_id = ?nid, n_name = name\<rparr> (namespaces s)\<rparr>"
    using assms Inr by (auto simp: create_namespace_def Let_def attempt_eq_Inr wadd64_exact split: option.splits)
  note D = cat_invD [OF assms(2)]
  show ?thesis
  proof (rule cat_invI)
    show "namespaces_ok s'"
      using nst.add [OF D(1) [unfolded namespaces_ok_def], of "\<lparr>n_id = ?nid, n_name = name\<rparr>"] new
      by (simp add: namespaces_ok_def s')
    show "space_inv s'" using D(7) unfolding space_inv_def s' by auto
    show "alias_inv s'" unfolding alias_inv_def
      by (rule alias_ok_mono [OF D(9) [unfolded alias_inv_def]]) (auto simp: s' coll_in_def name_taken_def)
  qed (use D in \<open>simp_all add: s' streams_ok_def links_ok_def colls_ok_def owned_inv_def source_inv_def
      parts_dom_def ptr_inv_def hot_inv_def ledger_inv_def coll_in_def\<close>)
qed

lemma create_stream_cases:
  assumes "create_stream s ns name parts class rt = (s', r)" "last_stream_id s < U64_MAX"
  obtains (error) e where "s' = s" "r = Inl e"
  | (created) sid where "sid = StreamId (Suc (last_stream_id s))" "\<not> prefix ''_'' name" "1 \<le> parts"
      "parts \<le> MAX_PARTITIONS"
      "ns \<in> dom (bm_get (namespaces s))" "bm_get (stream_names s) (ns, name) = None" "r = Inr (StreamCreated sid)"
      "s' = s\<lparr>last_stream_id := Suc (last_stream_id s), partitions := insert_partitions (partitions s) sid parts,
         stream_names := bm_insert (ns, name) sid (stream_names s),
         streams := bm_insert sid \<lparr>s_id = sid, s_namespace = ns, s_name = name, s_partitions = parts,
           s_class = class, s_retention = rt\<rparr> (streams s)\<rparr>"
proof (cases r)
  case (Inl e)
  then show ?thesis using assms(1) create_stream_error error by blast
next
  case (Inr y)
  obtain s1 sid where ins: "insert_stream s ns name parts class rt = (s1, sid)" by fastforce
  note eq = insert_stream_eq [OF ins assms(2)]
  show ?thesis
    by (rule created [OF eq(1)])
      (use assms(1) Inr ins eq(2) in \<open>auto simp: create_stream_def attempt_eq_Inr domIff split: option.splits if_splits\<close>)
qed

lemma stream_added_refs:
  assumes inv: "cat_inv s" and sid: "sid = StreamId (Suc (last_stream_id s))"
    and s': "streams s' = bm_insert sid st (streams s)" "links s' = links s"
    "partitions s' = insert_partitions (partitions s) sid (s_partitions st)" "idempotency s' = idempotency s"
  shows "source_inv s'" "parts_dom s'" "ledger_inv s'"
proof -
  note D = cat_invD [OF inv]
  have new: "bm_get (streams s) sid = None" using fresh_stream [OF D(2)] sid by simp
  show "source_inv s'" unfolding source_inv_def
  proof (intro allI impI)
    fix lid l assume "bm_get (links s') lid = Some l"
    then obtain st' where "bm_get (streams s) (l_source l) = Some st'" "s_namespace st' = l_namespace l"
      "prefix ''_'' (s_name st') \<longrightarrow> prefix ''_'' (l_name l)" using sourceD [OF D(6)] s'(2) by auto
    moreover have "l_source l \<noteq> sid" using new calculation(1) by auto
    ultimately show "\<exists>st. bm_get (streams s') (l_source l) = Some st \<and> s_namespace st = l_namespace l
      \<and> (prefix ''_'' (s_name st) \<longrightarrow> prefix ''_'' (l_name l))" by (simp add: s'(1))
  qed
  show "parts_dom s'" unfolding parts_dom_def
  proof (intro allI)
    fix i p
    have none: "bm_get (partitions s) (sid, p) = None" using partsD [OF D(8), of sid p] new by simp
    show "bm_get (partitions s') (i, p) \<noteq> None \<longleftrightarrow> (\<exists>st. bm_get (streams s') i = Some st \<and> p < s_partitions st)"
    proof (cases "i = sid")
      case True
      then show ?thesis using none by (simp add: s' insert_partitions_get)
    next
      case False
      then show ?thesis using partsD [OF D(8), of i p] by (simp add: s' insert_partitions_get)
    qed
  qed
  show "ledger_inv s'" using D(12) unfolding ledger_inv_def s' by auto
qed

lemma create_stream_cat:
  assumes "create_stream s ns name parts class rt = (s', r)" "cat_inv s" "last_stream_id s < U64_MAX"
  shows "cat_inv s'"
  using assms(1,3)
proof (cases rule: create_stream_cases)
  case (created sid)
  let ?st = "\<lparr>s_id = sid, s_namespace = ns, s_name = name, s_partitions = parts, s_class = class, s_retention = rt\<rparr>"
  note D = cat_invD [OF assms(2)]
  have new: "bm_get (streams s) sid = None" using fresh_stream [OF D(2)] created(1) by simp
  show ?thesis
  proof (rule cat_invI)
    show "streams_ok s'"
      using stt.add [OF D(2) [unfolded streams_ok_def], of ?st] created(1,6)
      by (simp add: streams_ok_def created(8) stream_key_def)
    show "source_inv s'" "parts_dom s'" "ledger_inv s'"
      by (rule stream_added_refs [OF assms(2) created(1), of s' ?st]; simp add: created(8))+
    show "space_inv s'" using D(7) created(5) unfolding space_inv_def created(8) by auto
    show "alias_inv s'" unfolding alias_inv_def
      by (rule alias_ok_mono [OF D(9) [unfolded alias_inv_def]]) (auto simp: created(8) coll_in_def name_taken_def)
    show "owned_inv s'"
    proof (rule ownedI)
      fix cid c assume c: "bm_get (collections s') cid = Some c"
      then have "bm_get (collections s) cid = Some c" by (simp add: created(8))
      then obtain st where st: "bm_get (streams s) (c_stream c) = Some st" "stream_matches c st"
        using ownedD(1) [OF D(5)] by blast
      then have "c_stream c \<noteq> sid" using new by auto
      then show "\<exists>st. bm_get (streams s') (c_stream c) = Some st \<and> stream_matches c st" using st by (simp add: created(8))
    qed (use ownedD(2-4) [OF D(5)] created(2) in \<open>auto simp: created(8) split: if_splits\<close>)
  qed (use D in \<open>simp_all add: created(8) namespaces_ok_def links_ok_def colls_ok_def ptr_inv_def hot_inv_def coll_in_def\<close>)
qed (use assms in simp)

section \<open>Links, retention and schemas\<close>

lemma create_link_cases:
  assumes "create_link s ns name src tgt opts = (s', r)" "last_link_id s < U64_MAX"
  obtains (error) e where "s' = s" "r = Inl e"
  | (created) lid st where "lid = LinkId (Suc (last_link_id s))" "\<not> prefix ''_'' name"
      "ns \<in> dom (bm_get (namespaces s))" "bm_get (link_names s) (ns, name) = None"
      "bm_get (streams s) src = Some st" "s_namespace st = ns" "\<not> prefix ''_'' (s_name st)"
      "r = Inr (LinkCreated lid)"
      "s' = s\<lparr>last_link_id := Suc (last_link_id s), link_names := bm_insert (ns, name) lid (link_names s),
        links := bm_insert lid \<lparr>l_id = lid, l_namespace = ns, l_name = name, l_source = src,
          l_target = tgt, l_options = opts\<rparr> (links s)\<rparr>"
proof (cases r)
  case (Inl e)
  then show ?thesis using assms(1) create_link_error error by blast
next
  case (Inr y)
  obtain s1 lid where ins: "insert_link s ns name src tgt opts = (s1, lid)" by fastforce
  note eq = insert_link_eq [OF ins assms(2)]
  have facts: "\<not> prefix ''_'' name" "ns \<in> dom (bm_get (namespaces s))" "bm_get (link_names s) (ns, name) = None"
    "check_source s ns src = Inr ()" "r = Inr (LinkCreated lid)" "s' = s1"
    using assms(1) Inr ins by (auto simp: create_link_def attempt_eq_Inr domIff split: option.splits if_splits)
  obtain st where "bm_get (streams s) src = Some st" "s_namespace st = ns" "\<not> prefix ''_'' (s_name st)"
    using facts(4) by (auto simp: check_source_def split: option.splits if_splits)
  then show ?thesis using facts(1-3,5) eq(2) facts(6) by (intro created [OF eq(1)]) simp_all
qed

lemma create_link_cat:
  assumes "create_link s ns name src tgt opts = (s', r)" "cat_inv s" "last_link_id s < U64_MAX"
  shows "cat_inv s'"
  using assms(1,3)
proof (cases rule: create_link_cases)
  case (created lid st)
  let ?l = "\<lparr>l_id = lid, l_namespace = ns, l_name = name, l_source = src, l_target = tgt, l_options = opts\<rparr>"
  note D = cat_invD [OF assms(2)]
  have new: "bm_get (links s) lid = None" using fresh_link [OF D(3)] created(1) by simp
  show ?thesis
  proof (rule cat_invI)
    show "links_ok s'"
      using lit.add [OF D(3) [unfolded links_ok_def], of ?l] created(1,4)
      by (simp add: links_ok_def created(9) link_key_def)
    show "source_inv s'" using sourceD [OF D(6)] created(5-7) unfolding source_inv_def created(9) by simp
    show "alias_inv s'" unfolding alias_inv_def
      by (rule alias_ok_mono [OF D(9) [unfolded alias_inv_def]]) (auto simp: created(9) coll_in_def name_taken_def)
    show "owned_inv s'"
    proof (rule ownedI)
      fix cid c assume c: "bm_get (collections s') cid = Some c"
      then have "bm_get (collections s) cid = Some c" by (simp add: created(9))
      then obtain l where l: "bm_get (links s) (c_link c) = Some l" "link_matches c l"
        using ownedD(2) [OF D(5)] by blast
      then have "c_link c \<noteq> lid" using new by auto
      then show "\<exists>l. bm_get (links s') (c_link c) = Some l \<and> link_matches c l" using l by (simp add: created(9))
    qed (use ownedD(1,3,4) [OF D(5)] created(2) in \<open>auto simp: created(9) split: if_splits\<close>)
  qed (use D in \<open>simp_all add: created(9) namespaces_ok_def streams_ok_def colls_ok_def ptr_inv_def hot_inv_def
    coll_in_def space_inv_def parts_dom_def ledger_inv_def\<close>)
qed (use assms in simp)

lemma set_retention_cat:
  assumes "set_retention s sid rt = (s', r)" "cat_inv s"
  shows "cat_inv s'"
proof (cases r)
  case (Inl e)
  then show ?thesis using assms set_retention_error by blast
next
  case (Inr y)
  obtain st where st: "bm_get (streams s) sid = Some st" "\<not> prefix ''_'' (s_name st)"
    and s': "s' = s\<lparr>streams := bm_insert sid (st\<lparr>s_retention := rt\<rparr>) (streams s)\<rparr>"
    using assms(1) Inr by (auto simp: set_retention_def attempt_eq_Inr split: if_splits)
  note D = cat_invD [OF assms(2)]
  have dom: "(\<exists>st'. bm_get (streams s') i = Some st' \<and> P (s_namespace st') (s_name st') (s_partitions st'))
    \<longleftrightarrow> (\<exists>st'. bm_get (streams s) i = Some st' \<and> P (s_namespace st') (s_name st') (s_partitions st'))" for i P
    using st(1) by (simp add: s')
  show ?thesis
  proof (rule cat_invI)
    show "streams_ok s'"
      using stt.update [OF D(2) [unfolded streams_ok_def] st(1), of "st\<lparr>s_retention := rt\<rparr>"]
        stt.row [OF D(2) [unfolded streams_ok_def] st(1)]
      by (simp add: streams_ok_def s' stream_key_def)
    show "source_inv s'" using D(6) dom [of _ "\<lambda>n m _. n = N \<and> (prefix ''_'' m \<longrightarrow> Q)" for N Q]
      unfolding source_inv_def by (simp add: s')
    show "parts_dom s'" using D(8) dom [of _ "\<lambda>_ _ k. p < k" for p] unfolding parts_dom_def by (simp add: s')
    show "alias_inv s'" unfolding alias_inv_def
      by (rule alias_ok_mono [OF D(9) [unfolded alias_inv_def]]) (auto simp: s' coll_in_def name_taken_def)
    show "owned_inv s'"
    proof (rule ownedI)
      fix cid c assume c: "bm_get (collections s') cid = Some c"
      then have "bm_get (collections s) cid = Some c" by (simp add: s')
      then obtain st' where st': "bm_get (streams s) (c_stream c) = Some st'" "stream_matches c st'"
        using ownedD(1) [OF D(5)] by blast
      then have "c_stream c \<noteq> sid" using st by (auto simp: stream_matches_def)
      then show "\<exists>st. bm_get (streams s') (c_stream c) = Some st \<and> stream_matches c st" using st' by (simp add: s')
    qed (use ownedD(2-4) [OF D(5)] st in \<open>auto simp: s' split: if_splits\<close>)
    show "space_inv s'" using D(7) st(1) unfolding space_inv_def s' by auto
    show "ledger_inv s'" using D(12) unfolding ledger_inv_def s' by auto
  qed (use D in \<open>simp_all add: s' namespaces_ok_def links_ok_def colls_ok_def ptr_inv_def hot_inv_def coll_in_def\<close>)
qed

lemma update_collection_schema_cat:
  assumes "update_collection_schema s cid ver schema = (s', r)" "cat_inv s"
  shows "cat_inv s'"
  using assms(1)
proof (cases rule: update_collection_schema_cases)
  case (updated c)
  note D = cat_invD [OF assms(2)]
  let ?c = "c\<lparr>c_schema := schema\<lparr>sc_version := ver + 1\<rparr>\<rparr>"
  have s': "s' = s\<lparr>collections := bm_insert cid ?c (collections s)\<rparr>" by (fact updated)
  have row: "c_id c = cid" using cot.row [OF D(4) [unfolded colls_ok_def] updated(1)] by simp
  have same: "coll_in s' = coll_in s" using updated(1) by (auto simp: fun_eq_iff coll_in_def s')
  show ?thesis
  proof (rule cat_invI)
    show "colls_ok s'"
      using cot.update [OF D(4) [unfolded colls_ok_def] updated(1), of ?c] row
      by (simp add: colls_ok_def s' coll_key_def)
    show "alias_inv s'" unfolding alias_inv_def
      by (rule alias_ok_mono [OF D(9) [unfolded alias_inv_def]]) (auto simp: same, auto simp: s' name_taken_def)
    show "owned_inv s'"
    proof (rule ownedI)
      fix i d assume d: "bm_get (collections s') i = Some d"
      then obtain d' where d': "bm_get (collections s) i = Some d'" "c_stream d = c_stream d'" "c_link d = c_link d'"
        "stream_matches d = stream_matches d'" "link_matches d = link_matches d'"
        using updated(1) by (auto simp: s' fun_eq_iff stream_matches_def link_matches_def split: if_splits)
      show "\<exists>st. bm_get (streams s') (c_stream d) = Some st \<and> stream_matches d st"
        "\<exists>l. bm_get (links s') (c_link d) = Some l \<and> link_matches d l"
        using ownedD(1,2) [OF D(5) d'(1)] unfolding d' by (simp_all add: s')
    next
      fix sid st assume "bm_get (streams s') sid = Some st" "prefix ''_'' (s_name st)"
      then obtain i d where "bm_get (collections s) i = Some d" "c_stream d = sid"
        using ownedD(3) [OF D(5), of sid st] by (auto simp: s')
      then show "\<exists>i d. bm_get (collections s') i = Some d \<and> c_stream d = sid"
        using updated(1) by (intro exI [of _ i]) (auto simp: s')
    next
      fix lid l assume "bm_get (links s') lid = Some l" "prefix ''_'' (l_name l)"
      then obtain i d where "bm_get (collections s) i = Some d" "c_link d = lid"
        using ownedD(4) [OF D(5), of lid l] by (auto simp: s')
      then show "\<exists>i d. bm_get (collections s') i = Some d \<and> c_link d = lid"
        using updated(1) by (intro exI [of _ i]) (auto simp: s')
    qed
    show "space_inv s'" using D(7) updated(1) unfolding space_inv_def s' by auto
    show "ptr_inv s'" using D(10) unfolding ptr_inv_def same by (simp add: s')
    show "hot_inv s'" using D(11) unfolding hot_inv_def s' by auto
  qed (use D in \<open>simp_all add: s' namespaces_ok_def links_ok_def streams_ok_def source_inv_def parts_dom_def ledger_inv_def\<close>)
qed (use assms in simp_all)

section \<open>Collections\<close>

text \<open>A collection's identifier is new, so its implicit stream's and link's name is free.\<close>

lemma implicit_name_free:
  assumes inv: "cat_inv s" and new: "bm_get (collections s) cid = None"
  shows "bm_get (stream_names s) (ns, implicit_name name cid) = None"
    "bm_get (link_names s) (ns, implicit_name name cid) = None"
proof -
  note D = cat_invD [OF inv]
  have no: False if c: "bm_get (collections s) i = Some c" and n: "implicit_name (c_name c) (c_id c) = implicit_name name cid" for i c
    using cot.row [OF D(4) [unfolded colls_ok_def] c] c n new by (simp add: implicit_name_inject)
  show "bm_get (stream_names s) (ns, implicit_name name cid) = None"
  proof (rule ccontr)
    assume "bm_get (stream_names s) (ns, implicit_name name cid) \<noteq> None"
    then obtain sid st where st: "bm_get (streams s) sid = Some st" "s_name st = implicit_name name cid"
      using stt.named [OF D(2) [unfolded streams_ok_def]] by (auto simp: stream_key_def)
    then obtain i c where c: "bm_get (collections s) i = Some c" "c_stream c = sid"
      using ownedD(3) [OF D(5), of sid st] by auto
    then show False using ownedD(1) [OF D(5) c(1)] st no [OF c(1)] by (auto simp: stream_matches_def)
  qed
  show "bm_get (link_names s) (ns, implicit_name name cid) = None"
  proof (rule ccontr)
    assume "bm_get (link_names s) (ns, implicit_name name cid) \<noteq> None"
    then obtain lid l where l: "bm_get (links s) lid = Some l" "l_name l = implicit_name name cid"
      using lit.named [OF D(3) [unfolded links_ok_def]] by (auto simp: link_key_def)
    then obtain i c where c: "bm_get (collections s) i = Some c" "c_link c = lid"
      using ownedD(4) [OF D(5), of lid l] by auto
    then show False using ownedD(2) [OF D(5) c(1)] l no [OF c(1)] by (auto simp: link_matches_def)
  qed
qed

lemma create_collection_eq:
  assumes "create_collection s ns name schema parts = (s', r)" "cat_inv s"
    "last_collection_id s < U64_MAX" "last_stream_id s < U64_MAX" "last_link_id s < U64_MAX"
  obtains (error) e where "s' = s" "r = Inl e"
  | (created) cid sid lid where
      "ns \<in> dom (bm_get (namespaces s))" "\<not> prefix ''_'' name" "1 \<le> parts"
      "validate schema = Inr ()" "sc_version schema = 1" "bm_get (collection_names s) (ns, name) = None"
      "bm_get (aliases s) (ns, name) = None" "bm_get (alias_targets s) (ns, name) = None"
      "cid = CollectionId (Suc (last_collection_id s))" "sid = StreamId (Suc (last_stream_id s))"
      "lid = LinkId (Suc (last_link_id s))" "r = Inr (CollectionCreated cid sid lid)"
      "s' = s\<lparr>last_collection_id := Suc (last_collection_id s),
         last_stream_id := Suc (last_stream_id s), partitions := insert_partitions (partitions s) sid parts,
         stream_names := bm_insert (ns, implicit_name name cid) sid (stream_names s),
         streams := bm_insert sid \<lparr>s_id = sid, s_namespace = ns, s_name = implicit_name name cid, s_partitions = parts,
           s_class = Standard, s_retention = Retention_default\<rparr> (streams s),
         last_link_id := Suc (last_link_id s),
         link_names := bm_insert (ns, implicit_name name cid) lid (link_names s),
         links := bm_insert lid \<lparr>l_id = lid, l_namespace = ns, l_name = implicit_name name cid, l_source = sid,
           l_target = \<lparr>t_kind = COLLECTION_KIND, t_name = name\<rparr>, l_options = bm_empty\<rparr> (links s),
         collection_names := bm_insert (ns, name) cid (collection_names s),
         collections := bm_insert cid \<lparr>c_id = cid, c_namespace = ns, c_name = name, c_schema = schema,
           c_partitions = parts, c_stream = sid, c_link = lid\<rparr> (collections s)\<rparr>"
  using assms(1)
proof (cases rule: create_collection_cases)
  case (error e)
  then show ?thesis by (rule that(1))
next
  case c: (created cid s2 sid s3 lid)
  have cid: "cid = CollectionId (Suc (last_collection_id s))" using c(12) assms(3) by (simp add: wadd64_exact)
  have s2: "sid = StreamId (Suc (last_stream_id s))" using insert_stream_eq(1) [OF c(13)] assms(4) by simp
  have lt: "last_link_id s2 < U64_MAX" "last_link_id s2 = last_link_id s"
    using insert_stream_eq(2) [OF c(13)] assms(4,5) by simp_all
  have lid: "lid = LinkId (Suc (last_link_id s))" using insert_link_eq(1) [OF c(14) lt(1)] lt(2) by simp
  have free: "bm_get (collection_names s) (ns, name) = None"
  proof (cases "bm_get (collection_names s) (ns, name)")
    case (Some i)
    then show ?thesis using c(9) cot.named [OF cat_invD(4) [OF assms(2), unfolded colls_ok_def], of "(ns, name)" i] by auto
  qed
  show ?thesis
  proof (rule that(2) [OF c(1,4,5,7,8) free c(10,11) cid s2 lid c(15)])
    have e2: "s2 = s\<lparr>last_collection_id := coll_u64 cid, last_stream_id := Suc (last_stream_id s),
         partitions := insert_partitions (partitions s) sid parts,
         stream_names := bm_insert (ns, implicit_name name cid) sid (stream_names s),
         streams := bm_insert sid \<lparr>s_id = sid, s_namespace = ns, s_name = implicit_name name cid, s_partitions = parts,
           s_class = Standard, s_retention = Retention_default\<rparr> (streams s)\<rparr>"
      using insert_stream_eq(2) [OF c(13)] assms(4) by simp
    have num: "coll_u64 cid = Suc (last_collection_id s)" by (simp add: cid)
    note e3 = insert_link_eq(2) [OF c(14) lt(1)]
    show "s' = s\<lparr>last_collection_id := Suc (last_collection_id s),
         last_stream_id := Suc (last_stream_id s), partitions := insert_partitions (partitions s) sid parts,
         stream_names := bm_insert (ns, implicit_name name cid) sid (stream_names s),
         streams := bm_insert sid \<lparr>s_id = sid, s_namespace = ns, s_name = implicit_name name cid, s_partitions = parts,
           s_class = Standard, s_retention = Retention_default\<rparr> (streams s),
         last_link_id := Suc (last_link_id s),
         link_names := bm_insert (ns, implicit_name name cid) lid (link_names s),
         links := bm_insert lid \<lparr>l_id = lid, l_namespace = ns, l_name = implicit_name name cid, l_source = sid,
           l_target = \<lparr>t_kind = COLLECTION_KIND, t_name = name\<rparr>, l_options = bm_empty\<rparr> (links s),
         collection_names := bm_insert (ns, name) cid (collection_names s),
         collections := bm_insert cid \<lparr>c_id = cid, c_namespace = ns, c_name = name, c_schema = schema,
           c_partitions = parts, c_stream = sid, c_link = lid\<rparr> (collections s)\<rparr>"
      unfolding c(16) e3 e2 by (simp add: num)
  qed
qed

lemma owned_added:
  assumes inv: "owned_inv s"
    and newc: "bm_get (collections s) cid = None" and news: "bm_get (streams s) sid = None"
    and newl: "bm_get (links s) lid = None"
    and st': "bm_get (streams s') = (bm_get (streams s))(sid \<mapsto> st)"
    and l': "bm_get (links s') = (bm_get (links s))(lid \<mapsto> l)"
    and c': "bm_get (collections s') = (bm_get (collections s))(cid \<mapsto> c)"
    and own: "c_stream c = sid" "c_link c = lid" "stream_matches c st" "link_matches c l"
  shows "owned_inv s'"
proof (rule ownedI)
  fix i d assume c: "bm_get (collections s') i = Some d"
  show "\<exists>st. bm_get (streams s') (c_stream d) = Some st \<and> stream_matches d st"
  proof (cases "i = cid")
    case True
    then show ?thesis using c assms(8-11) by (auto simp: c' st')
  next
    case False
    then obtain x where "bm_get (streams s) (c_stream d) = Some x" "stream_matches d x"
      using ownedD(1) [OF inv, of i d] c by (auto simp: c')
    then show ?thesis using news by (intro exI [of _ x]) (auto simp: st')
  qed
  show "\<exists>l. bm_get (links s') (c_link d) = Some l \<and> link_matches d l"
  proof (cases "i = cid")
    case True
    then show ?thesis using c assms(8-11) by (auto simp: c' l')
  next
    case False
    then obtain x where "bm_get (links s) (c_link d) = Some x" "link_matches d x"
      using ownedD(2) [OF inv, of i d] c by (auto simp: c')
    then show ?thesis using newl by (intro exI [of _ x]) (auto simp: l')
  qed
next
  fix i x assume st: "bm_get (streams s') i = Some x" "prefix ''_'' (s_name x)"
  show "\<exists>j c. bm_get (collections s') j = Some c \<and> c_stream c = i"
  proof (cases "i = sid")
    case True
    then show ?thesis using assms(8,9) by (intro exI [of _ cid]) (simp add: c')
  next
    case False
    then obtain j d where "bm_get (collections s) j = Some d" "c_stream d = i"
      using ownedD(3) [OF inv, of i x] st by (auto simp: st')
    then show ?thesis using newc by (intro exI [of _ j] exI [of _ d]) (auto simp: c')
  qed
next
  fix i x assume l: "bm_get (links s') i = Some x" "prefix ''_'' (l_name x)"
  show "\<exists>j c. bm_get (collections s') j = Some c \<and> c_link c = i"
  proof (cases "i = lid")
    case True
    then show ?thesis using assms(8,9) by (intro exI [of _ cid]) (simp add: c')
  next
    case False
    then obtain j d where "bm_get (collections s) j = Some d" "c_link d = i"
      using ownedD(4) [OF inv, of i x] l by (auto simp: l')
    then show ?thesis using newc by (intro exI [of _ j] exI [of _ d]) (auto simp: c')
  qed
qed

lemma create_collection_cat:
  assumes "create_collection s ns name schema parts = (s', r)" and inv: "cat_inv s"
    and bounds: "last_collection_id s < U64_MAX" "last_stream_id s < U64_MAX" "last_link_id s < U64_MAX"
  shows "cat_inv s'"
  using assms
proof (cases rule: create_collection_eq)
  case (created cid sid lid)
  note s' = created(13)
  let ?st = "\<lparr>s_id = sid, s_namespace = ns, s_name = implicit_name name cid, s_partitions = parts,
    s_class = Standard, s_retention = Retention_default\<rparr>"
  let ?l = "\<lparr>l_id = lid, l_namespace = ns, l_name = implicit_name name cid, l_source = sid,
    l_target = \<lparr>t_kind = COLLECTION_KIND, t_name = name\<rparr>, l_options = bm_empty\<rparr>"
  let ?c = "\<lparr>c_id = cid, c_namespace = ns, c_name = name, c_schema = schema,
    c_partitions = parts, c_stream = sid, c_link = lid\<rparr>"
  note D = cat_invD [OF inv]
  have newc: "bm_get (collections s) cid = None" using fresh_coll [OF D(4)] created(9) by simp
  have news: "bm_get (streams s) sid = None" using fresh_stream [OF D(2)] created(10) by simp
  have newl: "bm_get (links s) lid = None" using fresh_link [OF D(3)] created(11) by simp
  note free = implicit_name_free [OF inv newc]
  have in_mono: "coll_in s n i \<Longrightarrow> coll_in s' n i" for n i using newc by (auto simp: coll_in_def s')
  have refs: "source_inv (s'\<lparr>links := links s\<rparr>)" "parts_dom (s'\<lparr>links := links s\<rparr>)" "ledger_inv (s'\<lparr>links := links s\<rparr>)"
    by (rule stream_added_refs [OF inv created(10), of _ ?st]; simp add: s')+
  have st': "bm_get (streams s') = (bm_get (streams s))(sid \<mapsto> ?st)"
    and l': "bm_get (links s') = (bm_get (links s))(lid \<mapsto> ?l)"
    and c': "bm_get (collections s') = (bm_get (collections s))(cid \<mapsto> ?c)" by (simp_all add: s')
  show ?thesis
  proof (rule cat_invI)
    show "streams_ok s'" using stt.add [OF D(2) [unfolded streams_ok_def], of ?st] created(10) free(1)
      by (simp add: streams_ok_def s' stream_key_def)
    show "links_ok s'" using lit.add [OF D(3) [unfolded links_ok_def], of ?l] created(11) free(2)
      by (simp add: links_ok_def s' link_key_def)
    show "colls_ok s'" using cot.add [OF D(4) [unfolded colls_ok_def], of ?c] created(6,9)
      by (simp add: colls_ok_def s' coll_key_def)
    show "namespaces_ok s'" using D(1) by (simp add: namespaces_ok_def s')
    show "parts_dom s'" "ledger_inv s'" using refs(2,3) by (simp_all add: parts_dom_def ledger_inv_def)
    show "source_inv s'" using sourceD [OF refs(1)] unfolding source_inv_def l' st' by (auto simp: s')
    show "space_inv s'" using D(7) created(1) unfolding space_inv_def c' st' by (auto simp: s')
    show "ptr_inv s'" using D(10) in_mono unfolding ptr_inv_def by (auto simp: s') blast
    show "hot_inv s'" using D(11) unfolding hot_inv_def c' by (auto simp: s')
    show "alias_inv s'" unfolding alias_inv_def
    proof (rule alias_ok_mono [OF D(9) [unfolded alias_inv_def]])
      fix n a assume "name_taken s' n a" "\<not> name_taken s n a"
      then have "n = ns" "a = name" by (auto simp: name_taken_def s' split: if_splits)
      then show "alias_members_of s n a = bm_empty" using created(7,8) by (simp add: alias_members_of_def)
    qed (use in_mono in \<open>simp_all add: s'\<close>)
    show "owned_inv s'"
      by (rule owned_added [OF D(5) newc news newl st' l' c']) (simp_all add: stream_matches_def link_matches_def)
  qed
qed (use inv in simp_all)

section \<open>The log\<close>

lemma insert_partitions_log:
  assumes inv: "log_inv ct s" and new: "\<And>p. bm_get (partitions s) (sid, p) = None"
    and s': "partitions s' = insert_partitions (partitions s) sid n" "clock_ms s' = clock_ms s"
      "wal_live_chunks s' = wal_live_chunks s" "retired s' = retired s" "wal_commits s' = wal_commits s"
  shows "log_inv ct s'"
proof -
  have empty: "entry_count (entries PartitionState_default) k obj = 0" for k obj
    by (simp add: entries_def PartitionState_default_def bm_values_def)
  have count: "sum_list (map (\<lambda>x. entry_count (entries (snd x)) k obj) (bm_iter (insert_partitions (partitions s) sid m)))
    = ref_count s k obj" for k obj m
  proof (induction m)
    case (Suc m)
    have "bm_get (insert_partitions (partitions s) sid m) (sid, m) = None" by (simp add: insert_partitions_get new)
    then show ?case
      using bm_insert_sum [of "\<lambda>x. entry_count (entries (snd x)) k obj" "(sid, m)" PartitionState_default
          "insert_partitions (partitions s) sid m"] Suc by (simp add: empty)
  qed (simp add: ref_count_def)
  have "obj_inv ct s' []"
    by (rule obj_inv_moved [of ct s "[]"]) (use inv count s' in \<open>simp_all add: log_inv_def ref_count_def\<close>)
  moreover have "parts_inv s'" using inv unfolding log_inv_def parts_inv_def s'
    by (auto simp: insert_partitions_get split: if_splits)
  ultimately show ?thesis by (simp add: log_inv_def)
qed

lemma create_stream_log:
  assumes "create_stream s ns name parts class rt = (s', r)" "cat_inv s" "last_stream_id s < U64_MAX" "log_inv ct s"
  shows "log_inv ct s'"
  using assms(1,3)
proof (cases rule: create_stream_cases)
  case (created sid)
  note D = cat_invD [OF assms(2)]
  have "bm_get (partitions s) (sid, p) = None" for p
    using partsD [OF D(8), of sid p] fresh_stream [OF D(2)] created(1) by auto
  then show ?thesis by (rule insert_partitions_log [OF assms(4)]) (simp_all add: created(8))
qed (use assms in simp)

lemma create_collection_log:
  assumes "create_collection s ns name schema parts = (s', r)" and inv: "cat_inv s"
    and bounds: "last_collection_id s < U64_MAX" "last_stream_id s < U64_MAX" "last_link_id s < U64_MAX"
    and log: "log_inv ct s"
  shows "log_inv ct s'"
  using assms(1-5)
proof (cases rule: create_collection_eq)
  case (created cid sid lid)
  note D = cat_invD [OF inv]
  have "bm_get (partitions s) (sid, p) = None" for p
    using partsD [OF D(8), of sid p] fresh_stream [OF D(2)] created(10) by auto
  then show ?thesis by (rule insert_partitions_log [OF log]) (simp_all add: created(13))
qed (use log in simp)

end
