(* ===== verification/DropOps.thy ===== *)
theory DropOps
  imports CreateOps
begin

text \<open>
  Dropping a collection removes it, its implicit stream and link, its pointer, its hot
  configuration and its membership of every alias, and keeps both invariants.
\<close>

section \<open>What a drop changes\<close>

lemma remove_stream_fields:
  assumes "bm_get (streams s) sid = Some st"
  shows "streams (remove_stream s sid) = bm_remove sid (streams s)"
    "stream_names (remove_stream s sid) = bm_remove (s_namespace st, s_name st) (stream_names s)"
    "bm_get (idempotency (remove_stream s sid)) (i, key) = (if i = sid then None else bm_get (idempotency s) (i, key))"
    "bm_get (partitions (remove_stream s sid)) (i, p)
       = (if i = sid \<and> p < s_partitions st then None else bm_get (partitions s) (i, p))"
  using assms by (simp_all add: remove_stream_def drop_stream_idempotency_def remove_partitions_get bm_get_retain)
    (auto split: option.splits)

lemma remove_stream_frame [simp]:
  "last_namespace_id (remove_stream s sid) = last_namespace_id s"
  "last_stream_id (remove_stream s sid) = last_stream_id s"
  "namespaces (remove_stream s sid) = namespaces s"
  "namespace_names (remove_stream s sid) = namespace_names s"
  "wal_commits (remove_stream s sid) = wal_commits s"
  "leases (remove_stream s sid) = leases s"
  "pointers (remove_stream s sid) = pointers s"
  "last_link_id (remove_stream s sid) = last_link_id s"
  "links (remove_stream s sid) = links s"
  "link_names (remove_stream s sid) = link_names s"
  "last_collection_id (remove_stream s sid) = last_collection_id s"
  "collections (remove_stream s sid) = collections s"
  "collection_names (remove_stream s sid) = collection_names s"
  "aliases (remove_stream s sid) = aliases s"
  "collection_hot (remove_stream s sid) = collection_hot s"
  "alias_targets (remove_stream s sid) = alias_targets s"
  by (simp_all add: remove_stream_def drop_stream_idempotency_def split: option.split)

text \<open>
  A drop on a state of the invariant finds the collection with its stream and link, or
  does nothing but move the clock.
\<close>

definition dropped_row :: "MetaState \<Rightarrow> NamespaceId \<Rightarrow> string \<Rightarrow> u64 \<Rightarrow> CollectionId \<Rightarrow> MetaState" where
  "dropped_row s ns name now cid = s\<lparr>clock_ms := max (clock_ms s) now,
     collection_names := bm_remove (ns, name) (collection_names s), collections := bm_remove cid (collections s)\<rparr>"

lemma drop_collection_cases:
  assumes "drop_collection s ns name now = (s', r)" and inv: "cat_inv s"
  obtains (absent) "bm_get (collection_names s) (ns, name) = None" "r = Inr (CollectionDropped None)"
      "s' = s\<lparr>clock_ms := max (clock_ms s) now\<rparr>"
  | (dropped) cid c st l s5 where "bm_get (collections s) cid = Some c" "c_namespace c = ns" "c_name c = name"
      "bm_get (streams s) (c_stream c) = Some st" "stream_matches c st"
      "bm_get (links s) (c_link c) = Some l" "link_matches c l" "r = Inr (CollectionDropped (Some cid))"
      "s5 = forget_member (dropped_row s ns name now cid) cid"
      "s' = (let s6 = remove_stream (s5\<lparr>collection_hot := bm_remove cid (collection_hot s5)\<rparr>) (c_stream c) in
        s6\<lparr>links := bm_remove (c_link c) (links s6),
          link_names := bm_remove (l_namespace l, l_name l) (link_names s6),
          pointers := bm_remove (ns, collection_pointer_key cid) (pointers s6),
          retired := bm_insert (collection_pk_prefix ns cid) (clock_ms s6)
            (bm_insert (collection_prefix ns cid) (clock_ms s6) (retired s6))\<rparr>)"
proof (cases "bm_get (collection_names s) (ns, name)")
  case None
  then show ?thesis using assms(1) by (intro absent) (auto simp: drop_collection_def Let_def)
next
  case (Some cid)
  note D = cat_invD [OF inv]
  obtain c where c: "bm_get (collections s) cid = Some c" "c_namespace c = ns" "c_name c = name"
    using Some cot.named [OF D(4) [unfolded colls_ok_def], of "(ns, name)" cid] by (auto simp: coll_key_def)
  obtain st where st: "bm_get (streams s) (c_stream c) = Some st" "stream_matches c st"
    using ownedD(1) [OF D(5) c(1)] by blast
  obtain l where l: "bm_get (links s) (c_link c) = Some l" "link_matches c l"
    using ownedD(2) [OF D(5) c(1)] by blast
  let ?s5 = "forget_member (dropped_row s ns name now cid) cid"
  obtain al at where fm: "?s5 = (dropped_row s ns name now cid)\<lparr>aliases := al, alias_targets := at\<rparr>"
    using forget_member_same by (rule same_but_aliasesD)
  have links: "bm_get (links (remove_stream (?s5\<lparr>collection_hot := bm_remove cid (collection_hot ?s5)\<rparr>) (c_stream c))) (c_link c) = Some l"
    using l(1) unfolding fm by (simp add: dropped_row_def)
  show ?thesis
  proof (rule dropped [OF c st l _ refl])
    show "r = Inr (CollectionDropped (Some cid))" using assms(1) Some c by (auto simp: drop_collection_def Let_def)
    show "s' = (let s6 = remove_stream (?s5\<lparr>collection_hot := bm_remove cid (collection_hot ?s5)\<rparr>) (c_stream c) in
        s6\<lparr>links := bm_remove (c_link c) (links s6),
          link_names := bm_remove (l_namespace l, l_name l) (link_names s6),
          pointers := bm_remove (ns, collection_pointer_key cid) (pointers s6),
          retired := bm_insert (collection_pk_prefix ns cid) (clock_ms s6)
            (bm_insert (collection_prefix ns cid) (clock_ms s6) (retired s6))\<rparr>)"
      using assms(1) Some c links
      by (auto simp: drop_collection_def Let_def dropped_row_def forget_member_def remove_link_def)
  qed
qed

text \<open>The fields of the state after a drop, for the invariant.\<close>

lemma dropped_fields:
  assumes s5: "s5 = forget_member (dropped_row s ns name now cid) cid"
    and st: "bm_get (streams s) sid = Some st"
    and s': "s' = (let s6 = remove_stream (s5\<lparr>collection_hot := bm_remove cid (collection_hot s5)\<rparr>) sid in
        s6\<lparr>links := bm_remove lid (links s6), link_names := bm_remove lkey (link_names s6),
          pointers := bm_remove pkey (pointers s6), retired := ret s6\<rparr>)"
  shows "namespaces s' = namespaces s" "namespace_names s' = namespace_names s"
    "last_namespace_id s' = last_namespace_id s" "last_stream_id s' = last_stream_id s"
    "last_link_id s' = last_link_id s" "last_collection_id s' = last_collection_id s"
    "leases s' = leases s" "wal_commits s' = wal_commits s"
    "collection_names s' = bm_remove (ns, name) (collection_names s)" "collections s' = bm_remove cid (collections s)"
    "streams s' = bm_remove sid (streams s)" "stream_names s' = bm_remove (s_namespace st, s_name st) (stream_names s)"
    "links s' = bm_remove lid (links s)" "link_names s' = bm_remove lkey (link_names s)"
    "pointers s' = bm_remove pkey (pointers s)" "collection_hot s' = bm_remove cid (collection_hot s)"
    "aliases s' = aliases s5" "alias_targets s' = alias_targets s5"
    "bm_get (idempotency s') (i, key) = (if i = sid then None else bm_get (idempotency s) (i, key))"
    "bm_get (partitions s') (i, p) = (if i = sid \<and> p < s_partitions st then None else bm_get (partitions s) (i, p))"
proof -
  obtain al at where fm: "s5 = (dropped_row s ns name now cid)\<lparr>aliases := al, alias_targets := at\<rparr>"
    using forget_member_same s5 by (metis same_but_aliasesD)
  have st': "bm_get (streams (s5\<lparr>collection_hot := bm_remove cid (collection_hot s5)\<rparr>)) sid = Some st"
    using st by (simp add: fm dropped_row_def)
  note F = remove_stream_fields [OF st']
  show "namespaces s' = namespaces s" "namespace_names s' = namespace_names s"
    "last_namespace_id s' = last_namespace_id s" "last_stream_id s' = last_stream_id s"
    "last_link_id s' = last_link_id s" "last_collection_id s' = last_collection_id s"
    "leases s' = leases s" "wal_commits s' = wal_commits s"
    "collection_names s' = bm_remove (ns, name) (collection_names s)" "collections s' = bm_remove cid (collections s)"
    "links s' = bm_remove lid (links s)" "link_names s' = bm_remove lkey (link_names s)"
    "pointers s' = bm_remove pkey (pointers s)" "collection_hot s' = bm_remove cid (collection_hot s)"
    "aliases s' = aliases s5" "alias_targets s' = alias_targets s5"
    unfolding s' Let_def by (simp_all add: fm dropped_row_def)
  show "streams s' = bm_remove sid (streams s)" "stream_names s' = bm_remove (s_namespace st, s_name st) (stream_names s)"
    "bm_get (idempotency s') (i, key) = (if i = sid then None else bm_get (idempotency s) (i, key))"
    "bm_get (partitions s') (i, p) = (if i = sid \<and> p < s_partitions st then None else bm_get (partitions s) (i, p))"
    unfolding s' Let_def by (simp_all add: F) (simp_all add: fm dropped_row_def)
qed

section \<open>Invariants\<close>

text \<open>A collection's stream and link are no other collection's.\<close>

lemma owned_apart:
  assumes inv: "cat_inv s" and c: "bm_get (collections s) i = Some c" and d: "bm_get (collections s) j = Some d"
    and "i \<noteq> j"
  shows "c_stream c \<noteq> c_stream d" "c_link c \<noteq> c_link d"
proof -
  note D = cat_invD [OF inv]
  have ids: "c_id c = i" "c_id d = j" using cot.row [OF D(4) [unfolded colls_ok_def]] c d by auto
  show "c_stream c \<noteq> c_stream d" using ownedD(1) [OF D(5) c] ownedD(1) [OF D(5) d] ids \<open>i \<noteq> j\<close>
    by (auto simp: stream_matches_def implicit_name_inject)
  show "c_link c \<noteq> c_link d" using ownedD(2) [OF D(5) c] ownedD(2) [OF D(5) d] ids \<open>i \<noteq> j\<close>
    by (auto simp: link_matches_def implicit_name_inject)
qed

lemma owned_dropped:
  assumes inv: "cat_inv s" and c: "bm_get (collections s) cid = Some c"
    and s': "collections s' = bm_remove cid (collections s)" "streams s' = bm_remove (c_stream c) (streams s)"
      "links s' = bm_remove (c_link c) (links s)"
  shows "owned_inv s'"
proof (rule ownedI)
  note D = cat_invD [OF inv]
  fix i d assume "bm_get (collections s') i = Some d"
  then have d: "bm_get (collections s) i = Some d" "i \<noteq> cid" by (auto simp: s' split: if_splits)
  then show "\<exists>st. bm_get (streams s') (c_stream d) = Some st \<and> stream_matches d st"
    "\<exists>l. bm_get (links s') (c_link d) = Some l \<and> link_matches d l"
    using ownedD(1,2) [OF D(5) d(1)] owned_apart [OF inv d(1) c d(2)] by (simp_all add: s')
next
  note D = cat_invD [OF inv]
  fix sid st assume "bm_get (streams s') sid = Some st" "prefix ''_'' (s_name st)"
  then have st: "bm_get (streams s) sid = Some st" "sid \<noteq> c_stream c" "prefix ''_'' (s_name st)"
    by (auto simp: s' split: if_splits)
  then obtain i d where "bm_get (collections s) i = Some d" "c_stream d = sid"
    using ownedD(3) [OF D(5) st(1,3)] by blast
  then show "\<exists>i d. bm_get (collections s') i = Some d \<and> c_stream d = sid"
    using c st(2) by (intro exI [of _ i] exI [of _ d]) (auto simp: s')
next
  note D = cat_invD [OF inv]
  fix lid l assume "bm_get (links s') lid = Some l" "prefix ''_'' (l_name l)"
  then have l: "bm_get (links s) lid = Some l" "lid \<noteq> c_link c" "prefix ''_'' (l_name l)"
    by (auto simp: s' split: if_splits)
  then obtain i d where "bm_get (collections s) i = Some d" "c_link d = lid"
    using ownedD(4) [OF D(5) l(1,3)] by blast
  then show "\<exists>i d. bm_get (collections s') i = Some d \<and> c_link d = lid"
    using c l(2) by (intro exI [of _ i] exI [of _ d]) (auto simp: s')
qed

text \<open>The only link that starts at a collection's stream is the collection's own.\<close>

lemma links_of_owned_stream:
  assumes inv: "cat_inv s" and c: "bm_get (collections s) cid = Some c"
    and l: "bm_get (links s) lid = Some l" "l_source l = c_stream c"
  shows "lid = c_link c"
proof -
  note D = cat_invD [OF inv]
  have "prefix ''_'' (l_name l)"
    using sourceD [OF D(6) l(1)] ownedD(1) [OF D(5) c] l(2) by (auto simp: stream_matches_def)
  then obtain i d where d: "bm_get (collections s) i = Some d" "c_link d = lid"
    using ownedD(4) [OF D(5) l(1)] by blast
  then have "c_stream d = c_stream c" using ownedD(2) [OF D(5) d(1)] l by (auto simp: link_matches_def)
  then have "i = cid" using owned_apart(1) [OF inv d(1) c] by blast
  then show ?thesis using d c by simp
qed

lemma drop_collection_cat:
  assumes "drop_collection s ns name now = (s', r)" and inv: "cat_inv s"
  shows "cat_inv s'"
  using assms
proof (cases rule: drop_collection_cases)
  case absent
  show ?thesis using inv by (rule cat_inv_frame) (use ledgerD [OF inv] in \<open>simp_all add: absent same_catalog_def\<close>)
next
  case (dropped cid c st l s5)
  note F = dropped_fields [OF dropped(9,4,10)] and D = cat_invD [OF inv]
  note m = dropped(5) [unfolded stream_matches_def] dropped(7) [unfolded link_matches_def]
  have ids: "c_id c = cid" using cot.row [OF D(4) [unfolded colls_ok_def] dropped(1)] by simp
  have keeps: "coll_in s n i \<Longrightarrow> i \<noteq> cid \<Longrightarrow> coll_in s' n i" for n i by (auto simp: coll_in_def F(10))
  have taken: "name_taken s' n a \<Longrightarrow> name_taken s n a" for n a by (auto simp: name_taken_def F(9) split: if_splits)
  show ?thesis
  proof (rule cat_invI)
    show "namespaces_ok s'" using D(1) by (simp add: namespaces_ok_def F)
    show "streams_ok s'" using stt.remove [OF D(2) [unfolded streams_ok_def] dropped(4)]
      by (simp add: streams_ok_def F stream_key_def)
    show "links_ok s'" using lit.remove [OF D(3) [unfolded links_ok_def] dropped(6)]
      by (simp add: links_ok_def F link_key_def)
    show "colls_ok s'" using cot.remove [OF D(4) [unfolded colls_ok_def] dropped(1)] dropped(2,3)
      by (simp add: colls_ok_def F coll_key_def)
    show "owned_inv s'" by (rule owned_dropped [OF inv dropped(1)]) (simp_all add: F)
    show "source_inv s'" unfolding source_inv_def
    proof (intro allI impI)
      fix lid k assume k: "bm_get (links s') lid = Some k"
      then have "bm_get (links s) lid = Some k" "l_source k \<noteq> c_stream c"
        using links_of_owned_stream [OF inv dropped(1), of lid k] by (auto simp: F split: if_splits)
      then show "\<exists>st. bm_get (streams s') (l_source k) = Some st \<and> s_namespace st = l_namespace k
        \<and> (prefix ''_'' (s_name st) \<longrightarrow> prefix ''_'' (l_name k))" using sourceD [OF D(6)] by (simp add: F)
    qed
    show "space_inv s'" using D(7) unfolding space_inv_def by (auto simp: F split: if_splits)
    show "parts_dom s'" unfolding parts_dom_def
    proof (intro allI)
      fix i p
      show "bm_get (partitions s') (i, p) \<noteq> None \<longleftrightarrow> (\<exists>st. bm_get (streams s') i = Some st \<and> p < s_partitions st)"
        using partsD [OF D(8), of i p] dropped(4) by (auto simp: F(11) F(20) simp del: not_None_eq)
    qed
    show "alias_inv s'" unfolding alias_inv_def
    proof (rule alias_ok_frame [OF _ F(17,18)])
      have "alias_ok (coll_in s) (name_taken s) (dropped_row s ns name now cid)"
        by (rule alias_ok_frame [OF D(9) [unfolded alias_inv_def]]) (simp_all add: dropped_row_def)
      then show "alias_ok (coll_in s') (name_taken s') s5"
        unfolding dropped(9) by (rule alias_ok_forget) (use keeps taken in blast)+
    qed
    show "ptr_inv s'" unfolding ptr_inv_def
    proof (intro allI impI)
      fix n key p rest assume p: "bm_get (pointers s') (n, key) = Some p"
        and rest: "strip_prefix COLLECTION_POINTER_PREFIX key = Some rest"
      then obtain i where i: "parse_CollectionId rest = Inr i" "coll_in s n i"
        using D(10) unfolding ptr_inv_def by (auto simp: F split: if_splits)
      have "i \<noteq> cid"
      proof
        assume "i = cid"
        then have "n = ns" using i(2) dropped(1,2) by (simp add: coll_in_def)
        moreover have "key = collection_pointer_key cid"
          using i(1) rest \<open>i = cid\<close> by (auto simp: parse_CollectionId_Inr collection_pointer_key_def strip_prefix_Some)
        ultimately show False using p by (simp add: F)
      qed
      then show "\<exists>i. parse_CollectionId rest = Inr i \<and> coll_in s' n i" using i keeps by blast
    qed
    show "hot_inv s'" using D(11) unfolding hot_inv_def by (auto simp: F split: if_splits)
    show "ledger_inv s'" unfolding ledger_inv_def by (auto simp: F dest: ledgerD [OF inv] split: if_splits)
  qed
qed

text \<open>Retiring paths that are neither WAL objects nor segments leaves the log's objects as they are.\<close>

lemma log_inv_retire_prefixes:
  assumes inv: "log_inv ct s" and s': "clock_ms s' = clock_ms s" "partitions s' = partitions s"
      "wal_live_chunks s' = wal_live_chunks s" "wal_commits s' = wal_commits s"
    and ret: "retired s' = bm_insert b t' (bm_insert a t (retired s))"
    and paths: "\<not> is_wal_path a" "\<not> is_segment_path a" "\<not> is_wal_path b" "\<not> is_segment_path b"
  shows "log_inv ct s'"
proof -
  have rc: "ref_count s' = ref_count s" by (rule ref_count_frame) (fact s')
  note ok = inv [unfolded log_inv_def obj_inv_def, simplified, THEN conjunct2]
  note O = obj_okD [OF ok]
  have none: "ref_count s k x = 0" if "x = a \<or> x = b" for x k
    using O(3,4) [of x] that paths by (cases k) auto
  have "obj_inv ct s' []" unfolding obj_inv_def rc s' ret
    by (rule obj_okI)
      (use O none paths in \<open>auto split: if_splits\<close>)
  moreover have "parts_inv s'" using inv s' by (simp add: log_inv_def parts_inv_def)
  ultimately show ?thesis by (simp add: log_inv_def)
qed

lemma drop_collection_log:
  assumes "drop_collection s ns name now = (s', r)" and inv: "cat_inv s" and log: "log_inv ct s"
  shows "log_inv ct s'"
  using assms(1,2)
proof (cases rule: drop_collection_cases)
  case absent
  show ?thesis using log by (rule log_inv_frame) (simp_all add: absent)
next
  case (dropped cid c st l s5)
  obtain al at where fm: "s5 = (dropped_row s ns name now cid)\<lparr>aliases := al, alias_targets := at\<rparr>"
    using forget_member_same dropped(9) by (metis same_but_aliasesD)
  let ?s5 = "s5\<lparr>collection_hot := bm_remove cid (collection_hot s5)\<rparr>"
  have "log_inv ct ?s5" using log by (rule log_inv_frame) (simp_all add: fm dropped_row_def)
  then have "log_inv ct (remove_stream ?s5 (c_stream c))" by (rule remove_stream_log_inv)
  then show ?thesis unfolding dropped(10) Let_def 
    by (rule log_inv_retire_prefixes) (fact collection_prefix_path | simp)+
qed

end
