(* ===== verification/Invariants.thy ===== *)
theory Invariants
  imports DropOps
begin

text \<open>
  \<open>MetaState::check_invariants\<close> (\<open>loams-meta/src/state/invariants.rs\<close>), the checker that
  tests, the crash gate and the simulation run on a state, and what it means for it to
  find nothing. A violation is its format template with the interpolated values; the two
  that print a whole row carry it.
\<close>

section \<open>The checker\<close>

datatype violation =
    Violation message
  | StreamMismatch message Stream
  | LinkMismatch message Link

text \<open>What the scan of the partitions collects across partitions.\<close>

record Scan =
  sc_violations :: "violation list"
  sc_wal_entries :: "(string, u32) btree_map"
  sc_referenced :: "(string, unit) btree_map"

abbreviation push_violation :: "message \<Rightarrow> Scan \<Rightarrow> Scan" where
  "push_violation m sc \<equiv> sc\<lparr>sc_violations := sc_violations sc @ [Violation m]\<rparr>"

text \<open>One index entry: \<open>expected\<close> is where the entry before it ended.\<close>

definition scan_entry :: "StreamId \<times> u32 \<Rightarrow> u64 option \<Rightarrow> u64 \<Rightarrow> IndexEntry \<Rightarrow> Scan \<Rightarrow> Scan" where
  "scan_entry at expected base e sc =
     (let part = [FNat (stream_u64 (fst at)), FNat (snd at)];
          sc1 = (if base \<noteq> e_base_offset e
                 then push_violation (Fmt ''stream {} partition {}: entry keyed {} has base {}''
                        (part @ [FNat base, FNat (e_base_offset e)])) sc
                 else sc);
          sc2 = (case expected of
                   Some x \<Rightarrow> if e_base_offset e \<noteq> x
                     then push_violation (Fmt ''stream {} partition {}: gap or overlap at {}..{}''
                            (part @ [FNat x, FNat (e_base_offset e)])) sc1
                     else sc1
                 | None \<Rightarrow> sc1);
          sc3 = (if e_records e = 0
                 then push_violation (Fmt ''stream {} partition {}: empty entry at {}'' (part @ [FNat base])) sc2
                 else sc2);
          sc4 = sc3\<lparr>sc_referenced := bm_insert (e_object e) () (sc_referenced sc3)\<rparr>
      in if e_kind e = Wal
         then sc4\<lparr>sc_wal_entries := bm_insert (e_object e)
                (wadd32 (case bm_get (sc_wal_entries sc4) (e_object e) of Some n \<Rightarrow> n | None \<Rightarrow> 0) 1)
                (sc_wal_entries sc4)\<rparr>
         else sc4)"

fun scan_entries ::
  "StreamId \<times> u32 \<Rightarrow> (u64 \<times> IndexEntry) list \<Rightarrow> u64 option \<Rightarrow> u64 \<Rightarrow> Scan \<Rightarrow> u64 option \<times> u64 \<times> Scan" where
  "scan_entries at [] expected byte_sum sc = (expected, byte_sum, sc)"
| "scan_entries at ((base, e) # es) expected byte_sum sc =
     scan_entries at es (Some (end_offset e))
       (wadd64 byte_sum (br_end (e_byte_range e) - br_start (e_byte_range e)))
       (scan_entry at expected base e sc)"

definition scan_partition :: "(StreamId \<times> u32) \<times> PartitionState \<Rightarrow> Scan \<Rightarrow> Scan" where
  "scan_partition = (\<lambda>(at, st) sc.
     let part = [FNat (stream_u64 (fst at)), FNat (snd at)];
         (expected, byte_sum, sc1) = scan_entries at (bm_iter (index st)) None 0 sc;
         sc2 = (case (bm_first (index st), expected) of
             (Some (_, e), Some end') \<Rightarrow>
               let sc2 = (if end' \<noteq> next_offset st
                     then push_violation (Fmt ''stream {} partition {}: entries end at {}, next offset is {}''
                            (part @ [FNat end', FNat (next_offset st)])) sc1
                     else sc1)
               in if \<not> (e_base_offset e \<le> log_start_offset st \<and> log_start_offset st < end_offset e)
                  then push_violation (Fmt ''stream {} partition {}: log start {} is outside the first entry {}..{}''
                         (part @ [FNat (log_start_offset st), FNat (e_base_offset e), FNat (end_offset e)])) sc2
                  else sc2
           | _ \<Rightarrow>
               if log_start_offset st \<noteq> next_offset st
               then push_violation (Fmt ''stream {} partition {}: empty index, but log start {} != next offset {}''
                      (part @ [FNat (log_start_offset st), FNat (next_offset st)])) sc1
               else sc1)
     in if byte_sum \<noteq> bytes st
        then push_violation (Fmt ''stream {} partition {}: byte count {} != {} computed from the entries''
               (part @ [FNat (bytes st), FNat byte_sum])) sc2
        else sc2)"

definition scan_partitions :: "MetaState \<Rightarrow> Scan" where
  "scan_partitions s = fold scan_partition (bm_iter (partitions s))
     \<lparr>sc_violations = [], sc_wal_entries = bm_empty, sc_referenced = bm_empty\<rparr>"

text \<open>The three loops over WAL objects and retired paths.\<close>

definition check_live :: "(string, u32) btree_map \<Rightarrow> string \<times> u32 \<Rightarrow> violation list" where
  "check_live wal_entries = (\<lambda>(obj, live).
     let n = (case bm_get wal_entries obj of Some n \<Rightarrow> n | None \<Rightarrow> 0) in
     if live \<noteq> n
     then [Violation (Fmt ''WAL object {}: {} live chunks counted, {} entries'' [FStr obj, FNat live, FNat n])]
     else [])"

definition check_counted :: "MetaState \<Rightarrow> string \<Rightarrow> violation list" where
  "check_counted s obj =
     (if \<not> bm_contains (wal_live_chunks s) obj
      then [Violation (Fmt ''WAL object {} has entries but no live count'' [FStr obj])] else [])"

definition check_retired :: "(string, unit) btree_map \<Rightarrow> string \<Rightarrow> violation list" where
  "check_retired referenced obj =
     (if bm_contains referenced obj
      then [Violation (Fmt ''retired object {} is still referenced'' [FStr obj])] else [])"

definition check_hot :: "MetaState \<Rightarrow> CollectionId \<times> HotConfig \<Rightarrow> violation list" where
  "check_hot s = (\<lambda>(cid, hot).
     (if \<not> bm_contains (collections s) cid
      then [Violation (Fmt ''hot configuration of missing collection {}'' [FNat (coll_u64 cid)])] else [])
     @ (if \<not> hot_any hot
        then [Violation (Fmt ''collection {} has an all-false hot configuration'' [FNat (coll_u64 cid)])] else []))"

definition check_collection :: "MetaState \<Rightarrow> CollectionId \<times> Collection \<Rightarrow> violation list" where
  "check_collection s = (\<lambda>(cid, c).
     let at = [FNat (coll_u64 cid), FNat (ns_u64 (c_namespace c)), FStr (c_name c)];
         name = implicit_name (c_name c) (c_id c)
     in (if c_id c \<noteq> cid
         then [Violation (Fmt ''collection {} ({}/{}): keyed {} but has id {}''
                (at @ [FNat (coll_u64 cid), FNat (coll_u64 (c_id c))]))] else [])
      @ (if bm_get (collection_names s) (c_namespace c, c_name c) \<noteq> Some cid
         then [Violation (Fmt ''collection {} ({}/{}): its name does not map to it'' at)] else [])
      @ (case bm_get (streams s) (c_stream c) of
           None \<Rightarrow> [Violation (Fmt ''collection {} ({}/{}): stream {} is missing'' (at @ [FNat (stream_u64 (c_stream c))]))]
         | Some st \<Rightarrow>
             if s_namespace st \<noteq> c_namespace c \<or> s_name st \<noteq> name \<or> s_partitions st \<noteq> c_partitions c
               \<or> s_class st \<noteq> Standard \<or> s_retention st \<noteq> Retention_default
             then [StreamMismatch (Fmt ''collection {} ({}/{}): stream {} does not match: {:?}''
                    (at @ [FNat (stream_u64 (s_id st))])) st]
             else [])
      @ (case bm_get (links s) (c_link c) of
           None \<Rightarrow> [Violation (Fmt ''collection {} ({}/{}): link {} is missing'' (at @ [FNat (link_u64 (c_link c))]))]
         | Some l \<Rightarrow>
             if l_namespace l \<noteq> c_namespace c \<or> l_name l \<noteq> name \<or> l_source l \<noteq> c_stream c
               \<or> t_kind (l_target l) \<noteq> COLLECTION_KIND \<or> t_name (l_target l) \<noteq> c_name c
             then [LinkMismatch (Fmt ''collection {} ({}/{}): link {} does not match: {:?}''
                    (at @ [FNat (link_u64 (l_id l))])) l]
             else [])
      @ (if last_collection_id s < coll_u64 (c_id c)
         then [Violation (Fmt ''collection {} ({}/{}): id above last_collection_id {}'' (at @ [FNat (last_collection_id s)]))]
         else []))"

definition check_collection_name :: "MetaState \<Rightarrow> (NamespaceId \<times> string) \<times> CollectionId \<Rightarrow> violation list" where
  "check_collection_name s = (\<lambda>((ns, name), cid).
     let bad = [Violation (Fmt ''collection name {}/{} maps to {}'' [FNat (ns_u64 ns), FStr name, FNat (coll_u64 cid)])] in
     case bm_get (collections s) cid of
       Some c \<Rightarrow> if c_namespace c = ns \<and> c_name c = name then [] else bad
     | None \<Rightarrow> bad)"

text \<open>\<open>self.collections.get(id).is_some_and(|c| c.namespace == *ns)\<close>\<close>

definition is_collection_of :: "MetaState \<Rightarrow> NamespaceId \<Rightarrow> CollectionId \<Rightarrow> bool" where
  "is_collection_of s ns cid =
     (case bm_get (collections s) cid of Some c \<Rightarrow> c_namespace c = ns | None \<Rightarrow> False)"

definition check_alias :: "MetaState \<Rightarrow> (NamespaceId \<times> string) \<times> CollectionId \<Rightarrow> violation list" where
  "check_alias s = (\<lambda>((ns, a), cid).
     (if \<not> is_collection_of s ns cid
      then [Violation (Fmt ''alias {}/{} points at {}, not a collection of its namespace''
             [FNat (ns_u64 ns), FStr a, FNat (coll_u64 cid)])] else [])
     @ (if bm_contains (collection_names s) (ns, a)
        then [Violation (Fmt ''alias {}/{} has a collection's name'' [FNat (ns_u64 ns), FStr a])] else []))"

definition check_alias_targets :: "MetaState \<Rightarrow> (NamespaceId \<times> string) \<times> AliasTargets \<Rightarrow> violation list" where
  "check_alias_targets s = (\<lambda>((ns, a), targets).
     let at = [FNat (ns_u64 ns), FStr a];
         writers = length (filter (\<lambda>w. w = Some True) (bm_values (members targets)))
     in concat (map (\<lambda>cid. if \<not> is_collection_of s ns cid
            then [Violation (Fmt ''alias {}/{} names {}, not a collection of its namespace'' (at @ [FNat (coll_u64 cid)]))]
            else []) (bm_keys (members targets)))
      @ (if bm_contains (aliases s) (ns, a) then [Violation (Fmt ''alias {}/{} is in both alias maps'' at)] else [])
      @ (if bm_contains (collection_names s) (ns, a)
         then [Violation (Fmt ''alias {}/{} has a collection's name'' at)] else [])
      @ (case bm_values (members targets) of
           [] \<Rightarrow> [Violation (Fmt ''alias {}/{} has no member'' at)]
         | [None] \<Rightarrow> [Violation (Fmt ''alias {}/{} is one unset member outside the M1.1 map'' at)]
         | _ \<Rightarrow> [])
      @ (if 1 < writers then [Violation (Fmt ''alias {}/{} has {} write indices'' (at @ [FNat writers]))] else [])
      @ (if MAX_ALIAS_TARGETS < bm_len (members targets)
         then [Violation (Fmt ''alias {}/{} has {} members, above {}''
                (at @ [FNat (bm_len (members targets)), FNat MAX_ALIAS_TARGETS]))]
         else []))"

definition check_stream_owned :: "StreamId list \<Rightarrow> Stream \<Rightarrow> violation list" where
  "check_stream_owned implicit_streams st =
     (if prefix ''_'' (s_name st) \<and> s_id st \<notin> set implicit_streams
      then [Violation (Fmt ''stream {} ({}) belongs to no collection'' [FNat (stream_u64 (s_id st)), FStr (s_name st)])]
      else [])"

definition check_link_owned :: "LinkId list \<Rightarrow> Link \<Rightarrow> violation list" where
  "check_link_owned implicit_links l =
     (if prefix ''_'' (l_name l) \<and> l_id l \<notin> set implicit_links
      then [Violation (Fmt ''link {} ({}) belongs to no collection'' [FNat (link_u64 (l_id l)), FStr (l_name l)])]
      else [])"

definition check_pointer :: "MetaState \<Rightarrow> NamespaceId \<times> string \<Rightarrow> violation list" where
  "check_pointer s = (\<lambda>(ns, key). case strip_prefix COLLECTION_POINTER_PREFIX key of
     None \<Rightarrow> []
   | Some rest \<Rightarrow>
       if \<not> (case parse_CollectionId rest of Inr cid \<Rightarrow> is_collection_of s ns cid | Inl _ \<Rightarrow> False)
       then [Violation (Fmt ''pointer {}/{} names no collection of its namespace'' [FNat (ns_u64 ns), FStr key])]
       else [])"

text \<open>The loops of \<open>check_collections\<close>, in the order of the code.\<close>

definition check_collections :: "MetaState \<Rightarrow> violation list" where
  "check_collections s =
     concat (map (check_hot s) (bm_iter (collection_hot s)))
     @ concat (map (check_collection s) (bm_iter (collections s)))
     @ concat (map (check_collection_name s) (bm_iter (collection_names s)))
     @ concat (map (check_alias s) (bm_iter (aliases s)))
     @ concat (map (check_alias_targets s) (bm_iter (alias_targets s)))
     @ concat (map (check_stream_owned (map c_stream (bm_values (collections s)))) (bm_values (streams s)))
     @ concat (map (check_link_owned (map c_link (bm_values (collections s)))) (bm_values (links s)))
     @ concat (map (check_pointer s) (bm_keys (pointers s)))"

definition check_invariants :: "MetaState \<Rightarrow> violation list" where
  "check_invariants s =
     (let sc = scan_partitions s in
      sc_violations sc
      @ concat (map (check_live (sc_wal_entries sc)) (bm_iter (wal_live_chunks s)))
      @ concat (map (check_counted s) (bm_keys (sc_wal_entries sc)))
      @ concat (map (check_retired (sc_referenced sc)) (bm_keys (retired s)))
      @ check_collections s)"

section \<open>The scan of the partitions\<close>

abbreviation counted :: "Scan \<Rightarrow> string \<Rightarrow> nat" where
  "counted sc obj \<equiv> (case bm_get (sc_wal_entries sc) obj of Some n \<Rightarrow> n | None \<Rightarrow> 0)"

text \<open>
  \<open>scanned sc es sc'\<close>: from \<open>sc\<close> to \<open>sc'\<close> the scan went over the entries \<open>es\<close>, counting each
  WAL entry with wrap-around at \<open>u32\<close> and noting each object.
\<close>

definition scanned :: "Scan \<Rightarrow> IndexEntry list \<Rightarrow> Scan \<Rightarrow> bool" where
  "scanned sc es sc' \<longleftrightarrow>
     (\<forall>obj. counted sc obj \<le> U32_MAX \<longrightarrow> counted sc' obj = (counted sc obj + entry_count es Wal obj) mod (U32_MAX + 1))
     \<and> dom (bm_get (sc_wal_entries sc')) = dom (bm_get (sc_wal_entries sc)) \<union> {obj. 0 < entry_count es Wal obj}
     \<and> dom (bm_get (sc_referenced sc')) = dom (bm_get (sc_referenced sc)) \<union> e_object ` set es"

lemma scanned_Nil: "scanned sc [] sc"
  by (simp add: scanned_def)

lemma scanned_append:
  assumes "scanned sc xs sc1" "scanned sc1 ys sc2"
  shows "scanned sc (xs @ ys) sc2"
proof -
  have "counted sc1 obj \<le> U32_MAX \<and> counted sc1 obj = (counted sc obj + entry_count xs Wal obj) mod (U32_MAX + 1)"
    if "counted sc obj \<le> U32_MAX" for obj
    using assms(1) that by (simp add: scanned_def U32_MAX_def)
  then show ?thesis using assms by (auto simp: scanned_def mod_add_left_eq add.assoc [symmetric])
qed

lemma scan_entry_ok:
  assumes "base = e_base_offset e" "expected = None \<or> expected = Some base" "0 < e_records e"
  shows "sc_violations (scan_entry at expected base e sc) = sc_violations sc"
    and "scanned sc [e] (scan_entry at expected base e sc)"
  using assms by (auto simp: scan_entry_def Let_def scanned_def wadd32_def split: option.splits)

lemma scan_entries_ok:
  assumes "scan_entries at es expected byte_sum sc = (expected', byte_sum', sc')" "tiles lo es hi" "hi \<le> U64_MAX"
    "expected = None \<or> expected = Some lo" "byte_sum \<le> U64_MAX"
  shows "sc_violations sc' = sc_violations sc \<and> scanned sc (map snd es) sc'
    \<and> expected' = (if es = [] then expected else Some hi)
    \<and> byte_sum' = (byte_sum + sum_list (map (\<lambda>p. entry_bytes (snd p)) es)) mod (U64_MAX + 1)"
  using assms
proof (induction at es expected byte_sum sc arbitrary: lo rule: scan_entries.induct)
  case (1 at expected byte_sum sc)
  then show ?case by (auto simp: scanned_Nil)
next
  case (2 at base e es expected byte_sum sc)
  have t: "base = lo" "e_base_offset e = base" "0 < e_records e" "tiles (lo + e_records e) es hi" using "2.prems"(2) by auto
  have fin: "end_offset e = lo + e_records e" using tiles_end_offset [OF "2.prems"(2,3), of base e] t by simp
  let ?sc = "scan_entry at expected base e sc" and ?b = "wadd64 byte_sum (br_end (e_byte_range e) - br_start (e_byte_range e))"
  have IH: "sc_violations sc' = sc_violations ?sc \<and> scanned ?sc (map snd es) sc'
    \<and> expected' = (if es = [] then Some (end_offset e) else Some hi)
    \<and> byte_sum' = (?b + sum_list (map (\<lambda>p. entry_bytes (snd p)) es)) mod (U64_MAX + 1)"
    by (rule "2.IH" [OF _ t(4) "2.prems"(3)]) (use "2.prems"(1) fin in \<open>simp_all add: wadd64_le\<close>)
  have step: "sc_violations ?sc = sc_violations sc" "scanned sc [e] ?sc"
    using scan_entry_ok [of base e expected] t "2.prems"(4) by simp_all
  have "scanned sc (map snd ((base, e) # es)) sc'" using scanned_append [OF step(2)] IH by fastforce
  moreover have "es = [] \<Longrightarrow> end_offset e = hi" using t(4) fin by simp
  ultimately show ?case using IH step(1)
    by (simp add: wadd64_def entry_bytes_def mod_add_left_eq add.assoc [symmetric])
qed

lemma scan_partition_ok:
  assumes "part_inv st"
  shows "sc_violations (scan_partition (at, st) sc) = sc_violations sc"
    and "scanned sc (entries st) (scan_partition (at, st) sc)"
proof -
  obtain x b sc1 where eq: "scan_entries at (bm_iter (index st)) None 0 sc = (x, b, sc1)" by (metis prod_cases3)
  obtain lo where t: "tiles lo (bm_iter (index st)) (next_offset st)" and n: "next_offset st \<le> U64_MAX"
    using part_inv_tiles [OF assms] by metis
  have ok: "sc_violations sc1 = sc_violations sc" "scanned sc (entries st) sc1"
    "x = (if bm_iter (index st) = [] then None else Some (next_offset st))" "b = bytes st"
    using scan_entries_ok [OF eq t n] assms by (simp_all add: entries_def bm_values_def part_inv_def wsum64_eq)
  have "scan_partition (at, st) sc = sc1"
  proof (cases "bm_iter (index st)")
    case Nil
    then have "bm_first (index st) = None" by (simp add: bm_first_def)
    then show ?thesis using Nil assms ok eq unfolding scan_partition_def
      by (simp only: eq prod.case Let_def) (simp add: part_inv_def)
  next
    case (Cons q qs)
    obtain k e where q: "q = (k, e)" by (cases q)
    then have f: "bm_first (index st) = Some (k, e)" using Cons by (simp add: bm_first_def)
    have "bm_get (index st) k = Some e" using Cons q by (simp add: bm_iter_get [symmetric])
    note E = part_inv_entry [OF assms this]
    have "k \<le> log_start_offset st" "log_start_offset st < k + e_records e"
      using assms Cons q by (simp_all add: part_inv_def)
    moreover have "x = Some (next_offset st)" using ok(3) Cons by simp
    ultimately show ?thesis using ok(4) f E unfolding scan_partition_def
      by (simp only: eq prod.case Let_def) simp
  qed
  then show "sc_violations (scan_partition (at, st) sc) = sc_violations sc"
    "scanned sc (entries st) (scan_partition (at, st) sc)" using ok by simp_all
qed

lemma scan_partitions_ok:
  assumes "parts_inv s"
  shows "sc_violations (scan_partitions s) = []"
    "counted (scan_partitions s) obj = ref_count s Wal obj mod (U32_MAX + 1)"
    "dom (bm_get (sc_wal_entries (scan_partitions s))) = {obj. 0 < ref_count s Wal obj}"
    "dom (bm_get (sc_referenced (scan_partitions s))) = {obj. \<exists>k. 0 < ref_count s k obj}"
proof -
  let ?sc0 = "\<lparr>sc_violations = [], sc_wal_entries = bm_empty, sc_referenced = bm_empty\<rparr>"
  have fold: "sc_violations (fold scan_partition xs sc) = sc_violations sc
      \<and> scanned sc (concat (map (\<lambda>x. entries (snd x)) xs)) (fold scan_partition xs sc)"
    if "\<forall>x \<in> set xs. part_inv (snd x)" for xs sc
    using that
  proof (induction xs arbitrary: sc)
    case (Cons x xs)
    obtain at st where x: "x = (at, st)" by (cases x)
    then show ?case using Cons scan_partition_ok [where st = st and at = at and sc = sc] scanned_append by fastforce
  qed (simp add: scanned_Nil)
  have parts: "\<forall>x \<in> set (bm_iter (partitions s)). part_inv (snd x)"
    using assms by (auto simp: parts_inv_def bm_iter_get)
  let ?es = "concat (map (\<lambda>x. entries (snd x)) (bm_iter (partitions s)))"
  have "sum_list (map (\<lambda>x. entry_count (entries (snd x)) k obj) xs)
    = entry_count (concat (map (\<lambda>x. entries (snd x)) xs)) k obj" for k obj and xs :: "('a \<times> PartitionState) list"
    by (induction xs) simp_all
  then have rc: "ref_count s k obj = entry_count ?es k obj" for k obj by (simp add: ref_count_def)
  note F = fold [OF parts, of ?sc0, folded scan_partitions_def]
  show "sc_violations (scan_partitions s) = []" using F by simp
  show "counted (scan_partitions s) obj = ref_count s Wal obj mod (U32_MAX + 1)"
    "dom (bm_get (sc_wal_entries (scan_partitions s))) = {obj. 0 < ref_count s Wal obj}"
    using F by (simp_all add: scanned_def rc)
  have "e_object ` set ?es = {obj. \<exists>k. 0 < entry_count ?es k obj}" by (auto simp: entry_count_pos)
  then show "dom (bm_get (sc_referenced (scan_partitions s))) = {obj. \<exists>k. 0 < ref_count s k obj}"
    using F by (simp add: scanned_def rc)
qed

section \<open>The catalog\<close>

lemma concat_map_Nil: "(\<And>x. x \<in> set xs \<Longrightarrow> f x = []) \<Longrightarrow> concat (map f xs) = []"
  by (induction xs) auto

lemma is_collection_of_iff: "is_collection_of s ns cid \<longleftrightarrow> coll_in s ns cid"
  by (auto simp: is_collection_of_def coll_in_def split: option.splits)

lemma check_collection_ok:
  assumes "cat_inv s" "bm_get (collections s) cid = Some c"
  shows "check_collection s (cid, c) = []"
proof -
  note D = cat_invD [OF assms(1)]
  have "c_id c = cid \<and> coll_u64 cid \<le> last_collection_id s \<and> bm_get (collection_names s) (c_namespace c, c_name c) = Some cid"
    using cot.row [OF D(4) [unfolded colls_ok_def] assms(2)] by (simp add: coll_key_def)
  then show ?thesis using ownedD(1,2) [OF D(5) assms(2)]
    by (auto simp: check_collection_def Let_def stream_matches_def link_matches_def)
qed

lemma check_alias_ok:
  assumes "cat_inv s" "bm_get (aliases s) (ns, a) = Some cid"
  shows "check_alias s ((ns, a), cid) = []"
proof -
  have "members_ok (coll_in s ns) (name_taken s ns a) (bm_singleton cid None)"
    using cat_invD(9) [OF assms(1)] assms(2) unfolding alias_inv_def alias_ok_def
    by (metis alias_members_of_def option.simps(5))
  then show ?thesis by (auto simp: check_alias_def is_collection_of_iff name_taken_def)
qed

lemma check_alias_targets_ok:
  assumes "cat_inv s" "bm_get (alias_targets s) (ns, a) = Some t"
  shows "check_alias_targets s ((ns, a), t) = []"
proof -
  have ok: "alias_ok (coll_in s) (name_taken s) s" using cat_invD(9) [OF assms(1)] by (simp add: alias_inv_def)
  then have can: "bm_get (aliases s) (ns, a) = None" "canonical_members (members t)"
    using alias_canonicalD [OF _ assms(2)] by (auto simp: alias_ok_def)
  have m: "members_ok (coll_in s ns) (name_taken s ns a) (members t)"
    using ok can(1) assms(2) unfolding alias_ok_def
    by (metis alias_members_of_def option.simps(4) option.simps(5))
  have in_ns: "concat (map (\<lambda>cid. if \<not> is_collection_of s ns cid then v cid else []) (bm_keys (members t))) = []" for v
    using m by (intro concat_map_Nil) (auto simp: is_collection_of_iff members_ok_def)
  obtain cid w where "bm_get (members t) cid = Some w"
    using can(2) by (cases "bm_iter (members t)") (auto simp: canonical_members_def bm_iter_get [symmetric])
  then have "bm_get (collection_names s) (ns, a) = None" using m by (auto simp: members_ok_def name_taken_def)
  moreover have "length (filter (\<lambda>w. w = Some True) (bm_values (members t))) \<le> 1" "bm_len (members t) \<le> MAX_ALIAS_TARGETS"
    using m by (simp_all add: members_ok_def write_count_def bm_values_def filter_map o_def case_prod_unfold)
  moreover have "bm_values (members t) \<noteq> []" "bm_values (members t) \<noteq> [None]"
    using can(2) by (auto simp: canonical_members_def bm_values_def split: list.splits option.splits)
  ultimately show ?thesis using can(1) in_ns
    by (auto simp: check_alias_targets_def Let_def split: list.splits option.splits)
qed

lemma check_owned_ok:
  assumes "cat_inv s"
  shows "bm_get (streams s) sid = Some st \<Longrightarrow> check_stream_owned (map c_stream (bm_values (collections s))) st = []"
    "bm_get (links s) lid = Some l \<Longrightarrow> check_link_owned (map c_link (bm_values (collections s))) l = []"
proof -
  note D = cat_invD [OF assms]
  show "check_stream_owned (map c_stream (bm_values (collections s))) st = []" if st: "bm_get (streams s) sid = Some st"
    using ownedD(3) [OF D(5) st] stt.row [OF D(2) [unfolded streams_ok_def] st]
    by (force simp: check_stream_owned_def ran_def)
  show "check_link_owned (map c_link (bm_values (collections s))) l = []" if l: "bm_get (links s) lid = Some l"
    using ownedD(4) [OF D(5) l] lit.row [OF D(3) [unfolded links_ok_def] l]
    by (force simp: check_link_owned_def ran_def)
qed

lemma check_pointer_ok:
  assumes "cat_inv s" "bm_get (pointers s) (ns, key) = Some p"
  shows "check_pointer s (ns, key) = []"
  using ptrD [OF assms(1), of ns] assms(2) by (fastforce simp: check_pointer_def is_collection_of_iff split: option.splits)

lemma check_collections_ok:
  assumes inv: "cat_inv s"
  shows "check_collections s = []"
proof -
  note D = cat_invD [OF inv]
  have "concat (map (check_hot s) (bm_iter (collection_hot s))) = []"
    using D(11) by (intro concat_map_Nil) (auto simp: check_hot_def hot_inv_def bm_iter_get domIff)
  moreover have "concat (map (check_collection s) (bm_iter (collections s))) = []"
    by (intro concat_map_Nil) (auto simp: bm_iter_get intro: check_collection_ok [OF inv])
  moreover have "concat (map (check_collection_name s) (bm_iter (collection_names s))) = []"
    using cot.named [OF D(4) [unfolded colls_ok_def]]
    by (intro concat_map_Nil) (auto simp: bm_iter_get check_collection_name_def Let_def coll_key_def)
  moreover have "concat (map (check_alias s) (bm_iter (aliases s))) = []"
    by (intro concat_map_Nil) (auto simp: bm_iter_get intro: check_alias_ok [OF inv])
  moreover have "concat (map (check_alias_targets s) (bm_iter (alias_targets s))) = []"
    by (intro concat_map_Nil) (auto simp: bm_iter_get intro: check_alias_targets_ok [OF inv])
  moreover have "concat (map (check_stream_owned (map c_stream (bm_values (collections s)))) (bm_values (streams s))) = []"
    "concat (map (check_link_owned (map c_link (bm_values (collections s)))) (bm_values (links s))) = []"
    by (intro concat_map_Nil; auto simp: ran_def intro: check_owned_ok [OF inv])+
  moreover have "concat (map (check_pointer s) (bm_keys (pointers s))) = []"
    by (intro concat_map_Nil) (auto intro: check_pointer_ok [OF inv])
  ultimately show ?thesis by (simp add: check_collections_def)
qed

section \<open>No violation is found\<close>

text \<open>Live counts stay within \<open>u32\<close>, so the checker's own count does not wrap.\<close>

definition live_u32 :: "MetaState \<Rightarrow> bool" where
  "live_u32 s \<longleftrightarrow> (\<forall>obj n. bm_get (wal_live_chunks s) obj = Some n \<longrightarrow> n \<le> U32_MAX)"

lemma check_invariants_ok:
  assumes log: "log_inv ct s" and cat: "cat_inv s" and live: "live_u32 s"
  shows "check_invariants s = []"
proof -
  have parts: "parts_inv s" and obj: "obj_ok ct (ref_count s) (wal_live_chunks s) (retired s) (wal_commits s) (clock_ms s)"
    using log by (simp_all add: log_inv_def obj_inv_def)
  note S = scan_partitions_ok [OF parts] and O = obj_okD [OF obj]
  have exact: "counted (scan_partitions s) obj = n" if "bm_get (wal_live_chunks s) obj = Some n" for obj n
  proof -
    have "ref_count s Wal obj = n" "n \<le> U32_MAX" using O(1) [of obj] that live by (auto simp: live_u32_def split: if_splits)
    then show ?thesis using S(2) [of obj] by simp
  qed
  have "concat (map (check_live (sc_wal_entries (scan_partitions s))) (bm_iter (wal_live_chunks s))) = []"
    using exact by (intro concat_map_Nil) (auto simp: check_live_def Let_def bm_iter_get)
  moreover have "concat (map (check_counted s) (bm_keys (sc_wal_entries (scan_partitions s)))) = []"
    using O(1) by (intro concat_map_Nil) (auto simp: check_counted_def S domIff)
  moreover have "concat (map (check_retired (sc_referenced (scan_partitions s))) (bm_keys (retired s))) = []"
    using O(5) by (intro concat_map_Nil) (auto simp: check_retired_def S)
  ultimately show ?thesis using check_collections_ok [OF cat] S(1) by (simp add: check_invariants_def Let_def)
qed

end
