(* ===== verification/Apply.thy ===== *)
theory Apply
  imports Collections
begin

text \<open>
  The metastore state machine as a whole: \<open>MetaState::apply\<close>
  (\<open>loams-meta/src/state/mod.rs\<close>) dispatches a command to its operation.
\<close>

fun apply_command :: "MetaState \<Rightarrow> Command \<Rightarrow> outcome" where
  "apply_command s (CreateNamespace name) = create_namespace s name"
| "apply_command s (CreateStream ns name parts class retention) = create_stream s ns name parts class retention"
| "apply_command s (CreateLink ns name source target opts) = create_link s ns name source target opts"
| "apply_command s (CommitWal object created_at chunks) = commit_wal s object created_at chunks"
| "apply_command s (SetRetention sid retention) = set_retention s sid retention"
| "apply_command s (SwapSegment sid part replaces seg rng max_ts fence now fresh)
     = swap_segment s sid part replaces seg rng max_ts fence now fresh"
| "apply_command s (TrimPartition sid part before fence now) = trim_partition s sid part before fence now"
| "apply_command s (PruneWalCommits fence now) = prune_wal_commits s fence now"
| "apply_command s (ForgetObjects objects fence) = forget_objects s objects fence"
| "apply_command s (AcquireLease key owner ttl now) = acquire_lease s key owner ttl now"
| "apply_command s (RenewLease key owner epoch ttl now) = renew_lease s key owner epoch ttl now"
| "apply_command s (ReacquireLease key owner epoch ttl now) = reacquire_lease s key owner epoch ttl now"
| "apply_command s (ReleaseLease key owner epoch) = release_lease s key owner epoch"
| "apply_command s (CasPointer ns key expected val fence fresh) = cas_pointer s ns key expected val fence fresh"
| "apply_command s (CreateCollection ns name schema parts) = create_collection s ns name schema parts"
| "apply_command s (DropCollection ns name now) = drop_collection s ns name now"
| "apply_command s (UpdateCollectionSchema cid ver schema) = update_collection_schema s cid ver schema"
| "apply_command s (UpdateAliases ns actions) = update_aliases s ns actions"
| "apply_command s (SetCollectionHot cid hot) = set_collection_hot s cid hot"
| "apply_command s (UpdateAliasTargets ns actions) = update_alias_targets s ns actions"
| "apply_command s (ClaimIdempotencyKeys sid owner keys ttl now) = claim_idempotency_keys s sid owner keys ttl now"
| "apply_command s (CompleteIdempotencyKeys sid owner done window now)
     = complete_idempotency_keys s sid owner done window now"
| "apply_command s (ReleaseIdempotencyKeys sid owner keys) = release_idempotency_keys s sid owner keys"
| "apply_command s (PruneIdempotencyKeys fence now) = prune_idempotency_keys s fence now"

text \<open>A log of commands, applied in order.\<close>

fun run :: "MetaState \<Rightarrow> Command list \<Rightarrow> MetaState" where
  "run s [] = s"
| "run s (c # cs) = run (fst (apply_command s c)) cs"

lemma run_append [simp]: "run s (cs @ ds) = run (run s cs) ds"
  by (induction cs arbitrary: s) simp_all

lemma apply_error_same: "apply_command s c = (s', Inl e) \<Longrightarrow> s' = s"
  by (cases c) (simp_all, (erule op_errors)+)

lemma apply_clock_le: "apply_command s c = (s', r) \<Longrightarrow> clock_ms s \<le> clock_ms s'"
  by (cases c) (simp_all, (erule op_clock)+)

lemma run_clock_le: "clock_ms s \<le> clock_ms (run s cs)"
proof (induction cs arbitrary: s)
  case (Cons c cs)
  show ?case using apply_clock_le [of s c] Cons [of "fst (apply_command s c)"]
    by (cases "apply_command s c") (fastforce intro: order_trans)
qed simp

section \<open>Errors\<close>

text \<open>
  C27. A command that is rejected leaves the state exactly as it was, whichever of its
  checks failed: nothing is applied in part.
\<close>

theorem apply_error_unchanged:
  assumes "snd (apply_command s c) = Inl e"
  shows "fst (apply_command s c) = s"
  using assms apply_error_same by (cases "apply_command s c") auto

text \<open>
  The state after one namespace, \<open>acme\<close>, and one stream of two partitions, \<open>events\<close>,
  were created: the concrete input of the examples below.
\<close>

definition demo_state :: MetaState where
  "demo_state = MetaState_default\<lparr>
     last_namespace_id := 1, last_stream_id := 1,
     namespaces := bm_singleton (NamespaceId 1) \<lparr>n_id = NamespaceId 1, n_name = ''acme''\<rparr>,
     namespace_names := bm_singleton ''acme'' (NamespaceId 1),
     streams := bm_singleton (StreamId 1) \<lparr>s_id = StreamId 1, s_namespace = NamespaceId 1, s_name = ''events'',
       s_partitions = 2, s_class = Standard, s_retention = Retention_default\<rparr>,
     stream_names := bm_singleton (NamespaceId 1, ''events'') (StreamId 1),
     partitions := bm_insert (StreamId 1, 1) PartitionState_default
       (bm_singleton (StreamId 1, 0) PartitionState_default)\<rparr>"

definition demo_chunk :: "u32 \<Rightarrow> u32 \<Rightarrow> WalChunk" where
  "demo_chunk p n = \<lparr>ch_stream = StreamId 1, ch_partition = p, ch_records = n,
     ch_byte_range = \<lparr>br_start = 0, br_end = 10\<rparr>, ch_max_timestamp_ms = 0\<rparr>"

lemmas demo_defs = demo_state_def demo_chunk_def MetaState_default_def bm_singleton_def PartitionState_default_def

lemmas limit_defs = U64_MAX_def U32_MAX_def MAX_KEY_LEN_def MAX_NAME_LEN_def MAX_PARTITIONS_def
  MAX_LEASE_TTL_MS_def WAL_COMMIT_WINDOW_MS_def

lemma demo_state_run:
  "run MetaState_default [CreateNamespace ''acme'',
     CreateStream (NamespaceId 1) ''events'' 2 Standard Retention_default] = demo_state"
  by (simp add: demo_defs limit_defs create_namespace_def create_stream_def insert_stream_def validate_name_def
      is_name_byte_def wadd64_def refuse_reserved_def check_partitions_def Let_def numeral_2_eq_2)

text \<open>A commit whose second chunk names a partition that does not exist changes nothing.\<close>

theorem apply_error_unchanged_witness:
  "fst (apply_command demo_state (CommitWal ''wal/standard/1/A.wal'' 0 [demo_chunk 0 3, demo_chunk 7 1])) = demo_state"
  by (rule apply_error_unchanged [where e = "PartitionNotFound (StreamId 1) 7"])
    (simp add: demo_defs limit_defs commit_wal_def validate_key_def try_from_u32_def validate_chunk_def sat_add64_def)

end
