(* ===== verification/Reach.thy ===== *)
theory Reach
  imports Invariants Apply
begin

text \<open>
  Reachable states: what commands leave alone, that every command keeps the invariant, and
  that \<open>check_invariants\<close> finds nothing on any reachable state.
\<close>

section \<open>What each group of commands leaves alone\<close>

fun writes_log :: "Command \<Rightarrow> bool" where
  "writes_log (CreateStream _ _ _ _ _) = True"
| "writes_log (CreateCollection _ _ _ _) = True"
| "writes_log (DropCollection _ _ _) = True"
| "writes_log (CommitWal _ _ _) = True"
| "writes_log (SwapSegment _ _ _ _ _ _ _ _ _) = True"
| "writes_log (TrimPartition _ _ _ _ _) = True"
| "writes_log (PruneWalCommits _ _) = True"
| "writes_log (ForgetObjects _ _) = True"
| "writes_log _ = False"

fun writes_leases :: "Command \<Rightarrow> bool" where
  "writes_leases (AcquireLease _ _ _ _) = True"
| "writes_leases (RenewLease _ _ _ _ _) = True"
| "writes_leases (ReacquireLease _ _ _ _ _) = True"
| "writes_leases (ReleaseLease _ _ _) = True"
| "writes_leases _ = False"

fun creates :: "Command \<Rightarrow> bool" where
  "creates (CreateNamespace _) = True"
| "creates (CreateStream _ _ _ _ _) = True"
| "creates (CreateLink _ _ _ _ _) = True"
| "creates (CreateCollection _ _ _ _) = True"
| "creates _ = False"

definition same_log :: "MetaState \<Rightarrow> MetaState \<Rightarrow> bool" where
  "same_log s s' \<longleftrightarrow> partitions s' = partitions s \<and> wal_live_chunks s' = wal_live_chunks s
     \<and> retired s' = retired s \<and> wal_commits s' = wal_commits s"

definition same_counters :: "MetaState \<Rightarrow> MetaState \<Rightarrow> bool" where
  "same_counters s s' \<longleftrightarrow> last_namespace_id s' = last_namespace_id s \<and> last_stream_id s' = last_stream_id s
     \<and> last_link_id s' = last_link_id s \<and> last_collection_id s' = last_collection_id s"

text \<open>The fields a command outside these groups keeps: all of the log, the leases and the counters.\<close>

definition same_core :: "MetaState \<Rightarrow> MetaState \<Rightarrow> bool" where
  "same_core s s' \<longleftrightarrow> same_log s s' \<and> leases s' = leases s \<and> same_counters s s'"

lemmas core_defs = same_core_def same_log_def same_counters_def

lemma same_core_refl [simp]: "same_core s s"
  by (simp add: core_defs)

lemma set_retention_core: "set_retention s sid rt = (s', r) \<Longrightarrow> same_core s s'"
  by (auto simp: set_retention_def core_defs elim!: attemptE split: if_splits)

lemma cas_pointer_core: "cas_pointer s ns key ex v f fr = (s', r) \<Longrightarrow> same_core s s'"
  by (erule cas_pointer_cases) (auto simp: core_defs)

lemma update_collection_schema_core: "update_collection_schema s cid ver sc = (s', r) \<Longrightarrow> same_core s s'"
  by (erule update_collection_schema_cases) (simp_all add: core_defs)

lemma same_but_aliases_core: "same_but_aliases s s' \<Longrightarrow> same_core s s'"
  by (erule same_but_aliasesD) (simp add: core_defs)

lemma apply_alias_changes_core: "same_core s (apply_alias_changes s ns cs)"
  by (induction s ns cs rule: apply_alias_changes.induct) (auto simp: core_defs Let_def split: option.splits)

lemma update_aliases_core: "update_aliases s ns acts = (s', r) \<Longrightarrow> same_core s s'"
  using apply_alias_changes_core by (fastforce simp: update_aliases_def elim!: attemptE split: if_splits)

lemma update_alias_targets_core: "update_alias_targets s ns acts = (s', r) \<Longrightarrow> same_core s s'"
  using same_but_aliases_core [OF put_aliases_same] by (fastforce simp: update_alias_targets_def elim!: attemptE split: if_splits)

lemma set_collection_hot_core: "set_collection_hot s cid h = (s', r) \<Longrightarrow> same_core s s'"
  by (auto simp: set_collection_hot_def core_defs split: if_splits)

lemma idempotency_core:
  "claim_idempotency_keys s sid w ks ttl now = (s', r) \<Longrightarrow> same_core s s'"
  "complete_idempotency_keys s sid w done' ttl now = (s', r) \<Longrightarrow> same_core s s'"
  "release_idempotency_keys s sid w ks = (s', r) \<Longrightarrow> same_core s s'"
  "prune_idempotency_keys s f now = (s', r) \<Longrightarrow> same_core s s'"
  by (auto simp: idempotency_op_defs core_defs Let_def elim!: attemptE split: if_splits prod.splits)

lemma apply_other_core:
  assumes "apply_command s c = (s', r)" "\<not> writes_log c" "\<not> writes_leases c" "\<not> creates c"
  shows "same_core s s'"
  using assms
  by (cases c) (simp_all add: set_retention_core cas_pointer_core update_collection_schema_core update_aliases_core
      update_alias_targets_core set_collection_hot_core idempotency_core)

text \<open>Lease commands touch leases only; creations neither leases nor, but for streams, the log.\<close>

lemma lease_command_same:
  assumes "apply_command s c = (s', r)" "writes_leases c"
  shows "same_log s s' \<and> same_counters s s'"
proof -
  have "s' = s\<lparr>clock_ms := clock_ms s', leases := leases s'\<rparr>"
    using assms by (cases c) (auto dest: lease_ops_only)
  then obtain t m where "s' = s\<lparr>clock_ms := t, leases := m\<rparr>" by blast
  then show ?thesis by (simp add: core_defs)
qed

lemma create_namespace_same: "create_namespace s n = (s', r) \<Longrightarrow> same_log s s' \<and> leases s' = leases s"
  by (auto simp: create_namespace_def core_defs Let_def elim!: attemptE split: option.splits)

lemma insert_link_same:
  assumes "insert_link s ns n src t opts = (s', lid)"
  shows "same_log s s' \<and> leases s' = leases s"
proof -
  have "same_log s (fst (insert_link s ns n src t opts)) \<and> leases (fst (insert_link s ns n src t opts)) = leases s"
    by (simp add: insert_link_def Let_def core_defs)
  then show ?thesis by (simp add: assms)
qed

lemma create_link_same: "create_link s ns n src t opts = (s', r) \<Longrightarrow> same_log s s' \<and> leases s' = leases s"
  by (auto simp: create_link_def same_log_def elim!: attemptE
      dest: insert_link_same [unfolded same_log_def] split: option.splits if_splits prod.splits)

text \<open>Creating a stream adds partitions; the objects, the commit records and the leases stay.\<close>

definition same_objects :: "MetaState \<Rightarrow> MetaState \<Rightarrow> bool" where
  "same_objects s s' \<longleftrightarrow> leases s' = leases s \<and> wal_live_chunks s' = wal_live_chunks s
     \<and> wal_commits s' = wal_commits s \<and> retired s' = retired s"

lemma insert_stream_objects:
  assumes "insert_stream s ns n p c rt = (s', sid)"
  shows "same_objects s s'"
proof -
  have "same_objects s (fst (insert_stream s ns n p c rt))"
    by (simp add: insert_stream_def Let_def same_objects_def)
  then show ?thesis by (simp add: assms)
qed

lemma create_stream_objects: "create_stream s ns n p c rt = (s', r) \<Longrightarrow> same_objects s s'"
  by (auto simp: create_stream_def elim!: attemptE dest: insert_stream_objects
      split: option.splits if_splits prod.splits) (simp_all add: same_objects_def)

lemma create_collection_objects:
  assumes "create_collection s ns n sc p = (s', r)"
  shows "same_objects s s'"
  using assms
  by (rule create_collection_cases)
    (auto simp: same_log_def same_objects_def dest!: insert_stream_objects insert_link_same)

lemma commit_wal_same: "commit_wal s obj t cs = (s', r) \<Longrightarrow> leases s' = leases s \<and> same_counters s s'"
  by (erule commit_wal_cases) (simp_all add: core_defs)

lemma swap_segment_same:
  "swap_segment s sid p rs seg rng ts f now fr = (s', r) \<Longrightarrow> leases s' = leases s \<and> same_counters s s'"
  by (erule swap_segment_cases) (simp_all add: core_defs put_partition_def)

lemma trim_partition_same: "trim_partition s sid p off f now = (s', r) \<Longrightarrow> leases s' = leases s \<and> same_counters s s'"
  by (erule trim_partition_cases) (simp_all add: core_defs put_partition_def)

lemma prune_wal_commits_same:
  "prune_wal_commits s f now = (s', r) \<Longrightarrow> leases s' = leases s \<and> same_counters s s' \<and> wal_live_chunks s' = wal_live_chunks s"
  by (auto simp: prune_wal_commits_def Let_def core_defs elim!: attemptE)

lemma forget_objects_same:
  "forget_objects s objs f = (s', r) \<Longrightarrow> leases s' = leases s \<and> same_counters s s' \<and> wal_live_chunks s' = wal_live_chunks s"
  by (auto simp: forget_objects_def core_defs elim!: attemptE split: prod.splits)

lemma forget_member_core: "same_core s (forget_member s cid)"
  by (rule same_but_aliases_core [OF forget_member_same])

lemma remove_link_counters [simp]:
  "leases (remove_link s lid) = leases s" "last_namespace_id (remove_link s lid) = last_namespace_id s"
  "last_stream_id (remove_link s lid) = last_stream_id s" "last_link_id (remove_link s lid) = last_link_id s"
  "last_collection_id (remove_link s lid) = last_collection_id s"
  by (simp_all add: remove_link_def split: option.split)

lemma leave_aliases_counters [simp]:
  "leases (leave_aliases s cid ks) = leases s" "last_namespace_id (leave_aliases s cid ks) = last_namespace_id s"
  "last_stream_id (leave_aliases s cid ks) = last_stream_id s" "last_link_id (leave_aliases s cid ks) = last_link_id s"
  "last_collection_id (leave_aliases s cid ks) = last_collection_id s"
  using same_but_aliases_core [OF leave_aliases_same, of s cid ks] by (simp_all add: core_defs)

lemma drop_collection_same:
  assumes "drop_collection s ns name now = (s', r)"
  shows "leases s' = leases s \<and> same_counters s s'"
proof -
  let ?s = "fst (drop_collection s ns name now)"
  have "leases ?s = leases s" "same_counters s ?s"
    by (simp_all add: drop_collection_def Let_def same_counters_def split: option.split)
  then show ?thesis by (simp add: assms)
qed

lemma apply_leases:
  assumes "apply_command s c = (s', r)" "\<not> writes_leases c"
  shows "leases s' = leases s"
proof (cases "writes_log c \<or> creates c")
  case True
  then show ?thesis using assms
    by (cases c) (simp_all add: create_namespace_same create_link_same create_stream_objects [unfolded same_objects_def] create_collection_objects [unfolded same_objects_def]
        commit_wal_same swap_segment_same trim_partition_same prune_wal_commits_same forget_objects_same drop_collection_same)
next
  case False
  then show ?thesis using assms apply_other_core by (auto simp: same_core_def)
qed

lemma apply_counters:
  assumes "apply_command s c = (s', r)" "\<not> creates c"
  shows "same_counters s s'"
proof (cases "writes_leases c")
  case True
  then show ?thesis using assms lease_command_same by blast
next
  case not_leases: False
  show ?thesis
  proof (cases "writes_log c")
    case True
    then show ?thesis using assms
      by (cases c) (simp_all add: commit_wal_same swap_segment_same trim_partition_same prune_wal_commits_same
          forget_objects_same drop_collection_same)
  next
    case False
    then show ?thesis using assms not_leases apply_other_core by (auto simp: same_core_def)
  qed
qed

lemma apply_log:
  assumes "apply_command s c = (s', r)" "\<not> writes_log c"
  shows "same_log s s'"
proof (cases "writes_leases c")
  case True
  then show ?thesis using assms lease_command_same by blast
next
  case not_leases: False
  show ?thesis
  proof (cases "creates c")
    case True
    then show ?thesis using assms by (cases c) (simp_all add: create_namespace_same create_link_same)
  next
    case False
    then show ?thesis using assms not_leases apply_other_core by (auto simp: same_core_def)
  qed
qed

section \<open>Live counts\<close>

lemma live_u32_frame: "live_u32 s \<Longrightarrow> wal_live_chunks s' = wal_live_chunks s \<Longrightarrow> live_u32 s'"
  by (simp add: live_u32_def)

lemma live_u32_update [simp]:
  "live_u32 (s\<lparr>clock_ms := c\<rparr>) = live_u32 s" "live_u32 (s\<lparr>partitions := m\<rparr>) = live_u32 s"
  "live_u32 (s\<lparr>streams := st\<rparr>) = live_u32 s" "live_u32 (s\<lparr>stream_names := sn\<rparr>) = live_u32 s"
  "live_u32 (s\<lparr>idempotency := i\<rparr>) = live_u32 s"
  by (simp_all add: live_u32_def)

lemma release_entry_live: "live_u32 s \<Longrightarrow> live_u32 (release_entry s e)"
  unfolding live_u32_def release_entry_def Let_def
  by (auto split: EntryKind.splits option.splits if_splits) (use diff_le_self order_trans in blast)+

lemma release_entries_live: "live_u32 s \<Longrightarrow> live_u32 (release_entries s es)"
  by (induction s es rule: release_entries.induct) (simp_all add: release_entry_live)

lemma remove_partitions_live: "live_u32 s \<Longrightarrow> live_u32 (remove_partitions s sid ps)"
proof (induction s sid ps rule: remove_partitions.induct)
  case (2 s sid p ps)
  then show ?case
    by (cases "bm_get (partitions s) (sid, p)") (simp_all add: release_entries_live)
qed simp

lemma remove_stream_live: "live_u32 s \<Longrightarrow> live_u32 (remove_stream s sid)"
  by (simp add: remove_stream_def drop_stream_idempotency_def remove_partitions_live split: option.split)

lemma commit_wal_live: "commit_wal s obj t cs = (s', r) \<Longrightarrow> live_u32 s \<Longrightarrow> live_u32 s'"
  by (erule commit_wal_cases) (auto simp: live_u32_def)

lemma swap_segment_live: "swap_segment s sid p rs seg rng ts f now fr = (s', r) \<Longrightarrow> live_u32 s \<Longrightarrow> live_u32 s'"
  by (erule swap_segment_cases) (simp_all add: release_entries_live put_partition_def)

lemma trim_partition_live: "trim_partition s sid p off f now = (s', r) \<Longrightarrow> live_u32 s \<Longrightarrow> live_u32 s'"
  by (erule trim_partition_cases) (simp_all add: release_entries_live put_partition_def)

lemma drop_collection_live:
  assumes "drop_collection s ns name now = (s', r)" "cat_inv s" "live_u32 s"
  shows "live_u32 s'"
  using assms(1,2)
proof (cases rule: drop_collection_cases)
  case absent
  then show ?thesis using assms(3) by (simp add: live_u32_def)
next
  case (dropped cid c st l s5)
  have "wal_live_chunks s5 = wal_live_chunks s"
    using forget_member_core [of "dropped_row s ns name now cid" cid] dropped(9) by (simp add: core_defs dropped_row_def)
  then have "live_u32 (remove_stream (s5\<lparr>collection_hot := bm_remove cid (collection_hot s5)\<rparr>) (c_stream c))"
    using assms(3) by (intro remove_stream_live) (simp add: live_u32_def)
  then show ?thesis unfolding dropped(10) Let_def by (rule live_u32_frame) simp
qed

lemma apply_live:
  assumes "apply_command s c = (s', r)" "cat_inv s" "live_u32 s"
  shows "live_u32 s'"
proof (cases "writes_log c")
  case True
  then show ?thesis using assms
    by (cases c) (auto dest: create_stream_objects [unfolded same_objects_def] create_collection_objects [unfolded same_objects_def] prune_wal_commits_same forget_objects_same
        intro: live_u32_frame commit_wal_live swap_segment_live trim_partition_live drop_collection_live)
next
  case False
  then show ?thesis using assms apply_log live_u32_frame by (auto simp: same_log_def)
qed

section \<open>The invariant\<close>

text \<open>
  What the environment provides with a command: a WAL object is committed under a WAL path
  and with the creation time its path carries, a partition's offsets fit \<open>u64\<close>, and a
  compacted segment is written to a path of its own.
\<close>

fun cmd_ok :: "(string \<Rightarrow> u64) \<Rightarrow> MetaState \<Rightarrow> Command \<Rightarrow> bool" where
  "cmd_ok ct s (CommitWal obj t cs) \<longleftrightarrow> is_wal_path obj \<and> t = ct obj \<and> offsets_fit s cs"
| "cmd_ok ct s (SwapSegment sid p rs seg rng ts f now fr) \<longleftrightarrow> swap_retry s sid p rs seg \<or> segment_fresh s seg"
| "cmd_ok ct s _ \<longleftrightarrow> True"

text \<open>After at most \<open>n\<close> commands.\<close>

definition meta_inv :: "(string \<Rightarrow> u64) \<Rightarrow> nat \<Rightarrow> MetaState \<Rightarrow> bool" where
  "meta_inv ct n s \<longleftrightarrow> log_inv ct s \<and> cat_inv s \<and> live_u32 s \<and> leases_bound n s \<and> counters_le n s"

lemma meta_invD:
  assumes "meta_inv ct n s"
  shows "log_inv ct s" "cat_inv s" "live_u32 s" "leases_bound n s" "counters_le n s"
  using assms by (simp_all add: meta_inv_def)

lemma counters_lt:
  assumes "counters_le n s" "n < U64_MAX"
  shows "last_namespace_id s < U64_MAX" "last_stream_id s < U64_MAX" "last_link_id s < U64_MAX"
    "last_collection_id s < U64_MAX"
  using assms by (auto simp: counters_le_def)

lemma meta_inv_init: "meta_inv ct 0 MetaState_default"
proof -
  have "obj_ok ct (\<lambda>k obj. 0) bm_empty bm_empty bm_empty 0" by (rule obj_okI) simp_all
  then have "log_inv ct MetaState_default"
    by (simp add: log_inv_def parts_inv_def obj_inv_def MetaState_default_def ref_count_def)
  moreover have "cat_inv MetaState_default"
    by (rule cat_invI) (simp_all add: MetaState_default_def namespaces_ok_def streams_ok_def links_ok_def colls_ok_def
        nst.empty stt.empty lit.empty cot.empty ref_inv_defs alias_inv_def alias_ok_def alias_canonical_def alias_members_of_def)
  ultimately show ?thesis
    by (simp add: meta_inv_def live_u32_def leases_bound_def counters_le_def MetaState_default_def)
qed

lemma apply_cat:
  assumes "apply_command s c = (s', r)" "cat_inv s" "counters_le n s" "n < U64_MAX"
  shows "cat_inv s'"
proof (cases "writes_leases c")
  case True
  have "s' = s\<lparr>clock_ms := clock_ms s', leases := leases s'\<rparr>"
    using assms(1) True by (cases c) (auto dest: lease_ops_only)
  then show ?thesis by (rule leases_only_cat [OF assms(2)])
next
  case False
  note lt = counters_lt [OF assms(3,4)]
  from False show ?thesis using assms(1)
    by (cases c) (use assms(2) lt in \<open>auto intro: create_namespace_cat create_stream_cat create_link_cat
        create_collection_cat drop_collection_cat commit_wal_cat swap_segment_cat trim_partition_cat prune_wal_commits_cat
        forget_objects_cat set_retention_cat cas_pointer_cat update_collection_schema_cat update_aliases_cat
        update_alias_targets_cat set_collection_hot_cat claim_idempotency_keys_cat complete_idempotency_keys_cat
        release_idempotency_keys_cat prune_idempotency_keys_cat\<close>)
qed

lemma apply_log_inv:
  assumes "apply_command s c = (s', r)" "cat_inv s" "counters_le n s" "n < U64_MAX" "log_inv ct s" "cmd_ok ct s c"
  shows "log_inv ct s'"
proof (cases "writes_log c")
  case True
  note lt = counters_lt [OF assms(3,4)]
  from True show ?thesis using assms(1,6)
    by (cases c) (use assms(2,5) lt in \<open>auto intro: create_stream_log create_collection_log drop_collection_log
      commit_wal_log_inv swap_segment_log_inv trim_partition_log_inv prune_wal_commits_log_inv forget_objects_log_inv\<close>)
next
  case False
  then have "same_log s s'" using assms(1) apply_log by blast
  moreover have "clock_ms s \<le> clock_ms s'" using assms(1) apply_clock_le by blast
  ultimately show ?thesis using log_inv_frame [OF assms(5)] by (simp add: same_log_def)
qed

lemma apply_leases_le:
  assumes "apply_command s c = (s', r)" "leases_bound n s" "n < U64_MAX"
  shows "leases_le s s' \<and> leases_bound (Suc n) s'"
proof (cases "writes_leases c")
  case True
  have s': "s' = fst (apply_command s c)" using assms(1) by simp
  show ?thesis unfolding s' using True assms(2,3)
    by (cases c) (simp_all add: acquire_lease_le renew_lease_le reacquire_lease_le release_lease_le)
next
  case False
  then have "leases s' = leases s" using assms(1) apply_leases by blast
  then show ?thesis using leases_bound_mono [OF assms(2)] by simp
qed

lemma apply_counters_le:
  assumes "apply_command s c = (s', r)" "cat_inv s" "counters_le n s" "n < U64_MAX"
  shows "counters_le (Suc n) s'"
proof (cases "creates c")
  case False
  then have "same_counters s s'" using assms(1) apply_counters by blast
  then show ?thesis using assms(3) by (auto simp: counters_le_def same_counters_def)
next
  case True
  note lt = counters_lt [OF assms(3,4)]
  have ns: "counters_le (Suc n) s'" if "create_namespace s name = (s', r)" for name
  proof -
    have "last_namespace_id s' \<le> Suc (last_namespace_id s) \<and> last_stream_id s' = last_stream_id s
      \<and> last_link_id s' = last_link_id s \<and> last_collection_id s' = last_collection_id s"
      using that lt(1) by (auto simp: create_namespace_def Let_def wadd64_exact elim!: attemptE split: option.splits)
    then show ?thesis using assms(3) by (auto simp: counters_le_def)
  qed
  have st: "counters_le (Suc n) s'" if "create_stream s ns name p cl rt = (s', r)" for ns name p cl rt
    using that lt(2) by (rule create_stream_cases) (use assms(3) in \<open>auto simp: counters_le_def\<close>)
  have li: "counters_le (Suc n) s'" if "create_link s ns name src t opts = (s', r)" for ns name src t opts
    using that lt(3) by (rule create_link_cases) (use assms(3) in \<open>auto simp: counters_le_def\<close>)
  have co: "counters_le (Suc n) s'" if "create_collection s ns name sc p = (s', r)" for ns name sc p
    using that assms(2) lt(4,2,3) by (rule create_collection_eq) (use assms(3) in \<open>auto simp: counters_le_def\<close>)
  show ?thesis using True assms(1) ns st li co by (cases c) auto
qed

theorem meta_inv_step:
  assumes "meta_inv ct n s" "n < U64_MAX" "cmd_ok ct s c"
  shows "meta_inv ct (Suc n) (fst (apply_command s c))"
proof -
  obtain s' r where eq: "apply_command s c = (s', r)" by fastforce
  note D = meta_invD [OF assms(1)]
  show ?thesis using apply_cat [OF eq D(2,5) assms(2)] apply_log_inv [OF eq D(2,5) assms(2) D(1) assms(3)]
    apply_live [OF eq D(2,3)] apply_leases_le [OF eq D(4) assms(2)] apply_counters_le [OF eq D(2,5) assms(2)] eq
    by (simp add: meta_inv_def)
qed

section \<open>Reachable states\<close>

text \<open>
  \<open>reachable ct n s\<close>: the state machine gets to \<open>s\<close> from the empty state with \<open>n\<close> commands, fewer
  than \<open>u64::MAX\<close> of them, so that no counter and no epoch wraps.
\<close>

inductive reachable :: "(string \<Rightarrow> u64) \<Rightarrow> nat \<Rightarrow> MetaState \<Rightarrow> bool" for ct where
  init: "reachable ct 0 MetaState_default"
| step: "reachable ct n s \<Longrightarrow> n < U64_MAX \<Longrightarrow> cmd_ok ct s c \<Longrightarrow> reachable ct (Suc n) (fst (apply_command s c))"

lemma reachable_meta_inv: "reachable ct n s \<Longrightarrow> meta_inv ct n s"
  by (induction rule: reachable.induct) (simp_all add: meta_inv_init meta_inv_step)

lemmas reachable_inv = reachable_meta_inv [THEN meta_invD(1)] reachable_meta_inv [THEN meta_invD(2)]
  reachable_meta_inv [THEN meta_invD(3)] reachable_meta_inv [THEN meta_invD(4)] reachable_meta_inv [THEN meta_invD(5)]

text \<open>An executable form: every command of the log is admissible where it is applied.\<close>

fun run_ok :: "(string \<Rightarrow> u64) \<Rightarrow> MetaState \<Rightarrow> Command list \<Rightarrow> bool" where
  "run_ok ct s [] \<longleftrightarrow> True"
| "run_ok ct s (c # cs) \<longleftrightarrow> cmd_ok ct s c \<and> run_ok ct (fst (apply_command s c)) cs"

lemma run_reachable:
  "reachable ct n s \<Longrightarrow> run_ok ct s cs \<Longrightarrow> n + length cs \<le> U64_MAX \<Longrightarrow> reachable ct (n + length cs) (run s cs)"
proof (induction cs arbitrary: n s)
  case (Cons c cs)
  have "reachable ct (Suc n) (fst (apply_command s c))" using Cons.prems by (auto intro: reachable.step)
  then show ?case using Cons.IH [of "Suc n"] Cons.prems by simp
qed simp

text \<open>
  The contract of a property that admissible commands keep: it then holds after any
  admissible log that follows a reachable state where it holds.
\<close>

locale stable =
  fixes ct :: "string \<Rightarrow> u64" and P :: "MetaState \<Rightarrow> bool"
  assumes step: "reachable ct n s \<Longrightarrow> n < U64_MAX \<Longrightarrow> cmd_ok ct s c \<Longrightarrow> P s \<Longrightarrow> P (fst (apply_command s c))"
begin

lemma along:
  "reachable ct n s \<Longrightarrow> run_ok ct s cmds \<Longrightarrow> n + length cmds \<le> U64_MAX \<Longrightarrow> P s \<Longrightarrow> P (run s cmds)"
proof (induction cmds arbitrary: n s)
  case (Cons c cmds)
  have "reachable ct (Suc n) (fst (apply_command s c))" using Cons.prems by (auto intro: reachable.step)
  moreover have "P (fst (apply_command s c))" by (rule step) (use Cons.prems in auto)
  ultimately show ?case using Cons.IH [of "Suc n"] Cons.prems by simp
qed simp

end

lemma demo_reachable: "reachable ct 2 demo_state"
  using run_reachable [OF reachable.init, of ct "[CreateNamespace ''acme'',
     CreateStream (NamespaceId 1) ''events'' 2 Standard Retention_default]"] demo_state_run
  by (simp add: U64_MAX_def numeral_2_eq_2)

section \<open>The invariant check\<close>

text \<open>
  C2. The store's own consistency check finds nothing to report in any reachable state: no
  gap or overlap in a partition's index, no wrong byte or chunk count, no retired object that
  is still read, no dangling name, alias, pointer, hot entry, implicit stream or link.
\<close>

theorem reachable_check_invariants:
  assumes "reachable ct n s"
  shows "check_invariants s = []"
  using reachable_inv(1,2,3) [OF assms] by (rule check_invariants_ok)

theorem reachable_check_invariants_witness: "check_invariants demo_state = []"
  by (rule reachable_check_invariants [OF demo_reachable [of "\<lambda>_. 0"]])

end
