(* ===== verification/LogProps.thy ===== *)
theory LogProps
  imports Reach
begin

text \<open>
  What the log promises on every reachable state: commits hand out dense offsets that read
  back, a WAL object is committed at most once however often the command is retried, swaps
  and trims change no offset that stays readable, and the objects handed to garbage
  collection are exactly those nothing reads any more.
\<close>

section \<open>Partitions of reachable states\<close>

lemma reachable_part_inv: "reachable ct n s \<Longrightarrow> bm_get (partitions s) key = Some st \<Longrightarrow> part_inv st"
  using reachable_inv(1) parts_invD unfolding log_inv_def by blast

text \<open>The place of a chunk among the chunks of its partition.\<close>

lemma filter_nth_take:
  assumes "i < length xs" "P (xs ! i)"
  defines "j \<equiv> length (filter P (take i xs))"
  shows "j < length (filter P xs)" "filter P xs ! j = xs ! i" "take j (filter P xs) = filter P (take i xs)"
proof -
  have "xs = take i xs @ xs ! i # drop (Suc i) xs" using assms(1) by (simp add: id_take_nth_drop)
  then have eq: "filter P xs = filter P (take i xs) @ xs ! i # filter P (drop (Suc i) xs)"
    using assms(2) by (metis filter.simps(2) filter_append)
  show "j < length (filter P xs)" "filter P xs ! j = xs ! i" "take j (filter P xs) = filter P (take i xs)"
    unfolding eq j_def by (simp_all add: nth_append)
qed

text \<open>
  A commit that is not a retry, seen from one partition: it appends the chunks for it. The
  hypotheses are those of \<open>cmd_ok\<close>.
\<close>

lemma commit_wal_partition:
  assumes reach: "reachable ct n s" and ok: "cmd_ok ct s (CommitWal obj t cs)"
    and com: "commit_wal s obj t cs = (s', Inr (WalCommitted bases))" and new: "bm_get (wal_commits s) obj = None"
    and st: "bm_get (partitions s) key = Some st"
  obtains st' where "bm_get (partitions s') key = Some st'" "part_inv st'"
    "next_offset st' = next_offset st + records_for cs key" "log_start_offset st' = log_start_offset st"
    "\<And>b e. bm_get (index st) b = Some e \<Longrightarrow> bm_get (index st') b = Some e"
    "\<And>i. i < length cs \<Longrightarrow> chunk_key (cs ! i) = key \<Longrightarrow>
       bases ! i = next_offset st + records_for (take i cs) key
       \<and> bm_get (index st') (bases ! i) = Some (chunk_entry obj (bases ! i) (cs ! i))"
  using com
proof (cases rule: commit_wal_cases)
  case (committed s1 bases')
  let ?cs = "filter (\<lambda>c. chunk_key c = key) cs"
  let ?st' = "foldl (append_chunk obj) st ?cs"
  have pos: "\<forall>c \<in> set cs. 0 < ch_records c" using committed(5) by (auto simp: validate_chunk_def split: if_splits)
  have fit: "offsets_fit s cs" using ok by simp
  have parts: "parts_inv s" using reachable_inv(1) [OF reach] by (simp add: log_inv_def)
  have inv: "part_inv st" by (rule reachable_part_inv [OF reach st])
  have room: "next_offset st + sum_list (map ch_records ?cs) \<le> U64_MAX"
    using offsets_fitD [OF fit st] by (simp add: records_for_def)
  have posk: "\<forall>c \<in> set ?cs. 0 < ch_records c" using pos by simp
  note A = append_all_inv [OF inv posk room, of obj]
  have st': "bm_get (partitions s') key = Some ?st'"
    using commit_chunks_partitions [OF committed(6), of key] st committed(9) by simp
  have bases: "bases = bases'" using committed(8) by simp
  show ?thesis
  proof (rule that [OF st'])
    fix i assume i: "i < length cs" "chunk_key (cs ! i) = key"
    obtain j where j: "j < length ?cs" "?cs ! j = cs ! i" "take j ?cs = filter (\<lambda>c. chunk_key c = key) (take i cs)"
      using filter_nth_take [of i cs "\<lambda>c. chunk_key c = key"] i by blast
    have b: "bases ! i = next_offset st + records_for (take i cs) key"
      using commit_chunks_bases [OF committed(6) parts fit pos i(1)] st i(2) bases by auto
    then have "bases ! i = next_offset st + sum_list (map ch_records (take j ?cs))"
      by (simp add: j(3) records_for_def)
    then show "bases ! i = next_offset st + records_for (take i cs) key
       \<and> bm_get (index ?st') (bases ! i) = Some (chunk_entry obj (bases ! i) (cs ! i))"
      using A j(1,2) b by metis
  qed (use A in \<open>auto simp: records_for_def\<close>)
qed (use new in simp_all)

text \<open>The concrete commit of the examples: three chunks, two of them for partition 0.\<close>

definition demo_wal :: string where
  "demo_wal = ''wal/standard/1/A.wal''"

definition demo_chunks :: "WalChunk list" where
  "demo_chunks = [demo_chunk 0 3, demo_chunk 1 4, demo_chunk 0 2]"

definition demo_committed :: MetaState where
  "demo_committed = fst (commit_wal demo_state demo_wal 0 demo_chunks)"

lemmas commit_simps = commit_wal_def validate_key_def try_from_u32_def validate_chunk_def sat_add64_def
  insert_entry_def chunk_entry_def wadd64_def put_partition_def Let_def

lemma demo_commit: "commit_wal demo_state demo_wal 0 demo_chunks = (demo_committed, Inr (WalCommitted [0, 0, 3]))"
proof -
  have "snd (commit_wal demo_state demo_wal 0 demo_chunks) = Inr (WalCommitted [0, 0, 3])"
    by (simp add: demo_defs limit_defs demo_wal_def demo_chunks_def commit_simps)
  then show ?thesis by (simp add: demo_committed_def prod_eq_iff)
qed

lemma demo_state_parts:
  "partition_of demo_state (StreamId 1) 0 = Some PartitionState_default"
  "partition_of demo_state (StreamId 1) (Suc 0) = Some PartitionState_default"
  "bm_get (wal_commits demo_state) obj = None"
  by (simp_all add: partition_of_def demo_state_def MetaState_default_def)

lemma demo_commit_ok: "cmd_ok (\<lambda>_. 0) demo_state (CommitWal demo_wal 0 demo_chunks)"
proof -
  have "next_offset st = 0" if "bm_get (partitions demo_state) key = Some st" for key st
    using that by (auto simp: demo_state_def PartitionState_default_def MetaState_default_def split: if_splits)
  then have "offsets_fit demo_state demo_chunks"
    by (intro offsets_fitI) (auto simp: records_for_def demo_chunks_def demo_chunk_def U64_MAX_def)
  then show ?thesis by (simp add: is_wal_path_def demo_wal_def)
qed

lemma demo_committed_reachable: "reachable (\<lambda>_. 0) 3 demo_committed"
  using reachable.step [OF demo_reachable _ demo_commit_ok] demo_commit
  by (simp add: U64_MAX_def numeral_3_eq_3 numeral_2_eq_2)

definition demo_part :: PartitionState where
  "demo_part = \<lparr>next_offset = 5, log_start_offset = 0,
     index = bm_insert 3 (chunk_entry demo_wal 3 (demo_chunk 0 2)) (bm_singleton 0 (chunk_entry demo_wal 0 (demo_chunk 0 3))),
     bytes = 20\<rparr>"

lemma demo_committed_part: "partition_of demo_committed (StreamId 1) 0 = Some demo_part"
  by (simp add: demo_committed_def demo_part_def partition_of_def entry_bytes_def demo_defs limit_defs demo_wal_def
      demo_chunks_def commit_simps)

section \<open>Commits\<close>

text \<open>
  C3. The sequencer hands out dense offsets: a commit that is not a retry gives each chunk, in
  order, the partition's next offset plus the records of the chunks before it in the same
  partition, and each partition's next offset moves by exactly the records committed to it.
\<close>

theorem commit_wal_dense:
  assumes "reachable ct n s" "cmd_ok ct s (CommitWal obj t cs)"
    and "commit_wal s obj t cs = (s', Inr (WalCommitted bases))" "bm_get (wal_commits s) obj = None"
    and "partition_of s sid p = Some st"
  shows "\<exists>st'. partition_of s' sid p = Some st' \<and> next_offset st' = next_offset st + records_for cs (sid, p)
    \<and> log_start_offset st' = log_start_offset st
    \<and> (\<forall>i < length cs. chunk_key (cs ! i) = (sid, p) \<longrightarrow>
        bases ! i = next_offset st + records_for (take i cs) (sid, p))"
  using assms(5) unfolding partition_of_def
  by (rule commit_wal_partition [OF assms(1-4)]) blast

theorem commit_wal_dense_witness:
  "\<exists>st'. partition_of demo_committed (StreamId 1) 0 = Some st' \<and> next_offset st' = 5 \<and> log_start_offset st' = 0"
proof -
  have rec: "records_for demo_chunks (StreamId 1, 0) = 5"
    by (simp add: records_for_def demo_chunks_def demo_chunk_def chunk_key_def del: chunk_key_fold)
  obtain st' where "partition_of demo_committed (StreamId 1) 0 = Some st'"
    "next_offset st' = next_offset PartitionState_default + records_for demo_chunks (StreamId 1, 0)"
    "log_start_offset st' = log_start_offset PartitionState_default"
    using commit_wal_dense [OF demo_reachable demo_commit_ok demo_commit demo_state_parts(3,1)]
    by (elim exE conjE) (rule that)
  then show ?thesis unfolding rec by (intro exI [of _ st']) (simp add: PartitionState_default_def)
qed

text \<open>
  C4. What was committed reads back: every offset of every chunk is found by a lookup, in an
  entry of the committed object with the byte range, the record count, the base offset and the
  timestamp of that chunk, and every offset readable before still reads the same entry.
\<close>

theorem commit_wal_lookup:
  assumes reach: "reachable ct n s" and "cmd_ok ct s (CommitWal obj t cs)"
    and "commit_wal s obj t cs = (s', Inr (WalCommitted bases))" "bm_get (wal_commits s) obj = None"
    and "partition_of s sid p = Some st"
  shows "\<exists>st'. partition_of s' sid p = Some st'
    \<and> (\<forall>i < length cs. chunk_key (cs ! i) = (sid, p) \<longrightarrow>
        (\<forall>off. bases ! i \<le> off \<and> off < bases ! i + ch_records (cs ! i) \<longrightarrow>
          lookup st' off = Some \<lparr>e_kind = Wal, e_base_offset = bases ! i, e_records = ch_records (cs ! i),
            e_object = obj, e_byte_range = ch_byte_range (cs ! i), e_max_timestamp_ms = ch_max_timestamp_ms (cs ! i)\<rparr>))
    \<and> (\<forall>off e. lookup st off = Some e \<longrightarrow> lookup st' off = Some e)"
proof -
  note st = assms(5) [unfolded partition_of_def]
  have inv: "part_inv st" by (rule reachable_part_inv [OF reach st])
  have ls: "log_start_offset st \<le> next_offset st" using part_inv_tiles [OF inv] by metis
  show ?thesis
  proof (rule commit_wal_partition [OF assms(1-4) st])
    fix st' assume st': "bm_get (partitions s') (sid, p) = Some st'" "part_inv st'"
      "log_start_offset st' = log_start_offset st"
      and keep: "\<And>b e. bm_get (index st) b = Some e \<Longrightarrow> bm_get (index st') b = Some e"
      and new: "\<And>i. i < length cs \<Longrightarrow> chunk_key (cs ! i) = (sid, p) \<Longrightarrow>
        bases ! i = next_offset st + records_for (take i cs) (sid, p)
        \<and> bm_get (index st') (bases ! i) = Some (chunk_entry obj (bases ! i) (cs ! i))"
    have "lookup st' off = Some (chunk_entry obj (bases ! i) (cs ! i))"
      if "i < length cs" "chunk_key (cs ! i) = (sid, p)" "bases ! i \<le> off" "off < bases ! i + ch_records (cs ! i)" for i off
      using new [OF that(1,2)] that(3,4) st'(3) ls unfolding lookup_Some_iff [OF st'(2)] by auto
    moreover have "lookup st' off = Some e" if "lookup st off = Some e" for off e
      using that keep st'(3) unfolding lookup_Some_iff [OF st'(2)] lookup_Some_iff [OF inv] by auto
    ultimately show ?thesis using st'(1) unfolding chunk_entry_def by (auto simp: partition_of_def)
  qed
qed

theorem commit_wal_lookup_witness:
  "\<exists>st' e. partition_of demo_committed (StreamId 1) 0 = Some st' \<and> lookup st' 4 = Some e
     \<and> e_object e = demo_wal \<and> e_base_offset e = 3 \<and> e_byte_range e = \<lparr>br_start = 0, br_end = 10\<rparr>"
proof -
  have rec: "length demo_chunks = 3" "demo_chunks ! 2 = demo_chunk 0 2" "chunk_key (demo_chunk 0 2) = (StreamId 1, 0)"
    "ch_records (demo_chunk 0 2) = 2" "ch_byte_range (demo_chunk 0 2) = \<lparr>br_start = 0, br_end = 10\<rparr>"
    by (simp_all add: demo_chunks_def demo_chunk_def chunk_key_def)
  obtain st' where st': "partition_of demo_committed (StreamId 1) 0 = Some st'"
    and all: "\<forall>i < length demo_chunks. chunk_key (demo_chunks ! i) = (StreamId 1, 0) \<longrightarrow>
        (\<forall>off. [0, 0, 3] ! i \<le> off \<and> off < [0, 0, 3] ! i + ch_records (demo_chunks ! i) \<longrightarrow>
          lookup st' off = Some \<lparr>e_kind = Wal, e_base_offset = [0, 0, 3] ! i, e_records = ch_records (demo_chunks ! i),
            e_object = demo_wal, e_byte_range = ch_byte_range (demo_chunks ! i), e_max_timestamp_ms = ch_max_timestamp_ms (demo_chunks ! i)\<rparr>)"
    using commit_wal_lookup [OF demo_reachable demo_commit_ok demo_commit demo_state_parts(3,1)] by blast
  have "lookup st' 4 = Some \<lparr>e_kind = Wal, e_base_offset = 3, e_records = ch_records (demo_chunk 0 2),
            e_object = demo_wal, e_byte_range = ch_byte_range (demo_chunk 0 2), e_max_timestamp_ms = ch_max_timestamp_ms (demo_chunk 0 2)\<rparr>"
    using all [rule_format, of 2 4] rec(1-4) by simp
  then show ?thesis using st' rec(5) by simp
qed

section \<open>Exactly once\<close>

text \<open>
  A WAL object that was committed with \<open>bases\<close> stays settled: its record is there, or the
  clock has passed the window in which its commit could still be accepted.
\<close>

definition settled :: "(string \<Rightarrow> u64) \<Rightarrow> string \<Rightarrow> u64 list \<Rightarrow> MetaState \<Rightarrow> bool" where
  "settled ct obj bases s \<longleftrightarrow>
     bm_get (wal_commits s) obj = Some \<lparr>w_base_offsets = bases, w_created_at_ms = ct obj\<rparr>
     \<or> bm_get (wal_commits s) obj = None \<and> sat_add64 (ct obj) (2 * WAL_COMMIT_WINDOW_MS) < clock_ms s"

lemma settled_frame:
  assumes "settled ct obj bases s" "clock_ms s \<le> clock_ms s'"
    "bm_get (wal_commits s') obj = bm_get (wal_commits s) obj"
  shows "settled ct obj bases s'"
  using assms unfolding settled_def by auto

lemma prune_wal_commits_settled:
  assumes "prune_wal_commits s f now = (s', r)" "settled ct obj bases s"
  shows "settled ct obj bases s'"
proof (cases r)
  case (Inl e)
  then show ?thesis using assms prune_wal_commits_error by blast
next
  case (Inr y)
  let ?clock = "max (clock_ms s) now"
  have s': "s' = s\<lparr>clock_ms := ?clock, wal_commits := bm_retain (\<lambda>_ r. ?clock \<le>
      sat_add64 (w_created_at_ms r) (2 * WAL_COMMIT_WINDOW_MS)) (wal_commits s)\<rparr>"
    using assms(1) Inr by (simp add: prune_wal_commits_def Let_def attempt_eq_Inr)
  show ?thesis using assms(2) unfolding settled_def s' by (auto simp: bm_get_retain split: if_splits)
qed

lemma writes_commits:
  assumes "apply_command s c = (s', r)" "cat_inv s" "\<forall>f now. c \<noteq> PruneWalCommits f now"
    "\<forall>o' t cs. c = CommitWal o' t cs \<longrightarrow> bm_get (wal_commits s) o' \<noteq> None \<or> o' \<noteq> obj"
  shows "bm_get (wal_commits s') obj = bm_get (wal_commits s) obj"
proof (cases "writes_log c")
  case False
  then show ?thesis using apply_log [OF assms(1)] by (simp add: same_log_def)
next
  case True
  have cw: "bm_get (wal_commits s') obj = bm_get (wal_commits s) obj"
    if "commit_wal s o' t cs = (s', r)" "c = CommitWal o' t cs" for o' t cs
    using that(1) by (rule commit_wal_cases) (use assms(4) that(2) in auto)
  have sw: "wal_commits s' = wal_commits s" if "swap_segment s sid p rs seg rng ts f now fr = (s', r)"
    for sid p rs seg rng ts f now fr
    using that by (rule swap_segment_cases) (simp_all add: put_partition_def)
  have tr: "wal_commits s' = wal_commits s" if "trim_partition s sid p off f now = (s', r)" for sid p off f now
    using that by (rule trim_partition_cases) (simp_all add: put_partition_def)
  have fo: "wal_commits s' = wal_commits s" if "forget_objects s objs f = (s', r)" for objs f
    using that by (auto simp: forget_objects_def elim!: attemptE split: prod.splits)
  have dr: "wal_commits s' = wal_commits s" if "drop_collection s ns name now = (s', r)" for ns name now
    using that assms(2) by (rule drop_collection_cases) (simp, metis dropped_fields(8))
  have cs: "wal_commits s' = wal_commits s" if "create_stream s ns name p cl rt = (s', r)" for ns name p cl rt
    using create_stream_objects [OF that] by (simp add: same_objects_def)
  have cc: "wal_commits s' = wal_commits s" if "create_collection s ns name sc p = (s', r)" for ns name sc p
    using create_collection_objects [OF that] by (simp add: same_objects_def)
  show ?thesis using True assms(1,3) cw sw tr fo dr cs cc by (cases c) auto
qed

lemma commit_settled:
  assumes "commit_wal s obj t cs = (s', r)" "settled ct obj bases s" "t = ct obj"
  shows "s' = s \<and> (r = Inr (WalCommitted bases) \<or> (\<exists>e. r = Inl e))"
  using assms(1)
proof (cases rule: commit_wal_cases)
  case (retry wr)
  then show ?thesis using assms(2) by (auto simp: settled_def)
next
  case (committed s1 bases')
  have "sat_add64 t WAL_COMMIT_WINDOW_MS \<le> sat_add64 t (2 * WAL_COMMIT_WINDOW_MS)" by (rule sat_add64_mono) simp
  then show ?thesis using assms(2,3) committed(1,2) by (auto simp: settled_def)
qed simp

lemma commit_wal_record: "commit_wal s obj t cs = (s', Inr (WalCommitted bases)) \<Longrightarrow> bm_get (wal_commits s') obj \<noteq> None"
  by (erule commit_wal_cases) auto

lemma apply_settled:
  assumes app: "apply_command s c = (s', r)" and inv: "cat_inv s" and ok: "cmd_ok ct s c" and set: "settled ct obj bases s"
  shows "settled ct obj bases s'"
proof (cases "\<exists>f now. c = PruneWalCommits f now")
  case True
  then show ?thesis using app prune_wal_commits_settled [OF _ set] by auto
next
  case no_prune: False
  show ?thesis
  proof (cases "\<exists>t cs. c = CommitWal obj t cs")
    case True
    then obtain t cs where c: "c = CommitWal obj t cs" by blast
    then have "commit_wal s obj t cs = (s', r)" "t = ct obj" using app ok by simp_all
    then show ?thesis using commit_settled [OF _ set] set by metis
  next
    case False
    have "bm_get (wal_commits s') obj = bm_get (wal_commits s) obj"
      by (rule writes_commits [OF app inv]) (use no_prune False in blast)+
    then show ?thesis by (rule settled_frame [OF set apply_clock_le [OF app]])
  qed
qed

interpretation settled: stable ct "settled ct obj bases" for ct obj bases
proof unfold_locales
  fix n s c assume "reachable ct n s" "cmd_ok ct s c" "settled ct obj bases s"
  then show "settled ct obj bases (fst (apply_command s c))"
    using apply_settled reachable_inv(2) by (metis prod.collapse)
qed

text \<open>How a settled object's commit is answered, whatever chunks it carries.\<close>

lemma commit_settled_exact:
  assumes "settled ct obj bases s" "validate_key ''WAL object path'' obj = Inr ()" "t = ct obj"
  shows "commit_wal s obj t cs =
    (s, if bm_contains (wal_commits s) obj then Inr (WalCommitted bases) else Inl (StaleCommit obj))"
proof -
  have "sat_add64 t WAL_COMMIT_WINDOW_MS \<le> sat_add64 t (2 * WAL_COMMIT_WINDOW_MS)" by (rule sat_add64_mono) simp
  then show ?thesis unfolding commit_wal_def assms(2) attempt_simps using assms(1,3) by (auto simp: settled_def)
qed

text \<open>
  C1. A WAL object is committed at most once. After a commit was accepted and any admissible
  commands followed, a retry of the commit changes nothing. While the record of the commit is
  kept it answers the offsets of the first commit; once the record was pruned it is rejected as
  stale. It never appends again, not even when the object has been forgotten.
\<close>

theorem commit_wal_once:
  assumes reach: "reachable ct n s" and ok: "cmd_ok ct s (CommitWal obj t cs)"
    and com: "commit_wal s obj t cs = (s', Inr (WalCommitted bases))" and new: "bm_get (wal_commits s) obj = None"
    and later: "run_ok ct s' cmds" "n + 1 + length cmds \<le> U64_MAX"
  shows "commit_wal (run s' cmds) obj t cs' =
    (run s' cmds, if wal_commit (run s' cmds) obj \<noteq> None then Inr (WalCommitted bases) else Inl (StaleCommit obj))"
proof -
  have t: "t = ct obj" using ok by simp
  have key: "validate_key ''WAL object path'' obj = Inr ()" using com by (auto simp: commit_wal_def attempt_eq_Inr)
  have "settled ct obj bases s'" using com by (rule commit_wal_cases) (use new t in \<open>auto simp: settled_def\<close>)
  moreover have "reachable ct (Suc n) s'" using reachable.step [OF reach _ ok] com later(2) by simp
  ultimately have "settled ct obj bases (run s' cmds)" by (rule settled.along [rotated 3]) (use later in simp_all)
  from commit_settled_exact [OF this key t, of cs'] show ?thesis by (auto simp: wal_commit_def)
qed

text \<open>The retry of the example's commit, after another namespace was created.\<close>

theorem commit_wal_once_witness:
  "commit_wal (run demo_committed [CreateNamespace ''beta'']) demo_wal 0 demo_chunks
     = (run demo_committed [CreateNamespace ''beta''], Inr (WalCommitted [0, 0, 3]))"
proof -
  have "wal_commit (run demo_committed [CreateNamespace ''beta'']) demo_wal \<noteq> None"
    using commit_wal_record [OF demo_commit]
    by (auto simp: wal_commit_def create_namespace_def attempt_def Let_def split: sum.splits option.splits)
  then show ?thesis
    using commit_wal_once [OF demo_reachable demo_commit_ok demo_commit demo_state_parts(3),
        of "[CreateNamespace ''beta'']" demo_chunks]
    by (simp add: U64_MAX_def)
qed

section \<open>Reads\<close>

text \<open>
  C24. A lookup is exact: on a partition of a reachable state it finds an entry for precisely
  the offsets from the log start to the high watermark, and the entry found is the one
  whose records contain the offset.
\<close>

theorem lookup_exact:
  assumes "reachable ct n s" "partition_of s sid p = Some st"
  shows "(lookup st off = None \<longleftrightarrow> \<not> (log_start_offset st \<le> off \<and> off < high_watermark st))
    \<and> (\<forall>e. lookup st off = Some e \<longrightarrow> e \<in> set (entries st) \<and> e_base_offset e \<le> off \<and> off < end_offset e)"
proof -
  have inv: "part_inv st" using assms reachable_part_inv unfolding partition_of_def by blast
  have "e \<in> set (entries st) \<and> e_base_offset e \<le> off \<and> off < end_offset e" if found: "lookup st off = Some e" for e
  proof -
    obtain b where "bm_get (index st) b = Some e" "b \<le> off" "off < b + e_records e"
      using found lookup_Some_iff [OF inv] by blast
    then show ?thesis using part_inv_entry [OF inv] by (auto simp: entries_def ran_def)
  qed
  then show ?thesis using lookup_None_iff [OF inv] by (simp add: high_watermark_def)
qed

theorem lookup_exact_witness:
  "lookup demo_part 5 = None \<longleftrightarrow> \<not> (log_start_offset demo_part \<le> 5 \<and> 5 < high_watermark demo_part)"
  by (rule lookup_exact [THEN conjunct1, OF demo_committed_reachable demo_committed_part])

text \<open>The entries at or after a key of a tiled index are those that end after it.\<close>

lemma tiles_filter_from:
  assumes "tiles lo xs hi" "lo \<le> k" "k \<in> fst ` set xs \<or> hi \<le> k" "k \<le> off"
    "\<And>b e. (b, e) \<in> set xs \<Longrightarrow> b = k \<Longrightarrow> off < b + e_records e" "hi \<le> k \<Longrightarrow> off \<ge> hi"
  shows "map snd (filter (\<lambda>(b, _). k \<le> b) xs) = filter (\<lambda>e. off < e_base_offset e + e_records e) (map snd xs)"
  using assms
proof (induction lo xs hi rule: tiles.induct)
  case (2 lo b e xs hi)
  then have b: "b = lo" "e_base_offset e = b" "0 < e_records e" "tiles (lo + e_records e) xs hi" by auto
  show ?case
  proof (cases "k = b")
    case True
    have "off < x + e_records y \<and> k \<le> x \<and> e_base_offset y = x" if "(x, y) \<in> set xs" for x y
      using tiles_mem [OF b(4) that] "2.prems"(5) [of b e] True b by auto
    then have "filter (\<lambda>(b, _). k \<le> b) xs = xs" "filter (\<lambda>e. off < e_base_offset e + e_records e) (map snd xs) = map snd xs"
      by (auto simp: filter_id_conv)
    then show ?thesis using True "2.prems"(5) [of b e] b by simp
  next
    case False
    have le: "lo + e_records e \<le> k"
    proof (cases "hi \<le> k")
      case True
      then show ?thesis using tiles_le [OF b(4)] by simp
    next
      case False
      then obtain y where "(k, y) \<in> set xs" using "2.prems"(3) \<open>k \<noteq> b\<close> by auto
      then show ?thesis using tiles_mem [OF b(4)] by blast
    qed
    have "map snd (filter (\<lambda>(b, _). k \<le> b) xs) = filter (\<lambda>e. off < e_base_offset e + e_records e) (map snd xs)"
      by (rule "2.IH" [OF b(4) le]) (use "2.prems" False in auto)
    then show ?thesis using le "2.prems"(4) b False by auto
  qed
qed simp

text \<open>
  C25. \<open>entries_from\<close> returns, in order, exactly the entries that hold a readable offset at or
  after the requested one: a fetch that starts anywhere skips nothing and repeats nothing.
\<close>

theorem entries_from_exact:
  assumes "reachable ct n s" "partition_of s sid p = Some st"
  shows "entries_from st off = filter (\<lambda>e. max off (log_start_offset st) < end_offset e) (entries st)"
proof -
  let ?off = "max off (log_start_offset st)"
  have inv: "part_inv st" using assms reachable_part_inv unfolding partition_of_def by blast
  obtain lo where t: "tiles lo (bm_iter (index st)) (next_offset st)" and lo: "lo \<le> log_start_offset st"
    and n: "next_offset st \<le> U64_MAX"
    using part_inv_tiles [OF inv] by metis
  define k where "k = (case lookup st ?off of Some e \<Rightarrow> e_base_offset e | None \<Rightarrow> ?off)"
  have k: "lo \<le> k \<and> (k \<in> fst ` set (bm_iter (index st)) \<or> next_offset st \<le> k) \<and> k \<le> ?off
    \<and> (\<forall>b e. (b, e) \<in> set (bm_iter (index st)) \<longrightarrow> b = k \<longrightarrow> ?off < b + e_records e)
    \<and> (next_offset st \<le> k \<longrightarrow> next_offset st \<le> ?off)"
  proof (cases "lookup st ?off")
    case None
    then have "k = ?off" "next_offset st \<le> ?off" using lookup_None_iff [OF inv, of ?off] by (auto simp: k_def)
    then show ?thesis using lo tiles_mem [OF t] by fastforce
  next
    case (Some e)
    then obtain b where b: "bm_get (index st) b = Some e" "b \<le> ?off" "?off < b + e_records e"
      using lookup_Some_iff [OF inv] by blast
    have mem: "(b, e) \<in> set (bm_iter (index st))" using b(1) by (simp add: bm_iter_get)
    have "k = b" using Some part_inv_entry(1) [OF inv b(1)] by (simp add: k_def)
    moreover have "b < next_offset st" using part_inv_entry [OF inv b(1)] by simp
    moreover have "b \<in> fst ` set (bm_iter (index st))" using mem by force
    ultimately show ?thesis using b tiles_mem [OF t mem] by (auto simp: bm_iter_get)
  qed
  have "entries_from st off = map snd (filter (\<lambda>(b, _). k \<le> b) (bm_iter (index st)))"
    by (simp add: entries_from_def k_def bm_range_from_filter Let_def)
  also have "\<dots> = filter (\<lambda>e. ?off < e_base_offset e + e_records e) (map snd (bm_iter (index st)))"
    using k by (intro tiles_filter_from [OF t]) auto
  also have "\<dots> = filter (\<lambda>e. ?off < end_offset e) (entries st)"
    unfolding entries_def bm_values_def
    by (rule filter_cong) (use tiles_end_offset [OF t n] tiles_mem [OF t] in force)+
  finally show ?thesis .
qed

theorem entries_from_exact_witness:
  "entries_from demo_part 4 = filter (\<lambda>e. max 4 (log_start_offset demo_part) < end_offset e) (entries demo_part)"
  by (rule entries_from_exact [OF demo_committed_reachable demo_committed_part])

section \<open>Swaps and trims\<close>

text \<open>A swap of a contiguous run for one segment, seen by lookups.\<close>

lemma lookup_replaced_run:
  assumes inv: "part_inv st" and inv': "part_inv st'"
    and iter: "bm_iter (index st) = pre @ gap @ post" "bm_iter (index st') = pre @ (b, seg) # post"
    and ls: "log_start_offset st' = log_start_offset st" and nx: "next_offset st' = next_offset st"
    and seg: "e_records seg = sum_list (map (\<lambda>x. e_records (snd x)) gap)" "gap \<noteq> []" "fst (hd gap) = b"
  shows "lookup st' off = (case lookup st off of None \<Rightarrow> None
    | Some e \<Rightarrow> if e_base_offset e \<in> fst ` set gap then Some seg else Some e)"
proof (cases "lookup st off")
  case None
  then have "lookup st' off = None" using lookup_None_iff [OF inv, of off] lookup_None_iff [OF inv', of off] ls nx by simp
  then show ?thesis using None by simp
next
  case (Some e)
  then obtain k where k: "log_start_offset st \<le> off" "bm_get (index st) k = Some e" "k \<le> off" "off < k + e_records e"
    using lookup_Some_iff [OF inv] by blast
  have kb: "e_base_offset e = k" by (rule part_inv_entry(1) [OF inv k(2)])
  have mem: "(k, e) \<in> set pre \<union> set gap \<union> set post" using k(2) iter(1) by (auto simp: bm_iter_get [symmetric])
  have uniq: "k \<in> fst ` set gap \<longleftrightarrow> (k, e) \<in> set gap"
    using k(2) iter(1) bm_iter_get [of k _ "index st"] by force
  show ?thesis
  proof (cases "(k, e) \<in> set gap")
    case True
    obtain lo where t: "tiles lo (bm_iter (index st)) (next_offset st)" using part_inv_tiles [OF inv] by metis
    then obtain m1 m2 where gap: "tiles m1 gap m2" unfolding iter(1) tiles_append by blast
    have b: "m1 = b" using gap seg(2,3) by (cases gap) auto
    have "m1 + sum_list (map (\<lambda>x. e_records (snd x)) gap) = m2"
      using gap by (induction m1 gap m2 rule: tiles.induct) auto
    then have "b \<le> off" "off < b + e_records seg" using tiles_mem [OF gap True] k(3,4) b seg(1) by auto
    then have "lookup st' off = Some seg"
      unfolding lookup_Some_iff [OF inv'] using k(1) ls iter(2) by (auto simp: bm_iter_get [symmetric])
    then show ?thesis using Some True uniq kb by simp
  next
    case False
    then have "bm_get (index st') k = Some e" using mem iter(2) by (auto simp: bm_iter_get [symmetric])
    then have "lookup st' off = Some e" unfolding lookup_Some_iff [OF inv'] using k ls by auto
    then show ?thesis using Some False uniq kb by simp
  qed
qed

text \<open>
  C5. Compaction does not change what readers see: after a swap, every offset that was in a
  replaced WAL chunk is found in the new segment, every other offset in the entry it was in,
  and the log start, the high watermark and all other partitions are as before.
\<close>

theorem swap_segment_reads:
  assumes reach: "reachable ct n s" and ok: "\<not> swap_retry s sid p rs seg"
    and swap: "swap_segment s sid p rs seg rng ts f now fr = (s', Inr SegmentSwapped)"
  shows "\<exists>st st' e'. partition_of s sid p = Some st \<and> partition_of s' sid p = Some st'
    \<and> e_kind e' = Segment \<and> e_object e' = seg \<and> e_byte_range e' = rng
    \<and> log_start_offset st' = log_start_offset st \<and> high_watermark st' = high_watermark st
    \<and> (\<forall>off. lookup st' off = (case lookup st off of None \<Rightarrow> None
        | Some e \<Rightarrow> if e_base_offset e \<in> fst ` set rs then Some e' else Some e))
    \<and> (\<forall>key. key \<noteq> (sid, p) \<longrightarrow> bm_get (partitions s') key = bm_get (partitions s) key)"
  using swap
proof (cases rule: swap_segment_cases)
  case (retry st b obj rs' e)
  then show ?thesis using ok by (simp add: swap_retry_def)
next
  case (swapped st b obj rs' records st2 removed)
  let ?e = "\<lparr>e_kind = Segment, e_base_offset = b, e_records = records, e_object = seg,
    e_byte_range = rng, e_max_timestamp_ms = ts\<rparr>"
  have inv: "part_inv st" by (rule reachable_part_inv [OF reach swapped(4)])
  have seg: "e_base_offset ?e = b" "e_records ?e = records" by simp_all
  have S: "part_inv (insert_entry st2 ?e)" "next_offset (insert_entry st2 ?e) = next_offset st"
    "log_start_offset (insert_entry st2 ?e) = log_start_offset st"
    by (rule swap_partition [OF inv swapped(2,8,9) seg])+
  obtain pre gap post where gap: "bm_iter (index st) = pre @ gap @ post" "removed = map snd gap" "gap \<noteq> []"
    "bm_iter (index (insert_entry st2 ?e)) = pre @ (b, ?e) # post" "map fst gap = map fst rs"
    "records = sum_list (map e_records removed)"
    using swap_partition(4) [OF inv swapped(2,8,9) seg] by (elim exE conjE) (rule that)
  have hd: "fst (hd gap) = b" using gap(3,5) swapped(2) by (cases gap) auto
  have keys: "fst ` set gap = fst ` set rs" using gap(5) by (metis image_set)
  have part: "partitions s' = bm_insert (sid, p) (insert_entry st2 ?e) (partitions s)"
    using swapped(10) by (simp add: put_partition_def)
  have recs: "e_records ?e = sum_list (map (\<lambda>x. e_records (snd x)) gap)" using gap(2,6) by (simp add: comp_def)
  have look: "lookup (insert_entry st2 ?e) off = (case lookup st off of None \<Rightarrow> None
      | Some e \<Rightarrow> if e_base_offset e \<in> fst ` set rs then Some ?e else Some e)" for off
    unfolding keys [symmetric] by (rule lookup_replaced_run [OF inv S(1) gap(1,4) S(3,2) recs gap(3) hd])
  show ?thesis
    by (rule exI [of _ st], rule exI [of _ "insert_entry st2 ?e"], rule exI [of _ ?e])
      (use S(2,3) look swapped(4) part in \<open>simp add: partition_of_def high_watermark_def\<close>)
qed simp

definition demo_segment :: string where
  "demo_segment = ''ns/1/streams/1/0/00000000000000000000-B.seg''"

definition demo_swap :: outcome where
  "demo_swap = swap_segment demo_committed (StreamId 1) 0 [(0, demo_wal), (3, demo_wal)] demo_segment
     \<lparr>br_start = 0, br_end = 20\<rparr> 0 None 0 \<lparr>fr_created_at_ms = 0, fr_max_age_ms = 10\<rparr>"

lemma demo_committed_streams: "StreamId 1 \<in> dom (bm_get (streams demo_committed))" "clock_ms demo_committed = 0"
  by (simp_all add: demo_committed_def demo_defs limit_defs demo_wal_def demo_chunks_def commit_simps)

lemma demo_swap_ok:
  "snd demo_swap = Inr SegmentSwapped" "\<not> swap_retry demo_committed (StreamId 1) 0 [(0, demo_wal), (3, demo_wal)] demo_segment"
  using demo_committed_part demo_committed_streams(1,2)
  by (simp_all add: demo_swap_def swap_segment_def swap_retry_def validate_key_def demo_segment_def limit_defs
      partition_state_def partition_state_mut_def partition_of_def demo_part_def bm_singleton_def chunk_entry_def
      demo_chunk_def check_fence_opt_def expired_at_def sat_add64_def end_offset_def wadd64_def checked_add32_def Let_def
      split: prod.split)

theorem swap_segment_reads_witness:
  "\<exists>st'. partition_of (fst demo_swap) (StreamId 1) 0 = Some st' \<and> log_start_offset st' = 0 \<and> high_watermark st' = 5"
proof -
  have eq: "swap_segment demo_committed (StreamId 1) 0 [(0, demo_wal), (3, demo_wal)] demo_segment
     \<lparr>br_start = 0, br_end = 20\<rparr> 0 None 0 \<lparr>fr_created_at_ms = 0, fr_max_age_ms = 10\<rparr> = (fst demo_swap, Inr SegmentSwapped)"
    using demo_swap_ok(1) by (simp add: demo_swap_def prod_eq_iff)
  from swap_segment_reads [OF demo_committed_reachable demo_swap_ok(2) eq] obtain st st' where
    "partition_of demo_committed (StreamId 1) 0 = Some st" "partition_of (fst demo_swap) (StreamId 1) 0 = Some st'"
    "log_start_offset st' = log_start_offset st" "high_watermark st' = high_watermark st" by (elim exE conjE) (rule that)
  then show ?thesis using demo_committed_part by (simp add: demo_part_def high_watermark_def)
qed

text \<open>
  C26. A trim moves the log start forward only, never past the high watermark, and changes no
  other read: offsets below the new log start are gone, all others read as before.
\<close>

theorem trim_partition_reads:
  assumes reach: "reachable ct n s"
    and trim: "trim_partition s sid p off f now = (s', Inr (Trimmed start))"
  shows "\<exists>st st'. partition_of s sid p = Some st \<and> partition_of s' sid p = Some st'
    \<and> start = max (log_start_offset st) (min off (high_watermark st))
    \<and> log_start_offset st' = start \<and> high_watermark st' = high_watermark st
    \<and> (\<forall>o'. lookup st' o' = (if o' < start then None else lookup st o'))"
  using trim
proof (cases rule: trim_partition_cases)
  case (trimmed st st1 removed)
  let ?b = "min off (next_offset st)"
  let ?st' = "st1\<lparr>log_start_offset := max (log_start_offset st1) ?b\<rparr>"
  have inv: "part_inv st" by (rule reachable_part_inv [OF reach trimmed(2)])
  note T = trim_inv [OF inv _ trimmed(4), simplified]
  obtain gone rest where g: "bm_iter (index st) = gone @ rest" "bm_iter (index st1) = rest"
    "\<forall>(b, e) \<in> set gone. b + e_records e \<le> ?b"
    using T(2) by auto
  have start: "start = max (log_start_offset st) ?b" using trimmed(5) T(4) by simp
  have look: "lookup ?st' o' = (if o' < start then None else lookup st o')" for o'
  proof (cases "o' < start")
    case True
    then show ?thesis using start T(4) by (simp add: lookup_def)
  next
    case False
    have "lookup ?st' o' = Some e \<longleftrightarrow> lookup st o' = Some e" for e
    proof -
      have "bm_get (index st) k = Some e \<and> o' < k + e_records e \<longleftrightarrow> bm_get (index st1) k = Some e \<and> o' < k + e_records e" for k
        using g False start by (force simp: bm_iter_get [symmetric])
      then show ?thesis using lookup_Some_iff [OF T(1)] lookup_Some_iff [OF inv] False start T(4) by auto
    qed
    then show ?thesis using False by (metis not_Some_eq)
  qed
  have "partition_of s' sid p = Some ?st'" using trimmed(6) by (simp add: partition_of_def put_partition_def)
  then show ?thesis using trimmed(2) start T(3,4) look by (auto simp: partition_of_def high_watermark_def)
qed simp

theorem trim_partition_reads_witness:
  "\<exists>st'. partition_of (fst (trim_partition demo_committed (StreamId 1) 0 9 None 0)) (StreamId 1) 0 = Some st'
     \<and> log_start_offset st' = 5"
proof -
  have inv: "part_inv demo_part"
    using reachable_part_inv [OF demo_committed_reachable] demo_committed_part by (simp add: partition_of_def)
  have num: "next_offset demo_part = 5" "log_start_offset demo_part = 0" by (simp_all add: demo_part_def)
  have "log_start_offset st' = 0" if "pop_all_before demo_part 5 = (st', es)" for st' es
    using trim_inv(4) [OF inv _ that] num by simp
  then have "snd (trim_partition demo_committed (StreamId 1) 0 9 None 0) = Inr (Trimmed 5)"
    using demo_committed_part demo_committed_streams(1,2) num
    by (simp add: trim_partition_def partition_state_def partition_state_mut_def partition_of_def
        check_fence_opt_def Let_def split: prod.split)
  then have eq: "trim_partition demo_committed (StreamId 1) 0 9 None 0
    = (fst (trim_partition demo_committed (StreamId 1) 0 9 None 0), Inr (Trimmed 5))" by (simp add: prod_eq_iff)
  from trim_partition_reads [OF demo_committed_reachable eq] show ?thesis by blast
qed

section \<open>Objects\<close>

text \<open>
  An object is unread when no index entry of any partition refers to it. Only the commit of the
  object, or a swap that puts it in, changes that.
\<close>

definition unread :: "MetaState \<Rightarrow> string \<Rightarrow> bool" where
  "unread s obj \<longleftrightarrow> (\<forall>key st. bm_get (partitions s) key = Some st \<longrightarrow> obj \<notin> e_object ` set (entries st))"

fun swaps_in :: "string \<Rightarrow> Command \<Rightarrow> bool" where
  "swaps_in obj (SwapSegment sid p rs seg rng ts f now fr) \<longleftrightarrow> seg = obj"
| "swaps_in obj _ \<longleftrightarrow> False"

lemma unread_refs: "unread s obj \<longleftrightarrow> (\<forall>k. ref_count s k obj = 0)"
  using ref_count_pos [of s _ obj] by (fastforce simp: unread_def entries_def ran_def)

lemma unread_frame: "unread s obj \<Longrightarrow> partitions s' = partitions s \<Longrightarrow> unread s' obj"
  by (simp add: unread_def)

lemma unread_put:
  assumes "unread s obj" "partitions s' = bm_insert key st' (partitions s)" "obj \<notin> e_object ` set (entries st')"
  shows "unread s' obj"
  using assms by (auto simp: unread_def split: if_splits)

lemma unread_fewer:
  assumes "unread s obj"
    "\<And>key st. bm_get (partitions s') key = Some st \<Longrightarrow> bm_get (partitions s) key = Some st \<or> st = PartitionState_default"
  shows "unread s' obj"
  using assms by (fastforce simp: unread_def PartitionState_default_def entries_def)

lemma commit_wal_unread:
  assumes "commit_wal s o' t cs = (s', r)" "parts_inv s" "offsets_fit s cs" "unread s obj" "o' \<noteq> obj"
  shows "unread s' obj"
  using assms(1)
proof (cases rule: commit_wal_cases)
  case (committed s1 bases)
  have pos: "\<forall>c \<in> set cs. 0 < ch_records c" using committed(5) by simp
  have "unread s1 obj" using commit_chunks_inv [OF committed(6) assms(2,3) pos] assms(4,5) by (simp add: unread_refs)
  then show ?thesis by (rule unread_frame) (simp add: committed(9))
qed (use assms(4) in simp_all)

lemma swap_segment_unread:
  assumes "swap_segment s sid p rs seg rng ts f now fr = (s', r)" "parts_inv s" "unread s obj"
    "seg \<noteq> obj \<or> swap_retry s sid p rs seg"
  shows "unread s' obj"
  using assms(1)
proof (cases rule: swap_segment_cases)
  case (swapped st b o' rs' records st2 removed)
  let ?seg = "\<lparr>e_kind = Segment, e_base_offset = b, e_records = records, e_object = seg,
    e_byte_range = rng, e_max_timestamp_ms = ts\<rparr>"
  have st: "part_inv st" using assms(2) swapped(4) by (rule parts_invD)
  obtain pre gap post where gap: "bm_iter (index st) = pre @ gap @ post"
    "bm_iter (index (insert_entry st2 ?seg)) = pre @ (b, ?seg) # post"
    using swap_partition(4) [OF st swapped(2,8,9), of ?seg] by auto
  have "e_kind e = Wal" if "bm_get (index st) b = Some e" for e
    using swapped(2,8) that by (auto simp: check_Inr_iff split: if_splits)
  then have "seg \<noteq> obj" using assms(4) swapped(2,4) by (auto simp: swap_retry_def split: option.splits)
  moreover have "obj \<notin> e_object ` set (entries st)" using assms(3) swapped(4) unfolding unread_def by blast
  ultimately have "obj \<notin> e_object ` set (entries (insert_entry st2 ?seg))"
    using gap by (simp add: entries_def bm_values_def image_Un)
  then show ?thesis by (rule unread_put [OF assms(3), rotated]) (simp add: swapped(10) put_partition_def)
qed (use assms(3) in simp_all)

lemma trim_partition_unread:
  assumes "trim_partition s sid p off f now = (s', r)" "parts_inv s" "unread s obj"
  shows "unread s' obj"
  using assms(1)
proof (cases rule: trim_partition_cases)
  case (trimmed st st1 removed)
  have st: "part_inv st" using assms(2) trimmed(2) by (rule parts_invD)
  obtain gone rest where "bm_iter (index st) = gone @ rest" "bm_iter (index st1) = rest"
    using trim_inv(2) [OF st _ trimmed(4)] by auto
  moreover have "obj \<notin> e_object ` set (entries st)" using assms(3) trimmed(2) unfolding unread_def by blast
  ultimately have "obj \<notin> e_object ` set (entries (st1\<lparr>log_start_offset := o'\<rparr>))" for o'
    by (simp add: entries_def bm_values_def image_Un)
  then show ?thesis by (intro unread_put [OF assms(3)]) (simp_all add: trimmed(6) put_partition_def)
qed (use assms(3) in simp_all)

lemma drop_collection_unread:
  assumes "drop_collection s ns name now = (s', r)" "cat_inv s" "unread s obj"
  shows "unread s' obj"
  using assms(1,2)
proof (cases rule: drop_collection_cases)
  case (dropped cid c st l s5)
  show ?thesis using assms(3)
    by (rule unread_fewer) (metis dropped_fields(20) [OF dropped(9,4,10)] option.distinct(1) prod.collapse)
qed (use assms(3) in \<open>simp add: unread_def\<close>)

lemma create_unread:
  assumes "counters_le n s" "n < U64_MAX" "unread s obj"
  shows "create_stream s ns name p cl rt = (s', r) \<Longrightarrow> unread s' obj"
    "create_collection s ns name sc p = (s', r) \<Longrightarrow> cat_inv s \<Longrightarrow> unread s' obj"
proof -
  have b: "last_collection_id s < U64_MAX" "last_stream_id s < U64_MAX" "last_link_id s < U64_MAX"
    using assms(1,2) by (simp_all add: counters_le_def)
  have ins: "unread s' obj" if "partitions s' = insert_partitions (partitions s) sid p" for sid
    by (rule unread_fewer [OF assms(3)]) (auto simp: that insert_partitions_get split: if_splits)
  show "create_stream s ns name p cl rt = (s', r) \<Longrightarrow> unread s' obj"
    by (erule create_stream_cases [OF _ b(2)]) (use assms(3) ins in simp_all)
  show "create_collection s ns name sc p = (s', r) \<Longrightarrow> cat_inv s \<Longrightarrow> unread s' obj"
    by (erule create_collection_eq [OF _ _ b]) (use assms(3) ins in simp_all)
qed

lemma apply_unread:
  assumes app: "apply_command s c = (s', r)" and reach: "reachable ct n s" and n: "n < U64_MAX" and ok: "cmd_ok ct s c"
    and unread: "unread s obj" and swap: "is_segment_path obj \<longrightarrow> \<not> swaps_in obj c"
    and set: "is_wal_path obj \<longrightarrow> settled ct obj bases s"
  shows "unread s' obj"
proof (cases "writes_log c")
  case False
  then show ?thesis using apply_log [OF app] by (intro unread_frame [OF unread]) (simp add: same_log_def)
next
  case True
  have inv: "parts_inv s" "cat_inv s" "counters_le n s" using reachable_inv [OF reach] by (simp_all add: log_inv_def)
  have com: "unread s' obj" if "commit_wal s o' t cs = (s', r)" "c = CommitWal o' t cs" for o' t cs
  proof (cases "o' = obj")
    case True
    then show ?thesis using commit_settled [of s obj t cs s' r ct bases] that ok set unread by simp
  qed (use commit_wal_unread [OF that(1) inv(1) _ unread] ok that(2) in simp)
  have sw: "unread s' obj" if "swap_segment s sid p rs seg rng ts f now fr = (s', r)"
    "c = SwapSegment sid p rs seg rng ts f now fr" for sid p rs seg rng ts f now fr
    by (rule swap_segment_unread [OF that(1) inv(1) unread]) (use ok swap that(2) in \<open>auto simp: segment_fresh_def\<close>)
  have pr: "unread s' obj" if "prune_wal_commits s f now = (s', r)" for f now
    by (rule unread_frame [OF unread]) (use that in \<open>auto simp: prune_wal_commits_def Let_def elim!: attemptE\<close>)
  have fo: "unread s' obj" if "forget_objects s objs f = (s', r)" for objs f
    by (rule unread_frame [OF unread]) (use that in \<open>auto simp: forget_objects_def elim!: attemptE split: prod.splits\<close>)
  show ?thesis using True app com sw pr fo trim_partition_unread [OF _ inv(1) unread]
      drop_collection_unread [OF _ inv(2) unread] create_unread(1) [OF inv(3) n unread]
      create_unread(2) [OF inv(3) n unread _ inv(2)]
    by (cases c) auto
qed

lemma run_unread:
  assumes "reachable ct n s" "run_ok ct s cmds" "n + length cmds \<le> U64_MAX" "unread s obj"
    "is_segment_path obj \<longrightarrow> (\<forall>c \<in> set cmds. \<not> swaps_in obj c)" "is_wal_path obj \<longrightarrow> settled ct obj bases s"
  shows "unread (run s cmds) obj"
  using assms
proof (induction cmds arbitrary: n s)
  case (Cons c cmds)
  obtain s' r where app: "apply_command s c = (s', r)" by fastforce
  have "unread s' obj" by (rule apply_unread [OF app Cons.prems(1)]) (use Cons.prems in auto)
  moreover have "is_wal_path obj \<longrightarrow> settled ct obj bases s'"
    using apply_settled [OF app reachable_inv(2) [OF Cons.prems(1)]] Cons.prems(2,6) by auto
  moreover have "reachable ct (Suc n) s'" using reachable.step [OF Cons.prems(1), of c] Cons.prems(2,3) app by simp
  ultimately show ?case using Cons.IH [of "Suc n" s'] Cons.prems(2,3,5) app by simp
qed simp

text \<open>A retired object is unread, and a retired WAL object cannot be committed again.\<close>

lemma retired_settled:
  assumes "reachable ct n s" "is_retired s obj"
  obtains bases where "unread s obj" "is_wal_path obj \<longrightarrow> settled ct obj bases s"
proof -
  have obj: "obj_ok ct (ref_count s) (wal_live_chunks s) (retired s) (wal_commits s) (clock_ms s)"
    using reachable_inv(1) [OF assms(1)] by (simp add: log_inv_def obj_inv_def)
  obtain t where t: "bm_get (retired s) obj = Some t" using assms(2) by (auto simp: is_retired_def)
  have un: "unread s obj" using obj_okD(5) [OF obj t] by (simp add: unread_refs)
  show ?thesis
  proof (cases "bm_get (wal_commits s) obj")
    case None
    then show ?thesis using that [OF un] obj_okD(6) [OF obj] t by (auto simp: settled_def)
  next
    case (Some wr)
    then have "wr = \<lparr>w_base_offsets = w_base_offsets wr, w_created_at_ms = ct obj\<rparr>" using obj_okD(7) [OF obj Some] by simp
    then show ?thesis using that [OF un, of "w_base_offsets wr"] Some by (simp add: settled_def)
  qed
qed

text \<open>
  C6. Garbage collection may delete what it was handed: from the moment an object is retired, and
  through every later admissible command, no index entry of any partition names it and no lookup
  returns it. That holds for a WAL object also after its path was forgotten, whatever commits
  and retries arrive. A compacted segment could come back only if, after the path was forgotten,
  a new segment were written to the same path, so for a segment no later swap puts that path in.
\<close>

theorem retired_unread:
  assumes "reachable ct n s" "is_retired s obj" and "run_ok ct s cmds" "n + length cmds \<le> U64_MAX"
    and "is_segment_path obj \<longrightarrow> (\<forall>c \<in> set cmds. \<not> swaps_in obj c)" and st: "partition_of (run s cmds) sid p = Some st"
  shows "obj \<notin> e_object ` set (entries st) \<and> map_option e_object (lookup st off) \<noteq> Some obj"
proof -
  have un: "unread (run s cmds) obj" using assms(1,2) by (rule retired_settled) (rule run_unread [OF assms(1,3,4) _ assms(5)])
  have inv: "part_inv st"
    using reachable_part_inv [OF run_reachable [OF assms(1,3,4)]] st unfolding partition_of_def by blast
  have "obj \<notin> e_object ` set (entries st)" using un st unfolding unread_def partition_of_def by blast
  then show ?thesis using lookup_Some_iff [OF inv] by (fastforce simp: entries_def ran_def)
qed

text \<open>One chunk committed and trimmed away: its object is retired.\<close>

definition demo_gone :: "Command list" where
  "demo_gone = [CommitWal demo_wal 0 [demo_chunk 0 3], TrimPartition (StreamId 1) 0 3 None 0]"

lemma pop_all_before_eval:
  "pop_first_before st off = (st', Some e) \<Longrightarrow> pop_all_before st off = (let (st'', es) = pop_all_before st' off in (st'', e # es))"
  "pop_first_before st off = (st', None) \<Longrightarrow> pop_all_before st off = (st', [])"
  by (simp_all add: pop_all_before.simps [of st])

lemmas pop_simps = pop_all_before_eval pop_first_before_def remove_entry_def bm_first_def bm_insert.rep_eq
  bm_iter_remove trim_partition_def partition_state_def partition_state_mut_def check_fence_opt_def release_entry_def

definition demo_one :: MetaState where
  "demo_one = run demo_state [CommitWal demo_wal 0 [demo_chunk 0 3]]"

lemma demo_one_reachable: "reachable (\<lambda>_. 0) 3 demo_one"
proof -
  have "next_offset st = 0" if "bm_get (partitions demo_state) key = Some st" for key st
    using that by (auto simp: demo_state_def PartitionState_default_def MetaState_default_def split: if_splits)
  then have "offsets_fit demo_state [demo_chunk 0 3]"
    by (intro offsets_fitI) (auto simp: records_for_def demo_chunk_def U64_MAX_def)
  then have "run_ok (\<lambda>_. 0) demo_state [CommitWal demo_wal 0 [demo_chunk 0 3]]" by (simp add: is_wal_path_def demo_wal_def)
  from run_reachable [OF demo_reachable this] show ?thesis by (simp add: demo_one_def U64_MAX_def)
qed

lemma demo_gone_reachable: "reachable (\<lambda>_. 0) 4 (run demo_state demo_gone)"
  using reachable.step [OF demo_one_reachable, of "TrimPartition (StreamId 1) 0 3 None 0"]
  by (simp add: demo_one_def demo_gone_def U64_MAX_def)

lemma demo_gone_state:
  "is_retired (run demo_state demo_gone) demo_wal"
  "\<exists>st. partition_of (run demo_state demo_gone) (StreamId 1) 0 = Some st"
  by (simp_all add: demo_gone_def is_retired_def partition_of_def demo_defs limit_defs demo_wal_def commit_simps pop_simps
      end_offset_def)

definition demo_after :: "Command list" where
  "demo_after = [ForgetObjects [demo_wal] None, CommitWal demo_wal 0 [demo_chunk 0 3]]"

lemma demo_after_ok: "run_ok (\<lambda>_. 0) (run demo_state demo_gone) demo_after"
proof -
  let ?s = "fst (forget_objects (run demo_state demo_gone) [demo_wal] None)"
  have "next_offset st \<le> 3" if "bm_get (partitions ?s) key = Some st" for key st
    using that by (auto simp: forget_objects_def demo_gone_def demo_defs limit_defs demo_wal_def commit_simps pop_simps
        end_offset_def split: if_splits)
  then have "offsets_fit ?s [demo_chunk 0 3]"
    by (intro offsets_fitI) (fastforce simp: records_for_def demo_chunk_def U64_MAX_def)
  then show ?thesis by (simp add: demo_after_def is_wal_path_def demo_wal_def)
qed

lemma demo_after_state:
  "\<not> is_retired (run (run demo_state demo_gone) demo_after) demo_wal"
  "\<exists>st. partition_of (run (run demo_state demo_gone) demo_after) (StreamId 1) 0 = Some st \<and> next_offset st = 3"
  by (simp_all add: demo_after_def forget_objects_def demo_gone_def is_retired_def partition_of_def demo_defs limit_defs
      demo_wal_def commit_simps pop_simps end_offset_def)

theorem retired_unread_witness:
  "\<not> is_retired (run (run demo_state demo_gone) demo_after) demo_wal
   \<and> (\<exists>st. partition_of (run (run demo_state demo_gone) demo_after) (StreamId 1) 0 = Some st
       \<and> next_offset st = 3 \<and> demo_wal \<notin> e_object ` set (entries st))"
proof -
  have c: "4 + length demo_after \<le> U64_MAX" "is_segment_path demo_wal \<longrightarrow> (\<forall>c \<in> set demo_after. \<not> swaps_in demo_wal c)"
    by (simp_all add: demo_after_def U64_MAX_def)
  note R = retired_unread [OF demo_gone_reachable demo_gone_state(1) demo_after_ok c]
  show ?thesis using demo_after_state R by blast
qed

text \<open>
  An object is tracked while it has live chunks or is retired; only forgetting a retired
  object ends that.
\<close>

definition tracked :: "MetaState \<Rightarrow> string \<Rightarrow> bool" where
  "tracked s obj \<longleftrightarrow> bm_get (wal_live_chunks s) obj \<noteq> None \<or> bm_get (retired s) obj \<noteq> None"

lemma release_entry_tracked: "tracked s obj \<Longrightarrow> tracked (release_entry s e) obj"
  by (auto simp: tracked_def release_entry_def Let_def split: EntryKind.splits option.splits if_splits)

lemma release_entries_tracked: "tracked s obj \<Longrightarrow> tracked (release_entries s es) obj"
  by (induction s es rule: release_entries.induct) (simp_all add: release_entry_tracked)

lemma tracked_update [simp]:
  "tracked (s\<lparr>clock_ms := c\<rparr>) obj = tracked s obj" "tracked (s\<lparr>partitions := m\<rparr>) obj = tracked s obj"
  "tracked (s\<lparr>streams := st\<rparr>) obj = tracked s obj" "tracked (s\<lparr>stream_names := sn\<rparr>) obj = tracked s obj"
  "tracked (s\<lparr>idempotency := i\<rparr>) obj = tracked s obj"
  by (simp_all add: tracked_def)

lemma remove_partitions_tracked: "tracked s obj \<Longrightarrow> tracked (remove_partitions s sid ps) obj"
proof (induction s sid ps rule: remove_partitions.induct)
  case (2 s sid p ps)
  then show ?case by (cases "bm_get (partitions s) (sid, p)") (simp_all add: release_entries_tracked)
qed simp

lemma remove_stream_tracked: "tracked s obj \<Longrightarrow> tracked (remove_stream s sid) obj"
  by (simp add: remove_stream_def drop_stream_idempotency_def remove_partitions_tracked split: option.split)

lemma drop_collection_tracked:
  assumes "drop_collection s ns name now = (s', r)" "cat_inv s" "tracked s obj"
  shows "tracked s' obj"
  using assms(1,2)
proof (cases rule: drop_collection_cases)
  case absent
  then show ?thesis using assms(3) by simp
next
  case (dropped cid c st l s5)
  have "wal_live_chunks s5 = wal_live_chunks s" "retired s5 = retired s"
    using forget_member_core [of "dropped_row s ns name now cid" cid] dropped(9) by (simp_all add: core_defs dropped_row_def)
  then have "tracked (remove_stream (s5\<lparr>collection_hot := bm_remove cid (collection_hot s5)\<rparr>) (c_stream c)) obj"
    using assms(3) by (intro remove_stream_tracked) (simp add: tracked_def)
  then show ?thesis unfolding dropped(10) Let_def by (auto simp: tracked_def)
qed

lemma apply_tracked:
  assumes "apply_command s c = (s', r)" "cat_inv s" "tracked s obj" "\<forall>objs f. c \<noteq> ForgetObjects objs f"
  shows "tracked s' obj"
proof (cases "writes_log c")
  case False
  then show ?thesis using apply_log [OF assms(1)] assms(3) by (simp add: same_log_def tracked_def)
next
  case True
  have com: "tracked s' obj" if "commit_wal s o' t cs = (s', r)" for o' t cs
    using that by (rule commit_wal_cases) (use assms(3) in \<open>auto simp: tracked_def\<close>)
  have sw: "tracked s' obj" if "swap_segment s sid p rs seg rng ts f now fr = (s', r)" for sid p rs seg rng ts f now fr
    using that by (rule swap_segment_cases) (use assms(3) in \<open>simp_all add: release_entries_tracked put_partition_def\<close>)
  have tr: "tracked s' obj" if "trim_partition s sid p off f now = (s', r)" for sid p off f now
    using that by (rule trim_partition_cases) (use assms(3) in \<open>simp_all add: release_entries_tracked put_partition_def\<close>)
  have pr: "tracked s' obj" if "prune_wal_commits s f now = (s', r)" for f now
    using that assms(3) by (auto simp: prune_wal_commits_def Let_def tracked_def elim!: attemptE)
  have cr: "tracked s' obj" if "same_objects s s'" using that assms(3) by (simp add: tracked_def same_objects_def)
  have dr: "tracked s' obj" if "drop_collection s ns name now = (s', r)" for ns name now
    by (rule drop_collection_tracked [OF that assms(2,3)])
  show ?thesis using True assms(1,4) com sw tr pr dr cr [OF create_stream_objects] cr [OF create_collection_objects]
    by (cases c) auto
qed

text \<open>
  C7. No WAL object leaks: whatever command takes the last live chunk of an object, that
  command also retires the object, so garbage collection gets to see it.
\<close>

theorem last_chunk_retires:
  assumes "reachable ct n s" "live_chunks_of s obj = Some k"
    and "live_chunks_of (fst (apply_command s c)) obj = None"
  shows "is_retired (fst (apply_command s c)) obj"
proof (cases "\<exists>objs f. c = ForgetObjects objs f")
  case True
  then obtain objs f where c: "c = ForgetObjects objs f" by blast
  obtain s' r where app: "forget_objects s objs f = (s', r)" by fastforce
  then have "wal_live_chunks s' = wal_live_chunks s" using forget_objects_same by blast
  then show ?thesis using assms(2,3) c app by (simp add: live_chunks_of_def)
next
  case False
  obtain s' r where app: "apply_command s c = (s', r)" by fastforce
  have "tracked s obj" using assms(2) by (simp add: tracked_def live_chunks_of_def)
  then have "tracked s' obj"
    by (rule apply_tracked [OF app reachable_inv(2) [OF assms(1)]]) (use False in blast)
  then show ?thesis using assms(3) app by (auto simp: tracked_def live_chunks_of_def is_retired_def)
qed

theorem last_chunk_retires_witness:
  "is_retired (fst (apply_command demo_one (TrimPartition (StreamId 1) 0 3 None 0))) demo_wal"
proof (rule last_chunk_retires [OF demo_one_reachable, where k = 1])
  show "live_chunks_of demo_one demo_wal = Some 1"
    "live_chunks_of (fst (apply_command demo_one (TrimPartition (StreamId 1) 0 3 None 0))) demo_wal = None"
    by (simp_all add: demo_one_def live_chunks_of_def demo_defs limit_defs demo_wal_def commit_simps pop_simps end_offset_def)
qed

end
