(* ===== verification/Examples.thy ===== *)
theory Examples
  imports Reach
begin

text \<open>
  Concrete states of the examples: the demonstration namespace with a collection \<open>docs\<close> of
  two partitions, and with the collection dropped again.
\<close>

definition demo_schema :: CollectionSchema where
  "demo_schema = \<lparr>sc_version = 1, sc_fields = [], sc_vectors = [], sc_sparse_vectors = [], sc_dynamic = DynStrict,
     sc_max_fields = 10, sc_annotations = bm_empty\<rparr>"

definition demo_create :: outcome where
  "demo_create = create_collection demo_state (NamespaceId 1) ''docs'' demo_schema 2"

definition demo_collected :: MetaState where
  "demo_collected = fst demo_create"

definition demo_drop :: outcome where
  "demo_drop = drop_collection demo_collected (NamespaceId 1) ''docs'' 0"

lemma demo_schema_valid: "validate demo_schema = Inr ()" "sc_version demo_schema = 1"
  by (simp_all add: validate_def demo_schema_def MAX_MAX_FIELDS_def member_count_def EXTRA_ANNOTATIONS_def bm_len_def)

lemma demo_create_result: "snd demo_create = Inr (CollectionCreated (CollectionId 1) (StreamId 2) (LinkId 1))"
  using demo_schema_valid
  by (simp add: demo_create_def create_collection_def check_schema_def demo_defs limit_defs validate_name_def
      is_name_byte_def refuse_reserved_def check_partitions_def wadd64_def insert_stream_def insert_link_def Let_def
      MAX_COLLECTION_NAME_LEN_def)

lemma demo_create_eq:
  "create_collection demo_state (NamespaceId 1) ''docs'' demo_schema 2
     = (demo_collected, Inr (CollectionCreated (CollectionId 1) (StreamId 2) (LinkId 1)))"
  using demo_create_result by (simp add: demo_create_def demo_collected_def prod_eq_iff)

lemma demo_collected_reachable: "reachable ct 3 demo_collected"
  using reachable.step [OF demo_reachable, of ct "CreateCollection (NamespaceId 1) ''docs'' demo_schema 2"] demo_create_eq
  by (simp add: U64_MAX_def numeral_3_eq_3 numeral_2_eq_2)

lemma demo_state_counters: "last_collection_id demo_state = 0" "last_stream_id demo_state = 1" "last_link_id demo_state = 0"
  by (simp_all add: demo_defs)

lemma demo_collected_fields:
  "bm_get (collection_names demo_collected) (NamespaceId 1, ''docs'') = Some (CollectionId 1)"
  "bm_get (collections demo_collected) (CollectionId 1) = Some \<lparr>c_id = CollectionId 1, c_namespace = NamespaceId 1,
     c_name = ''docs'', c_schema = demo_schema, c_partitions = 2, c_stream = StreamId 2, c_link = LinkId 1\<rparr>"
  "clock_ms demo_collected = 0"
  "namespaces demo_collected = namespaces demo_state" "aliases demo_collected = bm_empty" "alias_targets demo_collected = bm_empty"
  "bm_get (collection_names demo_collected) (NamespaceId 1, ''all'') = None"
proof -
  have inv: "cat_inv demo_state" by (rule reachable_inv(2) [OF demo_reachable])
  have lt: "last_collection_id demo_state < U64_MAX" "last_stream_id demo_state < U64_MAX" "last_link_id demo_state < U64_MAX"
    by (simp_all add: demo_state_counters U64_MAX_def)
  have "bm_get (collection_names demo_collected) (NamespaceId 1, ''docs'') = Some (CollectionId 1)
    \<and> bm_get (collections demo_collected) (CollectionId 1) = Some \<lparr>c_id = CollectionId 1, c_namespace = NamespaceId 1,
     c_name = ''docs'', c_schema = demo_schema, c_partitions = 2, c_stream = StreamId 2, c_link = LinkId 1\<rparr>
    \<and> clock_ms demo_collected = 0 \<and> namespaces demo_collected = namespaces demo_state
    \<and> aliases demo_collected = bm_empty \<and> alias_targets demo_collected = bm_empty \<and> bm_get (collection_names demo_collected) (NamespaceId 1, ''all'') = None"
    using demo_create_eq inv lt
  proof (cases rule: create_collection_eq)
    case (created cid sid lid)
    show ?thesis unfolding created(13)
      by (simp add: created(9-11) demo_state_counters) (simp add: demo_state_def MetaState_default_def)
  qed simp
  then show "bm_get (collection_names demo_collected) (NamespaceId 1, ''docs'') = Some (CollectionId 1)"
    "bm_get (collections demo_collected) (CollectionId 1) = Some \<lparr>c_id = CollectionId 1, c_namespace = NamespaceId 1,
     c_name = ''docs'', c_schema = demo_schema, c_partitions = 2, c_stream = StreamId 2, c_link = LinkId 1\<rparr>"
    "clock_ms demo_collected = 0" "namespaces demo_collected = namespaces demo_state"
    "aliases demo_collected = bm_empty" "alias_targets demo_collected = bm_empty"
    "bm_get (collection_names demo_collected) (NamespaceId 1, ''all'') = None" by simp_all
qed

lemma demo_drop_eq:
  "drop_collection demo_collected (NamespaceId 1) ''docs'' 0 = (fst demo_drop, Inr (CollectionDropped (Some (CollectionId 1))))"
  using demo_collected_fields by (simp add: demo_drop_def drop_collection_def Let_def)

end
