(* ===== verification/LeaseProps.thy ===== *)
theory LeaseProps
  imports Examples
begin

text \<open>
  What leases, fences and pointers promise over whole logs of commands: one owner per
  epoch, a live lease stays with its owner, a fence that was overtaken never works again,
  and a compare-and-swap is never applied twice from the same version.
\<close>

section \<open>Leases\<close>

interpretation lease_order: stable ct "leases_le s0" for ct s0
proof unfold_locales
  fix n s c assume a: "reachable ct n s" "n < U64_MAX" "leases_le s0 s"
  obtain s' r where app: "apply_command s c = (s', r)" by fastforce
  have "leases_le s s'" using apply_leases_le [OF app reachable_inv(4) [OF a(1)] a(2)] by simp
  then show "leases_le s0 (fst (apply_command s c))" using leases_le_trans [OF a(3)] app by simp
qed

lemma leases_leD: "leases_le s s' \<Longrightarrow> lease_of s k = Some l \<Longrightarrow> \<exists>l'. lease_of s' k = Some l' \<and> lease_le l l'"
  by (simp add: leases_le_def lease_of_def)

text \<open>
  C8. One owner per epoch: if a lease had an owner at some epoch, then in every later state in
  which the lease is still at that epoch, it has the same owner or was released by it.
\<close>

theorem lease_one_owner_per_epoch:
  assumes "reachable ct n s" "run_ok ct s cmds" "n + length cmds \<le> U64_MAX"
    and "lease_of s k = Some l" "lease_of (run s cmds) k = Some l'" "le_epoch l' = le_epoch l"
  shows "le_owner l' = le_owner l \<or> le_owner l' = None"
  using leases_leD [OF lease_order.along [OF assms(1-3), of s] assms(4)] assms(5,6) by (auto simp: lease_le_def)

text \<open>The examples: \<open>w1\<close> takes the lease \<open>gc\<close>; once it has expired, \<open>w2\<close> takes it over.\<close>

definition demo_lease :: Command where
  "demo_lease = AcquireLease ''gc'' ''w1'' 100 0"

definition demo_takeover :: Command where
  "demo_takeover = AcquireLease ''gc'' ''w2'' 100 100"

definition demo_leased :: MetaState where
  "demo_leased = run demo_state [demo_lease]"

lemmas lease_simps = acquire_lease_def validate_lease_args_def validate_key_def sat_add64_def wadd64_def Let_def
  is_held_at_def lease_of_def

lemma demo_leased_reachable: "reachable (\<lambda>_. 0) 3 demo_leased"
  using run_reachable [OF demo_reachable, of _ "[demo_lease]"] by (simp add: demo_leased_def demo_lease_def U64_MAX_def)

lemma demo_leased_lease:
  "lease_of demo_leased ''gc'' = Some \<lparr>le_epoch = 1, le_owner = Some ''w1'', le_deadline_ms = 100\<rparr>"
  by (simp add: demo_leased_def demo_lease_def demo_defs limit_defs lease_simps)

lemma demo_takeover_lease:
  "lease_of (run demo_leased [demo_takeover]) ''gc'' = Some \<lparr>le_epoch = 2, le_owner = Some ''w2'', le_deadline_ms = 200\<rparr>"
  "lease_of (run demo_leased [RenewLease ''gc'' ''w1'' 1 100 50]) ''gc''
     = Some \<lparr>le_epoch = 1, le_owner = Some ''w1'', le_deadline_ms = 150\<rparr>"
  by (simp_all add: demo_leased_def demo_lease_def demo_takeover_def demo_defs limit_defs lease_simps renew_lease_def)

theorem lease_one_owner_per_epoch_witness:
  "\<exists>l'. lease_of (run demo_leased [RenewLease ''gc'' ''w1'' 1 100 50]) ''gc'' = Some l'
     \<and> (le_owner l' = Some ''w1'' \<or> le_owner l' = None)"
proof (intro exI conjI)
  show "lease_of (run demo_leased [RenewLease ''gc'' ''w1'' 1 100 50]) ''gc''
     = Some \<lparr>le_epoch = 1, le_owner = Some ''w1'', le_deadline_ms = 150\<rparr>" by (fact demo_takeover_lease(2))
  show "le_owner \<lparr>le_epoch = 1, le_owner = Some ''w1'', le_deadline_ms = 150\<rparr> = Some ''w1''
     \<or> le_owner \<lparr>le_epoch = 1, le_owner = Some ''w1'', le_deadline_ms = 150\<rparr> = None"
    using lease_one_owner_per_epoch [OF demo_leased_reachable _ _ demo_leased_lease demo_takeover_lease(2)]
    by (simp add: U64_MAX_def)
qed

text \<open>A command of \<open>owner\<close> on the lease \<open>k\<close>.\<close>

fun lease_command_by :: "string \<Rightarrow> string \<Rightarrow> Command \<Rightarrow> bool" where
  "lease_command_by k w (AcquireLease key owner ttl now) \<longleftrightarrow> key = k \<and> owner = w"
| "lease_command_by k w (RenewLease key owner epoch ttl now) \<longleftrightarrow> key = k \<and> owner = w"
| "lease_command_by k w (ReacquireLease key owner epoch ttl now) \<longleftrightarrow> key = k \<and> owner = w"
| "lease_command_by k w (ReleaseLease key owner epoch) \<longleftrightarrow> key = k \<and> owner = w"
| "lease_command_by k w _ \<longleftrightarrow> False"

lemma apply_lease_kept:
  assumes app: "apply_command s c = (s', r)" and l: "lease_of s k = Some l" "le_owner l = Some a"
    and time: "clock_ms s' < le_deadline_ms l" and other: "\<not> lease_command_by k a c"
  shows "lease_of s' k = Some l"
proof (cases "writes_leases c")
  case False
  then show ?thesis using apply_leases [OF app] l by (simp add: lease_of_def)
next
  case True
  have acq: "lease_of s' k = Some l" if "acquire_lease s key w ttl now = (s', r)" "key \<noteq> k \<or> w \<noteq> a" for key w ttl now
    using that(1)
  proof (cases rule: acquire_lease_cases)
    case (granted l')
    show ?thesis
    proof (cases "key = k")
      case True
      then have "w \<noteq> a" using that(2) by simp
      moreover have "is_held_at l (max (clock_ms s) now)" using l(2) time granted(1) by (simp add: is_held_at_def)
      ultimately show ?thesis using granted(5) l True by (simp add: lease_of_def)
    next
      case False
      then show ?thesis using granted(1) l by (simp add: lease_of_def)
    qed
  qed (use l in simp)
  have ren: "lease_of s' k = Some l" if "renew_lease s key w ep ttl now = (s', r)" "key \<noteq> k \<or> w \<noteq> a" for key w ep ttl now
    using that l by (auto simp: renew_lease_def Let_def lease_of_def elim!: attemptE split: option.splits if_splits)
  have rea: "lease_of s' k = Some l" if "reacquire_lease s key w ep ttl now = (s', r)" "key \<noteq> k \<or> w \<noteq> a" for key w ep ttl now
    using that l by (auto simp: reacquire_lease_def Let_def lease_of_def elim!: attemptE split: option.splits if_splits)
  have rel: "lease_of s' k = Some l" if "release_lease s key w ep = (s', r)" "key \<noteq> k \<or> w \<noteq> a" for key w ep
    using that l by (auto simp: release_lease_def lease_of_def split: option.splits if_splits)
  show ?thesis using True app other acq ren rea rel by (cases c) auto
qed

text \<open>
  C9. Mutual exclusion: as long as the clock has not reached a lease's deadline and its owner
  sends no lease command itself, the lease stays exactly as it is, whatever the others do.
\<close>

theorem lease_kept_until_deadline:
  assumes "lease_of s k = Some l" "le_owner l = Some a"
    and "clock_ms (run s cmds) < le_deadline_ms l" "list_all (\<lambda>c. \<not> lease_command_by k a c) cmds"
  shows "lease_of (run s cmds) k = Some l"
  using assms
proof (induction cmds arbitrary: s)
  case (Cons c cmds)
  obtain s' r where app: "apply_command s c = (s', r)" by fastforce
  have "clock_ms s' \<le> clock_ms (run s' cmds)" by (rule run_clock_le)
  then have "lease_of s' k = Some l"
    using apply_lease_kept [OF app Cons.prems(1,2)] Cons.prems(3,4) app by simp
  then show ?case using Cons.IH [of s'] Cons.prems app by simp
qed simp

theorem lease_kept_until_deadline_witness:
  "lease_of (run demo_leased [AcquireLease ''gc'' ''w2'' 100 50]) ''gc''
     = Some \<lparr>le_epoch = 1, le_owner = Some ''w1'', le_deadline_ms = 100\<rparr>"
  by (rule lease_kept_until_deadline [OF demo_leased_lease, where a = "''w1''"])
    (simp_all add: demo_leased_def demo_lease_def demo_defs limit_defs lease_simps)

section \<open>Fences\<close>

fun fence_of :: "Command \<Rightarrow> Fence option" where
  "fence_of (SwapSegment sid p rs seg rng ts f now fr) = f"
| "fence_of (TrimPartition sid p off f now) = f"
| "fence_of (PruneWalCommits f now) = f"
| "fence_of (ForgetObjects objs f) = f"
| "fence_of (CasPointer ns key ex v f fr) = f"
| "fence_of (PruneIdempotencyKeys f now) = f"
| "fence_of _ = None"

lemma fenced_command:
  assumes "fence_of c = Some f" "bm_get (leases s) (f_lease f) = Some l" "le_epoch l \<noteq> f_epoch f"
  shows "fst (apply_command s c) = s"
  using assms swap.stale_epoch [OF assms(2,3)] trim.stale_epoch [OF assms(2,3)] prune.stale_epoch [OF assms(2,3)]
    forget.stale_epoch [OF assms(2,3)] cas.stale_epoch [OF assms(2,3)] prune_keys.stale_epoch [OF assms(2,3)]
  by (cases c) simp_all

text \<open>
  C10. A deposed worker can do no more harm: once a lease has moved past the epoch of a fence,
  no command that carries the fence changes the state, now or after any later commands.
\<close>

theorem stale_fence_has_no_effect:
  assumes "reachable ct n s" "run_ok ct s cmds" "n + length cmds \<le> U64_MAX"
    and "lease_of s (f_lease f) = Some l" "f_epoch f < le_epoch l" "fence_of c = Some f"
  shows "fst (apply_command (run s cmds) c) = run s cmds"
proof -
  obtain l' where "lease_of (run s cmds) (f_lease f) = Some l'" "lease_le l l'"
    using leases_leD [OF lease_order.along [OF assms(1-3), of s] assms(4)] by auto
  then show ?thesis using assms(5) by (intro fenced_command [OF assms(6), where l = l']) (auto simp: lease_of_def lease_le_def)
qed

theorem stale_fence_has_no_effect_witness:
  "fst (apply_command (run (run demo_leased [demo_takeover]) [])
      (TrimPartition (StreamId 1) 0 5 (Some \<lparr>f_lease = ''gc'', f_epoch = 1\<rparr>) 0))
     = run (run demo_leased [demo_takeover]) []"
proof (rule stale_fence_has_no_effect)
  show "reachable (\<lambda>_. 0) 4 (run demo_leased [demo_takeover])"
    using run_reachable [OF demo_leased_reachable, of "[demo_takeover]"] by (simp add: demo_takeover_def U64_MAX_def)
  show "lease_of (run demo_leased [demo_takeover]) (f_lease \<lparr>f_lease = ''gc'', f_epoch = 1\<rparr>)
    = Some \<lparr>le_epoch = 2, le_owner = Some ''w2'', le_deadline_ms = 200\<rparr>"
    using demo_takeover_lease(1) by simp
qed (simp_all add: U64_MAX_def)

section \<open>Pointers\<close>

text \<open>Most operations write neither pointers nor collections.\<close>

named_theorems op_refs \<open>operations that write neither pointers nor collections\<close>

definition same_refs :: "MetaState \<Rightarrow> MetaState \<Rightarrow> bool" where
  "same_refs s s' \<longleftrightarrow> pointers s' = pointers s \<and> collections s' = collections s"

lemma same_refs_refl [simp]: "same_refs s s"
  by (simp add: same_refs_def)

lemma create_namespace_refs [op_refs]: "create_namespace s n = (s', r) \<Longrightarrow> same_refs s s'"
  by (auto simp: create_namespace_def Let_def same_refs_def elim!: attemptE split: option.splits)

lemma insert_refs: "same_refs s (fst (insert_stream s ns n p cl rt))" "same_refs s (fst (insert_link s ns n src tg opts))"
  by (simp_all add: insert_stream_def insert_link_def Let_def same_refs_def)

lemma insert_stream_refs: "insert_stream s ns n p cl rt = (s', sid) \<Longrightarrow> same_refs s s'"
  using insert_refs(1) [of s ns n p cl rt] by simp

lemma insert_link_refs: "insert_link s ns n src tg opts = (s', lid) \<Longrightarrow> same_refs s s'"
  using insert_refs(2) [of s ns n src tg opts] by simp

lemma create_stream_refs [op_refs]: "create_stream s ns n p cl rt = (s', r) \<Longrightarrow> same_refs s s'"
  by (auto simp: create_stream_def elim!: attemptE dest: insert_stream_refs split: option.splits if_splits prod.splits)

lemma create_link_refs [op_refs]: "create_link s ns n src tg opts = (s', r) \<Longrightarrow> same_refs s s'"
  by (auto simp: create_link_def elim!: attemptE dest: insert_link_refs split: option.splits if_splits prod.splits)

lemma log_refs [op_refs]:
  "commit_wal s obj t cs = (s', r) \<Longrightarrow> same_refs s s'"
  "swap_segment s sid p rs seg rng ts f now fr = (s', r) \<Longrightarrow> same_refs s s'"
  "trim_partition s sid p off f now = (s', r) \<Longrightarrow> same_refs s s'"
  by (erule commit_wal_cases swap_segment_cases trim_partition_cases; simp add: put_partition_def same_refs_def)+

lemma maintenance_refs [op_refs]:
  "set_retention s sid rt = (s', r) \<Longrightarrow> same_refs s s'"
  "prune_wal_commits s f now = (s', r) \<Longrightarrow> same_refs s s'"
  "forget_objects s objs f = (s', r) \<Longrightarrow> same_refs s s'"
  "set_collection_hot s cid h = (s', r) \<Longrightarrow> same_refs s s'"
  by (auto simp: set_retention_def prune_wal_commits_def forget_objects_def set_collection_hot_def Let_def same_refs_def
      elim!: attemptE split: if_splits prod.splits)

lemma leases_only_refs: "s' = s\<lparr>clock_ms := clock_ms s', leases := leases s'\<rparr> \<Longrightarrow> same_refs s s'"
  by (erule ssubst) (simp add: same_refs_def)

lemmas lease_refs [op_refs] = lease_ops_only [THEN leases_only_refs]

lemma aliases_refs: "same_refs s (apply_alias_changes s ns cs)" "same_refs s (put_aliases s ns ws)"
proof -
  show "same_refs s (apply_alias_changes s ns cs)"
    by (induction s ns cs rule: apply_alias_changes.induct) (auto simp: Let_def same_refs_def split: option.splits)
  show "same_refs s (put_aliases s ns ws)"
    using put_aliases_same [of s ns ws] by (rule same_but_aliasesD) (simp add: same_refs_def)
qed

lemma update_alias_refs [op_refs]:
  "update_aliases s ns acts = (s', r) \<Longrightarrow> same_refs s s'"
  "update_alias_targets s ns tacts = (s', r) \<Longrightarrow> same_refs s s'"
  by (auto simp: update_aliases_def update_alias_targets_def aliases_refs elim!: attemptE split: if_splits)

lemma idempotency_refs [op_refs]:
  "claim_idempotency_keys s sid w ks ttl now = (s', r) \<Longrightarrow> same_refs s s'"
  "complete_idempotency_keys s sid w dn ttl now = (s', r) \<Longrightarrow> same_refs s s'"
  "release_idempotency_keys s sid w ks = (s', r) \<Longrightarrow> same_refs s s'"
  "prune_idempotency_keys s f now = (s', r) \<Longrightarrow> same_refs s s'"
  by (auto simp: idempotency_op_defs Let_def same_refs_def elim!: attemptE split: if_splits prod.splits)

text \<open>The four commands that do write them.\<close>

fun writes_refs :: "Command \<Rightarrow> bool" where
  "writes_refs (CasPointer _ _ _ _ _ _) = True"
| "writes_refs (CreateCollection _ _ _ _) = True"
| "writes_refs (DropCollection _ _ _) = True"
| "writes_refs (UpdateCollectionSchema _ _ _) = True"
| "writes_refs _ = False"

lemma apply_refs: "apply_command s c = (s', r) \<Longrightarrow> \<not> writes_refs c \<Longrightarrow> same_refs s s'"
  by (cases c) (simp_all, (erule op_refs)+)

lemma create_collection_pointers: "create_collection s ns n sc p = (s', r) \<Longrightarrow> pointers s' = pointers s"
  by (erule create_collection_cases) (auto simp: same_refs_def dest!: insert_stream_refs insert_link_refs)

lemma update_collection_schema_pointers:
  "update_collection_schema s cid ver sc = (s', r) \<Longrightarrow> pointers s' = pointers s"
  by (erule update_collection_schema_cases) simp_all

lemma create_namespace_last: "create_namespace s n = (s', r) \<Longrightarrow> last_collection_id s' = last_collection_id s"
  by (auto simp: create_namespace_def Let_def elim!: attemptE split: option.splits)

section \<open>Identifiers are not reused\<close>

text \<open>A collection identifier that was given out and is free again, or never will be taken.\<close>

definition collection_gone :: "CollectionId \<Rightarrow> MetaState \<Rightarrow> bool" where
  "collection_gone cid s \<longleftrightarrow> bm_get (collections s) cid = None \<and> coll_u64 cid \<le> last_collection_id s"

lemma apply_collection_gone:
  assumes app: "apply_command s c = (s', r)" and inv: "meta_inv ct n s" and n: "n < U64_MAX"
    and gone: "collection_gone cid s"
  shows "collection_gone cid s'"
proof -
  note D = meta_invD [OF inv] and lt = counters_lt [OF meta_invD(5) [OF inv] n]
  have create: ?thesis if "create_collection s ns name sc p = (s', r)" for ns name sc p
    using that D(2) lt(4,2,3) by (rule create_collection_eq) (use gone in \<open>auto simp: collection_gone_def\<close>)
  have sch: ?thesis if "update_collection_schema s i ver sc = (s', r)" for i ver sc
    using that by (rule update_collection_schema_cases) (use gone in \<open>auto simp: collection_gone_def\<close>)
  have cas: ?thesis if "cas_pointer s ns key ex v f fr = (s', r)" for ns key ex v f fr
    using that by (rule cas_pointer_cases) (use gone in \<open>auto simp: collection_gone_def\<close>)
  have drop: ?thesis if d: "drop_collection s ns name now = (s', r)" for ns name now
    using d D(2)
  proof (cases rule: drop_collection_cases)
    case absent
    then show ?thesis using gone by (simp add: collection_gone_def)
  next
    case (dropped i c' st l s5)
    note F = dropped_fields(6,10) [OF dropped(9,4,10)]
    show ?thesis using gone F by (simp add: collection_gone_def)
  qed
  show ?thesis
  proof (cases "writes_refs c")
    case True
    then show ?thesis using app create sch cas drop by (cases c) simp_all
  next
    case False
    have "last_collection_id s' = last_collection_id s"
      using False app apply_counters [OF app] D(2) lt
      by (cases "creates c") (cases c; auto simp: same_counters_def elim: create_stream_cases create_link_cases
          create_namespace_last)+
    then show ?thesis using gone apply_refs [OF app False] by (simp add: same_refs_def collection_gone_def)
  qed
qed

interpretation gone: stable ct "collection_gone cid" for ct cid
proof unfold_locales
  fix n s c assume "reachable ct n s" "n < U64_MAX" "collection_gone cid s"
  then show "collection_gone cid (fst (apply_command s c))"
    using apply_collection_gone reachable_meta_inv by (metis prod.collapse)
qed

lemma dropped_gone:
  assumes "drop_collection s ns name now = (s', Inr (CollectionDropped (Some cid)))" "cat_inv s"
  shows "collection_gone cid s'"
  using assms
proof (cases rule: drop_collection_cases)
  case (dropped i c st l s5)
  note F = dropped_fields(6,10) [OF dropped(9,4,10)]
  have "coll_u64 i \<le> last_collection_id s"
    using cot.row [OF cat_invD(4) [OF assms(2), unfolded colls_ok_def] dropped(1)] by simp
  then show ?thesis using F dropped(8) by (simp add: collection_gone_def)
qed simp

text \<open>
  C23. Identifiers are never reused: the identifier of a dropped collection stays free for good,
  so what still refers to it (segments, pointers, hot state) cannot be taken for another's.
\<close>

theorem collection_id_not_reused:
  assumes "reachable ct n s" "n < U64_MAX"
    and "drop_collection s ns name now = (s', Inr (CollectionDropped (Some cid)))"
    and "run_ok ct s' cmds" "n + 1 + length cmds \<le> U64_MAX"
  shows "collection (run s' cmds) cid = None"
proof -
  have "reachable ct (Suc n) s'"
    using reachable.step [OF assms(1,2), of "DropCollection ns name now"] assms(3) by simp
  then have "collection_gone cid (run s' cmds)"
    by (rule gone.along) (use assms dropped_gone [OF assms(3) reachable_inv(2) [OF assms(1)]] in simp_all)
  then show ?thesis by (simp add: collection_gone_def collection_def)
qed

theorem collection_id_not_reused_witness:
  "collection (run (fst demo_drop) [CreateCollection (NamespaceId 1) ''docs'' demo_schema 2]) (CollectionId 1) = None"
  using collection_id_not_reused [OF demo_collected_reachable [of "\<lambda>_. 0"] _ demo_drop_eq,
    of "[CreateCollection (NamespaceId 1) ''docs'' demo_schema 2]"]
  by (simp add: U64_MAX_def)

section \<open>Compare-and-swap\<close>

definition versions_le :: "nat \<Rightarrow> MetaState \<Rightarrow> bool" where
  "versions_le n s \<longleftrightarrow> (\<forall>k p. bm_get (pointers s) k = Some p \<longrightarrow> p_version p \<le> n)"

lemma drop_pointers:
  assumes "drop_collection s ns name now = (s', r)" "cat_inv s"
  shows "pointers s' = pointers s \<or> (\<exists>cid. r = Inr (CollectionDropped (Some cid))
    \<and> pointers s' = bm_remove (ns, collection_pointer_key cid) (pointers s))"
  using assms
proof (cases rule: drop_collection_cases)
  case (dropped i c st l s5)
  show ?thesis using dropped_fields(15) [OF dropped(9,4,10)] dropped(8) by auto
qed simp

lemma apply_versions_le:
  assumes app: "apply_command s c = (s', r)" and inv: "cat_inv s" and n: "n < U64_MAX" and le: "versions_le n s"
  shows "versions_le (Suc n) s'"
proof -
  have same: ?thesis if "pointers s' = pointers s" using that le by (auto simp: versions_le_def intro: le_SucI)
  have cas: ?thesis if "cas_pointer s ns key ex v f fr = (s', r)" for ns key ex v f fr
    using that
  proof (cases rule: cas_pointer_cases)
    case (set version)
    have "p_version p \<le> n" if "bm_get (pointers s) (ns, key) = Some p" for p using le that by (auto simp: versions_le_def)
    then have "version \<le> Suc n" using set(5) n by (auto simp: wadd64_exact split: option.splits)
    then show ?thesis using set(8) le by (auto simp: versions_le_def le_SucI)
  qed (use same in simp)
  have drop: ?thesis if "drop_collection s ns name now = (s', r)" for ns name now
    using drop_pointers [OF that inv] le by (auto simp: versions_le_def le_SucI split: if_splits)
  show ?thesis
  proof (cases "writes_refs c")
    case True
    then show ?thesis using app cas drop same create_collection_pointers update_collection_schema_pointers
      by (cases c) auto
  next
    case False
    then show ?thesis using same apply_refs [OF app] by (simp add: same_refs_def)
  qed
qed

lemma reachable_versions: "reachable ct n s \<Longrightarrow> versions_le n s"
proof (induction rule: reachable.induct)
  case (step n s c)
  then show ?case using apply_versions_le reachable_inv(2) by (metis prod.collapse)
qed (simp add: versions_le_def MetaState_default_def)

text \<open>A pointer has passed a version, or was dropped with its collection for good.\<close>

definition pointer_past :: "NamespaceId \<Rightarrow> string \<Rightarrow> u64 \<Rightarrow> MetaState \<Rightarrow> bool" where
  "pointer_past ns key ver s \<longleftrightarrow> (\<exists>p. bm_get (pointers s) (ns, key) = Some p \<and> ver \<le> p_version p)
     \<or> (\<exists>cid. key = collection_pointer_key cid \<and> collection_gone cid s)"

lemma gone_pointer_refused: "collection_gone cid s \<Longrightarrow> check_collection_pointer s ns (collection_pointer_key cid) \<noteq> Inr ()"
  by (cases cid) (auto simp: check_collection_pointer_def collection_gone_def parse_CollectionId_Inr
      split: sum.splits option.splits if_splits dest!: CollectionId.expand)

lemma apply_pointer_past:
  assumes app: "apply_command s c = (s', r)" and reach: "reachable ct n s" and n: "n < U64_MAX"
    and past: "pointer_past ns key ver s"
  shows "pointer_past ns key ver s'"
proof (cases "\<exists>cid. key = collection_pointer_key cid \<and> collection_gone cid s")
  case True
  then show ?thesis using apply_collection_gone [OF app reachable_meta_inv [OF reach] n] by (auto simp: pointer_past_def)
next
  case False
  then obtain p where p: "bm_get (pointers s) (ns, key) = Some p" "ver \<le> p_version p"
    using past by (auto simp: pointer_past_def)
  have inv: "cat_inv s" by (rule reachable_inv(2) [OF reach])
  have same: ?thesis if "pointers s' = pointers s" using that p by (simp add: pointer_past_def)
  have cas: ?thesis if "cas_pointer s ns' key' ex v f fr = (s', r)" for ns' key' ex v f fr
    using that
  proof (cases rule: cas_pointer_cases)
    case (set version)
    have "p_version p \<le> n" using reachable_versions [OF reach] p(1) by (auto simp: versions_le_def)
    then have "ver \<le> version" if "(ns', key') = (ns, key)" using set(5) p that n by (auto simp: wadd64_exact)
    then show ?thesis using set(8) p by (auto simp: pointer_past_def)
  qed (use same in simp)
  have drop: ?thesis if d: "drop_collection s ns' name now = (s', r)" for ns' name now
    using drop_pointers [OF d inv] p d dropped_gone [OF _ inv] by (auto simp: pointer_past_def)
  show ?thesis
  proof (cases "writes_refs c")
    case True
    then show ?thesis using app cas drop same create_collection_pointers update_collection_schema_pointers
      by (cases c) auto
  next
    case False
    then show ?thesis using same apply_refs [OF app] by (simp add: same_refs_def)
  qed
qed

interpretation past: stable ct "pointer_past ns key ver" for ct ns key ver
proof unfold_locales
  fix n s c assume "reachable ct n s" "n < U64_MAX" "pointer_past ns key ver s"
  then show "pointer_past ns key ver (fst (apply_command s c))"
    using apply_pointer_past by (metis prod.collapse)
qed

text \<open>
  C11. No lost update: after a compare-and-swap from a version was applied, no other
  compare-and-swap from that version is ever applied again, whatever happens in between,
  the drop of the collection the pointer belongs to included.
\<close>

theorem cas_applied_once:
  assumes reach: "reachable ct n s" and n: "n < U64_MAX"
    and cas: "cas_pointer s ns key ex v f fr = (s', Inr (PointerSet ver))"
    and later: "run_ok ct s' cmds" "n + 1 + length cmds \<le> U64_MAX"
  shows "fst (cas_pointer (run s' cmds) ns key ex v' f' fr') = run s' cmds
    \<and> (\<exists>e. snd (cas_pointer (run s' cmds) ns key ex v' f' fr') = Inl e)"
proof -
  have reach': "reachable ct (Suc n) s'"
    using reachable.step [OF reach n, of "CasPointer ns key ex v f fr"] cas by simp
  have bound: "p_version p \<le> n" if "bm_get (pointers s) (ns, key) = Some p" for p
    using reachable_versions [OF reach] that by (auto simp: versions_le_def)
  have first: "pointer_past ns key ver s' \<and> (case ex of None \<Rightarrow> True | Some e \<Rightarrow> e < ver)"
    using cas by (rule cas_pointer_cases)
      (use bound n in \<open>auto simp: pointer_past_def wadd64_exact split: option.splits\<close>)
  have past: "pointer_past ns key ver (run s' cmds)" by (rule past.along [OF reach']) (use later first in simp_all)
  obtain s2 r2 where eq: "cas_pointer (run s' cmds) ns key ex v' f' fr' = (s2, r2)" by fastforce
  then show ?thesis
  proof (cases rule: cas_pointer_cases)
    case (set version)
    then show ?thesis using past first gone_pointer_refused
      by (auto simp: pointer_past_def split: option.splits)
  qed (use eq in simp)
qed

definition demo_pointed :: MetaState where
  "demo_pointed = demo_state\<lparr>pointers := bm_singleton (NamespaceId 1, ''k'') \<lparr>p_version = 1, p_value = ''v''\<rparr>\<rparr>"

lemma demo_pointed_eq: "cas_pointer demo_state (NamespaceId 1) ''k'' None ''v'' None None = (demo_pointed, Inr (PointerSet 1))"
  by (simp add: demo_pointed_def demo_defs limit_defs cas_pointer_def validate_key_def check_collection_pointer_def Let_def
      strip_prefix_def COLLECTION_POINTER_PREFIX_def check_fence_opt_def)

theorem cas_applied_once_witness:
  "fst (cas_pointer (run demo_pointed [CreateNamespace ''beta'']) (NamespaceId 1) ''k'' None ''w'' None None) = run demo_pointed [CreateNamespace ''beta'']
    \<and> (\<exists>e. snd (cas_pointer (run demo_pointed [CreateNamespace ''beta'']) (NamespaceId 1) ''k'' None ''w'' None None) = Inl e)"
  using cas_applied_once [OF demo_reachable [of "\<lambda>_. 0"] _ demo_pointed_eq, of "[CreateNamespace ''beta'']" "''w''" None None]
  by (simp add: U64_MAX_def)

end
