(* ===== verification/CatalogProps.thy ===== *)
theory CatalogProps
  imports LeaseProps
begin

text \<open>
  What the catalog promises: streams and collections are found as they were created, schemas
  only grow, aliases refine a table of members per name, and a completed idempotency key
  replays its answer.
\<close>

section \<open>Creation\<close>

text \<open>
  C28. A created stream is found by its identifier and by its name, as it was asked for, with
  every partition present and empty; no other stream changes; and the same request again is
  answered with the identifier of the stream and changes nothing.
\<close>

theorem create_stream_found:
  assumes "reachable ct n s" "n < U64_MAX"
    and "create_stream s ns name parts class rt = (s', Inr (StreamCreated sid))"
  shows "stream s sid = None
    \<and> stream s' sid = Some \<lparr>s_id = sid, s_namespace = ns, s_name = name, s_partitions = parts, s_class = class, s_retention = rt\<rparr>
    \<and> stream_by_name s' ns name = stream s' sid
    \<and> (\<forall>p < parts. partition_of s' sid p = Some PartitionState_default)
    \<and> (\<forall>other. other \<noteq> sid \<longrightarrow> stream s' other = stream s other)
    \<and> create_stream s' ns name parts class rt = (s', Inl (StreamExists sid))"
proof -
  note inv = reachable_inv(2) [OF assms(1)] and lt = counters_lt [OF reachable_inv(5) [OF assms(1)] assms(2)]
  show ?thesis using assms(3) lt(2)
  proof (cases rule: create_stream_cases)
    case (created i)
    have i: "i = sid" using created(7) by simp
    have free: "bm_get (streams s) sid = None"
      using stt.fresh [OF cat_invD(2) [OF inv, unfolded streams_ok_def], of sid] created(1) i by simp
    have parts: "partition_of s' sid p = Some PartitionState_default" if "p < parts" for p
      using that by (simp add: created(8) i partition_of_def insert_partitions_get)
    have ok: "validate_name ''stream'' name = Inr ()" "refuse_reserved name = Inr ()" "check_partitions parts = Inr ()"
      using assms(3) by (auto simp: create_stream_def attempt_eq_Inr)
    have names: "bm_get (stream_names s') (ns, name) = Some sid" "ns \<in> dom (bm_get (namespaces s'))"
      using created(5) by (simp_all add: created(8) i)
    have again: "create_stream s' ns name parts class rt = (s', Inl (StreamExists sid))"
      unfolding create_stream_def ok using names by (simp add: domIff)
    show ?thesis using free parts again by (simp add: created(8) i stream_def stream_by_name_def)
  qed simp
qed

theorem create_stream_found_witness:
  "stream_by_name (fst (create_stream demo_state (NamespaceId 1) ''logs'' 1 Express Retention_default)) (NamespaceId 1) ''logs''
     = Some \<lparr>s_id = StreamId 2, s_namespace = NamespaceId 1, s_name = ''logs'', s_partitions = 1, s_class = Express,
         s_retention = Retention_default\<rparr>"
proof -
  have "create_stream demo_state (NamespaceId 1) ''logs'' 1 Express Retention_default
    = (fst (create_stream demo_state (NamespaceId 1) ''logs'' 1 Express Retention_default), Inr (StreamCreated (StreamId 2)))"
    by (simp add: create_stream_def demo_defs limit_defs insert_stream_def validate_name_def is_name_byte_def
        refuse_reserved_def check_partitions_def wadd64_def Let_def)
  from create_stream_found [OF demo_reachable [of "\<lambda>_. 0"] _ this] show ?thesis by (simp add: U64_MAX_def)
qed

section \<open>Schema evolution\<close>

text \<open>A later schema of the same collection: what it had is still there, and a version is one schema.\<close>

definition evolves :: "CollectionSchema \<Rightarrow> CollectionSchema \<Rightarrow> bool" where
  "evolves old new \<longleftrightarrow> prefix (sc_fields old) (sc_fields new) \<and> prefix (sc_vectors old) (sc_vectors new)
     \<and> sc_sparse_vectors new = sc_sparse_vectors old
     \<and> (new = old \<or> sc_version old < sc_version new)"

lemma evolves_refl [simp]: "evolves sc sc"
  by (simp add: evolves_def)

lemma evolves_step:
  "evolves old cur \<Longrightarrow> check_additive cur new = Inr () \<Longrightarrow> evolves old (new\<lparr>sc_version := sc_version cur + 1\<rparr>)"
  by (auto simp: evolves_def check_additive_Inr intro: prefix_order.trans)

definition schema_grows :: "CollectionId \<Rightarrow> CollectionSchema \<Rightarrow> MetaState \<Rightarrow> bool" where
  "schema_grows cid sc s \<longleftrightarrow> collection_gone cid s
     \<or> (\<exists>c. bm_get (collections s) cid = Some c \<and> evolves sc (c_schema c))"

lemma apply_schema_grows:
  assumes app: "apply_command s c = (s', r)" and inv: "meta_inv ct n s" and n: "n < U64_MAX"
    and grows: "schema_grows cid sc s"
  shows "schema_grows cid sc s'"
proof (cases "collection_gone cid s")
  case True
  then show ?thesis using apply_collection_gone [OF app inv n] by (simp add: schema_grows_def)
next
  case False
  then obtain c0 where c0: "bm_get (collections s) cid = Some c0" "evolves sc (c_schema c0)"
    using grows by (auto simp: schema_grows_def)
  note D = meta_invD [OF inv] and lt = counters_lt [OF meta_invD(5) [OF inv] n]
  have le: "coll_u64 cid \<le> last_collection_id s"
    using cot.row [OF cat_invD(4) [OF D(2), unfolded colls_ok_def] c0(1)] by simp
  have keep: ?thesis if "bm_get (collections s') cid = Some c0"
    using that c0(2) by (auto simp: schema_grows_def)
  have create: ?thesis if "create_collection s ns name sc' p = (s', r)" for ns name sc' p
    using that D(2) lt(4,2,3)
  proof (cases rule: create_collection_eq)
    case (created i j k)
    have "i \<noteq> cid" using created(9) le by auto
    then show ?thesis using c0(1) by (intro keep) (simp add: created(13))
  qed (use keep c0(1) in simp)
  have cas: ?thesis if "cas_pointer s ns key ex v f fr = (s', r)" for ns key ex v f fr
    using that by (rule cas_pointer_cases) (rule keep, simp add: c0(1))+
  have sch: ?thesis if "update_collection_schema s i ver sc' = (s', r)" for i ver sc'
    using that
  proof (cases rule: update_collection_schema_cases)
    case (updated c1)
    show ?thesis
    proof (cases "i = cid")
      case True
      then have "evolves sc (sc'\<lparr>sc_version := ver + 1\<rparr>)" using evolves_step [OF c0(2)] updated(1,3,4) c0(1) by simp
      then show ?thesis unfolding schema_grows_def by (simp add: updated(7) True)
    next
      case False
      then show ?thesis using c0(1) by (intro keep) (simp add: updated(7))
    qed
  qed (use keep c0(1) in simp_all)
  have drop: ?thesis if d: "drop_collection s ns name now = (s', r)" for ns name now
    using d D(2)
  proof (cases rule: drop_collection_cases)
    case absent
    then show ?thesis using keep c0(1) by simp
  next
    case (dropped i c' st l s5)
    note F = dropped_fields(6,10) [OF dropped(9,4,10)]
    show ?thesis using F c0 le by (cases "i = cid") (auto simp: schema_grows_def collection_gone_def)
  qed
  show ?thesis
  proof (cases "writes_refs c")
    case True
    then show ?thesis using app create sch cas drop by (cases c) simp_all
  next
    case False
    then show ?thesis using c0(1) apply_refs [OF app False] by (intro keep) (simp add: same_refs_def)
  qed
qed

interpretation growing: stable ct "schema_grows cid sc" for ct cid sc
proof unfold_locales
  fix n s c assume "reachable ct n s" "n < U64_MAX" "schema_grows cid sc s"
  then show "schema_grows cid sc (fst (apply_command s c))"
    using apply_schema_grows reachable_meta_inv by (metis prod.collapse)
qed

text \<open>
  C20. Schemas evolve by addition only: whatever commands are applied, a collection that still
  exists has every field and vector it had, at the same place and with the same
  specification, the same sparse vectors, and either the very same schema or a higher version.
\<close>

theorem schema_evolution_additive:
  assumes "reachable ct n s" "collection s cid = Some c" "run_ok ct s cmds" "n + length cmds \<le> U64_MAX"
    and later: "collection (run s cmds) cid = Some c'"
  shows "prefix (sc_fields (c_schema c)) (sc_fields (c_schema c'))
    \<and> prefix (sc_vectors (c_schema c)) (sc_vectors (c_schema c'))
    \<and> sc_sparse_vectors (c_schema c') = sc_sparse_vectors (c_schema c)
    \<and> (c_schema c' = c_schema c \<or> sc_version (c_schema c) < sc_version (c_schema c'))"
proof -
  have "schema_grows cid (c_schema c) (run s cmds)"
    by (rule growing.along [OF assms(1,3,4)]) (use assms(2) in \<open>simp add: schema_grows_def collection_def\<close>)
  then show ?thesis using later by (auto simp: schema_grows_def collection_gone_def collection_def evolves_def)
qed

definition demo_wider :: CollectionSchema where
  "demo_wider = demo_schema\<lparr>sc_fields := [\<lparr>fs_name = ''title'', fs_source_path = ''title'', fs_kind = KKeyword,
     fs_indexed = True, fs_fast = False, fs_ignore_malformed = False\<rparr>]\<rparr>"

definition demo_coll :: Collection where
  "demo_coll = \<lparr>c_id = CollectionId 1, c_namespace = NamespaceId 1, c_name = ''docs'', c_schema = demo_schema,
     c_partitions = 2, c_stream = StreamId 2, c_link = LinkId 1\<rparr>"

lemma demo_widened:
  "collection (run demo_collected [UpdateCollectionSchema (CollectionId 1) 1 demo_wider]) (CollectionId 1)
     = Some (demo_coll\<lparr>c_schema := demo_wider\<lparr>sc_version := 2\<rparr>\<rparr>)"
proof -
  have ok: "validate demo_wider = Inr ()"
    by (simp add: validate_def demo_wider_def demo_schema_def MAX_MAX_FIELDS_def member_count_def EXTRA_ANNOTATIONS_def
        bm_len_def FieldSpec_validate_def check_name_def MAX_SCHEMA_NAME_LEN_def Let_def suffix_def)
  have add: "check_additive demo_schema demo_wider = Inr ()"
    by (simp add: check_additive_Inr demo_wider_def demo_schema_def member_count_def)
  have diff: "\<not> same_ignoring_version demo_schema demo_wider"
    by (simp add: same_ignoring_version_def demo_wider_def demo_schema_def)
  have "update_collection_schema demo_collected (CollectionId 1) 1 demo_wider
    = (demo_collected\<lparr>collections := bm_insert (CollectionId 1) (demo_coll\<lparr>c_schema := demo_wider\<lparr>sc_version := 2\<rparr>\<rparr>)
         (collections demo_collected)\<rparr>, Inr (SchemaUpdated 2))"
    using ok add diff demo_collected_fields(2) demo_schema_valid
    by (simp add: update_collection_schema_def check_schema_def Let_def checked_add64_def U64_MAX_def demo_coll_def numeral_2_eq_2)
  then show ?thesis by (simp add: collection_def)
qed

theorem schema_evolution_additive_witness:
  "prefix (sc_fields demo_schema) (sc_fields demo_wider) \<and> sc_version demo_schema < 2"
  using schema_evolution_additive [OF demo_collected_reachable [of "\<lambda>_. 0"] _ _ _ demo_widened] demo_collected_fields(2)
    demo_schema_valid(2)
  by (simp add: collection_def U64_MAX_def demo_coll_def demo_wider_def)

section \<open>Aliases\<close>

text \<open>
  The abstract alias table of a namespace: for every name the collections it stands for, with
  their write flags. The two maps of the state represent it.
\<close>

type_synonym alias_table = "string \<Rightarrow> CollectionId \<rightharpoonup> bool option"

definition alias_view :: "MetaState \<Rightarrow> NamespaceId \<Rightarrow> alias_table" where
  "alias_view s ns a = bm_get (alias_members_of s ns a)"

fun alias_step :: "(string \<rightharpoonup> CollectionId) \<Rightarrow> AliasTargetAction \<Rightarrow> alias_table \<Rightarrow> alias_table" where
  "alias_step names (TargetAdd a c w) t = (case names c of Some cid \<Rightarrow> t(a := (t a)(cid \<mapsto> w)) | None \<Rightarrow> t)"
| "alias_step names (TargetRemove a c) t = (case names c of Some cid \<Rightarrow> t(a := (t a)(cid := None)) | None \<Rightarrow> t)"
| "alias_step names (TargetRemoveAlias a) t = t(a := Map.empty)"

definition working_view :: "MetaState \<Rightarrow> NamespaceId \<Rightarrow> working_aliases \<Rightarrow> alias_table" where
  "working_view s ns w a = (case bm_get w a of Some ms \<Rightarrow> bm_get ms | None \<Rightarrow> alias_view s ns a)"

lemma working_view_members:
  "working_view s ns (working_members s w ns a f) =
     (working_view s ns w)(a := bm_get (f (case bm_get w a of Some ms \<Rightarrow> ms | None \<Rightarrow> alias_members_of s ns a)))"
  by (auto simp: working_view_def working_members_def fun_eq_iff split: option.splits)

lemma working_view_ops:
  "working_view s ns (working_members s w ns a (bm_insert k v)) = (working_view s ns w)(a := (working_view s ns w a)(k \<mapsto> v))"
  "working_view s ns (working_members s w ns a (bm_remove k)) = (working_view s ns w)(a := (working_view s ns w a)(k := None))"
  "working_view s ns (working_members s w ns a (\<lambda>ms. ms)) = working_view s ns w"
  "working_view s ns (working_members s w ns a (\<lambda>_. bm_empty)) = (working_view s ns w)(a := Map.empty)"
  unfolding working_view_members
  by (simp_all add: working_view_def [of s ns w a] alias_view_def fun_upd_idem split: option.split)

lemma alias_target_changes_view:
  "alias_target_changes s ns acts w = Inr w' \<Longrightarrow>
     working_view s ns w' = fold (alias_step (\<lambda>c. bm_get (collection_names s) (ns, c))) acts (working_view s ns w)"
proof (induction s ns acts w rule: alias_target_changes.induct)
  case (2 s ns a c fl acts w)
  obtain cid where cid: "bm_get (collection_names s) (ns, c) = Some cid"
    "alias_target_changes s ns acts (working_members s w ns a (bm_insert cid fl)) = Inr w'"
    and ok: "validate_name ''alias'' a = Inr ()" "refuse_reserved a = Inr ()" "\<not> bm_contains (collection_names s) (ns, a)"
    using "2.prems" by (auto simp: check_Inr_iff split: if_splits option.splits)
  have "working_view s ns w' = fold (alias_step (\<lambda>c. bm_get (collection_names s) (ns, c))) acts
    (working_view s ns (working_members s w ns a (bm_insert cid fl)))"
    using "2.IH" [OF ok(3) cid(1,2)] .
  then show ?case unfolding working_view_ops using cid(1) by simp
next
  case (3 s ns a c acts w)
  show ?case
  proof (cases "bm_get (collection_names s) (ns, c)")
    case None
    then show ?thesis using 3 by (simp add: working_view_ops)
  next
    case (Some cid)
    have "working_view s ns w' = fold (alias_step (\<lambda>c. bm_get (collection_names s) (ns, c))) acts
      (working_view s ns (working_members s w ns a (bm_remove cid)))"
      using 3 Some by simp
    then show ?thesis unfolding working_view_ops using Some by simp
  qed
next
  case (4 s ns a acts w)
  have "working_view s ns w' = fold (alias_step (\<lambda>c. bm_get (collection_names s) (ns, c))) acts
    (working_view s ns (working_members s w ns a (\<lambda>_. bm_empty)))"
    using 4 by simp
  then show ?case unfolding working_view_ops by simp
qed simp

text \<open>
  C21. An accepted alias update is the sequential execution of its actions on the alias table
  of the namespace, although it is computed on a working copy and stored in two maps by the
  number of members; every other namespace keeps its aliases.
\<close>

theorem update_alias_targets_refines:
  assumes "update_alias_targets s ns acts = (s', Inr rep)"
  shows "alias_view s' ns' = (if ns' = ns
    then fold (alias_step (\<lambda>c. bm_get (collection_names s) (ns, c))) acts (alias_view s ns) else alias_view s ns')"
proof -
  obtain w where w: "alias_target_changes s ns acts bm_empty = Inr w" "s' = put_aliases s ns (bm_iter w)"
    using assms by (auto simp: update_alias_targets_def attempt_eq_Inr split: if_splits)
  have "working_view s ns w = fold (alias_step (\<lambda>c. bm_get (collection_names s) (ns, c))) acts (alias_view s ns)"
    using alias_target_changes_view [OF w(1)] by (simp add: working_view_def [abs_def])
  moreover have "alias_view s' ns' = (if ns' = ns then working_view s ns w else alias_view s ns')"
    by (rule ext) (simp add: w(2) alias_view_def put_aliases_members working_view_def bm_get_def [of w] split: option.splits)
  ultimately show ?thesis by simp
qed

theorem update_alias_targets_refines_witness:
  "alias_view (fst (update_alias_targets demo_collected (NamespaceId 1) [TargetAdd ''all'' ''docs'' (Some True)])) (NamespaceId 1) ''all''
     (CollectionId 1) = Some (Some True)"
proof -
  have ns: "bm_get (namespaces demo_state) (NamespaceId 1) \<noteq> None" by (simp add: demo_defs)
  have none: "alias_members_of demo_collected (NamespaceId 1) ''all'' = bm_empty"
    by (simp add: alias_members_of_def demo_collected_fields)
  have "alias_target_changes demo_collected (NamespaceId 1) [TargetAdd ''all'' ''docs'' (Some True)] bm_empty
    = Inr (bm_singleton ''all'' (bm_singleton (CollectionId 1) (Some True)))"
    using demo_collected_fields(1,7) none
    by (simp add: validate_name_def is_name_byte_def refuse_reserved_def limit_defs working_members_def bm_singleton_def domIff)
  then have "snd (update_alias_targets demo_collected (NamespaceId 1) [TargetAdd ''all'' ''docs'' (Some True)]) = Inr AliasesUpdated"
    using ns demo_collected_fields(2,4)
    by (simp add: update_alias_targets_def check_action_count_def MAX_ALIAS_ACTIONS_def check_working_def domIff
        bm_len_def MAX_ALIAS_TARGETS_def writers_def map_filter_simps)
  then have "update_alias_targets demo_collected (NamespaceId 1) [TargetAdd ''all'' ''docs'' (Some True)]
    = (fst (update_alias_targets demo_collected (NamespaceId 1) [TargetAdd ''all'' ''docs'' (Some True)]), Inr AliasesUpdated)"
    by (metis prod.collapse)
  from update_alias_targets_refines [OF this, of "NamespaceId 1"] show ?thesis
    by (simp add: demo_collected_fields(1) [simplified])
qed

text \<open>
  C22. Dropping a collection takes it out of every alias of every namespace and changes nothing
  else of the alias tables; its name, its identifier and its implicit stream are free
  of it afterwards.
\<close>

theorem drop_collection_unlinks:
  assumes "reachable ct n s" and "drop_collection s ns name now = (s', Inr (CollectionDropped (Some cid)))"
  shows "alias_view s' ns' a = (alias_view s ns' a)(cid := None)
    \<and> collection_by_name s' ns name = None \<and> collection s' cid = None
    \<and> (\<exists>c. collection s cid = Some c \<and> stream s' (c_stream c) = None \<and> link s' (c_link c) = None)"
  using assms(2) reachable_inv(2) [OF assms(1)]
proof (cases rule: drop_collection_cases)
  case (dropped i c st l s5)
  note F = dropped_fields [OF dropped(9,4,10)]
  have can: "alias_canonical (dropped_row s ns name now i)"
    using cat_invD(9) [OF reachable_inv(2) [OF assms(1)]] by (simp add: alias_inv_def alias_ok_def alias_canonical_def dropped_row_def)
  have "alias_view s' ns' a = bm_get (alias_members_of s5 ns' a)"
    unfolding alias_view_def by (simp add: alias_members_of_frame [OF F(17,18)])
  also have "\<dots> = (bm_get (alias_members_of (dropped_row s ns name now i) ns' a))(i := None)"
    unfolding dropped(9) by (subst forget_member_members) (use can in simp_all)
  also have "alias_members_of (dropped_row s ns name now i) = alias_members_of s"
    by (rule alias_members_of_frame) (simp_all add: dropped_row_def)
  finally have "alias_view s' ns' a = (alias_view s ns' a)(i := None)" unfolding alias_view_def .
  then show ?thesis using F(9-11,13) dropped(1,8)
    by (simp add: collection_by_name_def collection_def stream_def link_def)
qed simp

theorem drop_collection_unlinks_witness:
  "collection_by_name (fst demo_drop) (NamespaceId 1) ''docs'' = None \<and> collection (fst demo_drop) (CollectionId 1) = None"
  using drop_collection_unlinks [OF demo_collected_reachable [of "\<lambda>_. 0"] demo_drop_eq] by simp

section \<open>The idempotency ledger\<close>

text \<open>Most operations leave the ledger and the set of streams alone.\<close>

named_theorems op_ledger \<open>operations that write neither the ledger nor the set of streams\<close>

definition same_ledger :: "MetaState \<Rightarrow> MetaState \<Rightarrow> bool" where
  "same_ledger s s' \<longleftrightarrow> idempotency s' = idempotency s \<and> dom (bm_get (streams s')) = dom (bm_get (streams s))
     \<and> last_stream_id s' = last_stream_id s"

lemma same_ledger_refl [simp]: "same_ledger s s"
  by (simp add: same_ledger_def)

lemma create_namespace_ledger [op_ledger]: "create_namespace s n = (s', r) \<Longrightarrow> same_ledger s s'"
  by (auto simp: create_namespace_def Let_def same_ledger_def elim!: attemptE split: option.splits)

lemma insert_link_fst_ledger: "same_ledger s (fst (insert_link s ns n src tg opts))"
  by (simp add: insert_link_def Let_def same_ledger_def)

lemma insert_link_ledger: "insert_link s ns n src tg opts = (s', lid) \<Longrightarrow> same_ledger s s'"
  using insert_link_fst_ledger [of s ns n src tg opts] by simp

lemma create_link_ledger [op_ledger]: "create_link s ns n src tg opts = (s', r) \<Longrightarrow> same_ledger s s'"
  by (auto simp: create_link_def elim!: attemptE dest: insert_link_ledger split: option.splits if_splits prod.splits)

lemma log_ledger [op_ledger]:
  "commit_wal s obj t cs = (s', r) \<Longrightarrow> same_ledger s s'"
  "swap_segment s sid p rs seg rng ts f now fr = (s', r) \<Longrightarrow> same_ledger s s'"
  "trim_partition s sid p off f now = (s', r) \<Longrightarrow> same_ledger s s'"
  by (erule commit_wal_cases swap_segment_cases trim_partition_cases; simp add: put_partition_def same_ledger_def)+

lemma maintenance_ledger [op_ledger]:
  "set_retention s sid rt = (s', r) \<Longrightarrow> same_ledger s s'"
  "prune_wal_commits s f now = (s', r) \<Longrightarrow> same_ledger s s'"
  "forget_objects s objs f = (s', r) \<Longrightarrow> same_ledger s s'"
  "set_collection_hot s cid h = (s', r) \<Longrightarrow> same_ledger s s'"
  by (auto simp: set_retention_def prune_wal_commits_def forget_objects_def set_collection_hot_def Let_def same_ledger_def
      ok_or_def elim!: attemptE split: if_splits prod.splits option.splits)

lemma leases_only_ledger: "s' = s\<lparr>clock_ms := clock_ms s', leases := leases s'\<rparr> \<Longrightarrow> same_ledger s s'"
  by (erule ssubst) (simp add: same_ledger_def)

lemmas lease_ledger [op_ledger] = lease_ops_only [THEN leases_only_ledger]

lemma aliases_ledger: "same_ledger s (apply_alias_changes s ns cs)" "same_ledger s (put_aliases s ns ws)"
proof -
  show put: "same_ledger s (put_aliases s ns ws)" for ws
    using put_aliases_same [of s ns ws] by (rule same_but_aliasesD) (simp add: same_ledger_def)
  show "same_ledger s (apply_alias_changes s ns cs)" unfolding apply_alias_changes_eq by (rule put)
qed

lemma catalog_ledger [op_ledger]:
  "update_aliases s ns acts = (s', r) \<Longrightarrow> same_ledger s s'"
  "update_alias_targets s ns tacts = (s', r) \<Longrightarrow> same_ledger s s'"
  by (auto simp: update_aliases_def update_alias_targets_def aliases_ledger elim!: attemptE split: if_splits)

lemma update_collection_schema_ledger [op_ledger]: "update_collection_schema s cid ver sc = (s', r) \<Longrightarrow> same_ledger s s'"
  by (erule update_collection_schema_cases) (simp_all add: same_ledger_def)

lemma cas_pointer_ledger [op_ledger]: "cas_pointer s ns key ex v f fr = (s', r) \<Longrightarrow> same_ledger s s'"
  by (erule cas_pointer_cases) (simp_all add: same_ledger_def)

fun writes_ledger :: "Command \<Rightarrow> bool" where
  "writes_ledger (CreateStream _ _ _ _ _) = True"
| "writes_ledger (CreateCollection _ _ _ _) = True"
| "writes_ledger (DropCollection _ _ _) = True"
| "writes_ledger (ClaimIdempotencyKeys _ _ _ _ _) = True"
| "writes_ledger (CompleteIdempotencyKeys _ _ _ _ _) = True"
| "writes_ledger (ReleaseIdempotencyKeys _ _ _) = True"
| "writes_ledger (PruneIdempotencyKeys _ _) = True"
| "writes_ledger _ = False"

lemma apply_ledger: "apply_command s c = (s', r) \<Longrightarrow> \<not> writes_ledger c \<Longrightarrow> same_ledger s s'"
  by (cases c) (simp_all, (erule op_ledger)+)

text \<open>What a claim and a completion do to one key.\<close>

lemma claim_keys_done:
  "claim_keys m sid w now until keys = (m', sts) \<Longrightarrow> bm_get m (sid', key) = Some (EntryDone p off u) \<Longrightarrow> now < u \<Longrightarrow>
     bm_get m' (sid', key) = Some (EntryDone p off u)
     \<and> (sid' = sid \<longrightarrow> (\<forall>st. (key, st) \<in> set (zip keys sts) \<longrightarrow> st = Done p off))"
proof (induction m sid w now until keys arbitrary: m' sts rule: claim_keys.induct)
  case (2 m sid w now until k keys)
  define st where "st = claim_state (bm_get m (sid, k)) w now"
  define m1 where "m1 = (if st = Claimed then bm_insert (sid, k) (EntryPending w until) m else m)"
  obtain sts1 where rec: "claim_keys m1 sid w now until keys = (m', sts1)" and sts: "sts = st # sts1"
    using "2.prems"(1) by (auto simp: Let_def st_def m1_def split: prod.splits)
  have same: "st = Done p off" if "(sid, k) = (sid', key)" using that "2.prems"(2,3) by (simp add: st_def claim_state_def)
  have keep: "bm_get m1 (sid', key) = Some (EntryDone p off u)" using same "2.prems"(2) by (auto simp: m1_def)
  show ?case using "2.IH" [OF refl st_def m1_def rec keep "2.prems"(3)] same sts by auto
qed simp

lemma claim_keys_length: "claim_keys m sid w now until keys = (m', sts) \<Longrightarrow> length sts = length keys"
  by (induction m sid w now until keys arbitrary: m' sts rule: claim_keys.induct) (auto simp: Let_def split: prod.splits if_splits)

lemma complete_keys_done_kept:
  "bm_get m (sid', key) = Some (EntryDone p off u) \<Longrightarrow>
     bm_get (complete_keys m sid w until dn) (sid', key) = Some (EntryDone p off u)"
proof (induction m sid w until dn rule: complete_keys.induct)
  case (2 m sid w until k q o' dn)
  show ?case unfolding complete_keys.simps
    by (rule "2.IH") (use "2.prems" in \<open>auto split: option.split IdempotencyEntry.split\<close>)
qed simp

lemma complete_keys_done:
  "distinct (map fst dn) \<Longrightarrow> (key, p, off) \<in> set dn \<Longrightarrow> bm_get m (sid, key) = Some (EntryPending w u) \<Longrightarrow>
     bm_get (complete_keys m sid w until dn) (sid, key) = Some (EntryDone p off until)"
proof (induction m sid w until dn rule: complete_keys.induct)
  case (2 m sid w until k q o' dn)
  show ?case
  proof (cases "k = key")
    case True
    then have "q = p" "o' = off" using "2.prems"(1,2) by (force dest: in_set_zipE)+
    then show ?thesis using True "2.prems"(3) by (simp add: complete_keys_done_kept)
  next
    case False
    then show ?thesis using 2 by (auto split: option.splits IdempotencyEntry.splits)
  qed
qed simp

lemma release_keys_done_kept:
  "bm_get m (sid', key) = Some (EntryDone p off u) \<Longrightarrow>
     bm_get (release_keys m sid w keys) (sid', key) = Some (EntryDone p off u)"
proof (induction m sid w keys rule: release_keys.induct)
  case (2 m sid w k keys)
  show ?case unfolding release_keys.simps
    by (rule "2.IH") (use "2.prems" in \<open>auto split: option.split IdempotencyEntry.split\<close>)
qed simp

lemma refuse_repeats_distinct: "refuse_repeats keys = Inr u \<Longrightarrow> distinct keys"
proof -
  have "refuse_repeats_from seen keys = Inr u \<Longrightarrow> distinct keys \<and> set keys \<inter> seen = {}" for seen
    by (induction seen keys rule: refuse_repeats_from.induct) (auto split: if_splits)
  then show "refuse_repeats keys = Inr u \<Longrightarrow> distinct keys" by (simp add: refuse_repeats_def)
qed

text \<open>A completed key stays completed until its window closes or its stream is dropped.\<close>

definition key_done :: "StreamId \<Rightarrow> IdempotencyKey \<Rightarrow> u32 \<Rightarrow> u64 \<Rightarrow> u64 \<Rightarrow> MetaState \<Rightarrow> bool" where
  "key_done sid key p off u s \<longleftrightarrow> (sid \<notin> dom (bm_get (streams s)) \<and> stream_u64 sid \<le> last_stream_id s)
     \<or> u \<le> clock_ms s \<or> bm_get (idempotency s) (sid, key) = Some (EntryDone p off u)"

lemma create_key_done:
  assumes dn: "key_done sid key p off u s" and new: "new = StreamId (Suc (last_stream_id s))"
    and s': "streams s' = bm_insert new st (streams s)" "last_stream_id s' = Suc (last_stream_id s)"
      "idempotency s' = idempotency s" "clock_ms s' = clock_ms s"
  shows "key_done sid key p off u s'"
  using dn by (auto simp: key_done_def s' new)

lemma key_done_frame:
  assumes "key_done sid key p off u s" and "streams s' = streams s" "last_stream_id s' = last_stream_id s"
    and "clock_ms s \<le> clock_ms s'"
    and "clock_ms s' < u \<Longrightarrow> bm_get (idempotency s) (sid, key) = Some (EntryDone p off u) \<Longrightarrow>
      bm_get (idempotency s') (sid, key) = Some (EntryDone p off u)"
  shows "key_done sid key p off u s'"
  using assms(1,4,5) unfolding key_done_def assms(2,3) by (meson le_trans not_le)

lemma claim_key_done:
  assumes "claim_idempotency_keys s st w keys ttl now = (s', r)" "key_done sid key p off u s"
  shows "key_done sid key p off u s'"
proof (cases r)
  case (Inl e)
  then show ?thesis using assms claim_idempotency_keys_error by blast
next
  case (Inr rep)
  obtain m sts where m: "claim_keys (idempotency s) st w (max (clock_ms s) now) (sat_add64 (max (clock_ms s) now) ttl) keys = (m, sts)"
    by fastforce
  have s': "s' = s\<lparr>clock_ms := max (clock_ms s) now, idempotency := m\<rparr>"
    using assms(1) Inr m by (auto simp: claim_idempotency_keys_def attempt_eq_Inr split: if_splits)
  show ?thesis using claim_keys_done [OF m] by (intro key_done_frame [OF assms(2)]) (simp_all add: s')
qed

lemma complete_key_done:
  assumes "complete_idempotency_keys s st w dn win now = (s', r)" "key_done sid key p off u s"
  shows "key_done sid key p off u s'"
proof (cases r)
  case (Inl e)
  then show ?thesis using assms complete_idempotency_keys_error by blast
next
  case (Inr rep)
  have s': "s' = s\<lparr>clock_ms := max (clock_ms s) now,
      idempotency := complete_keys (idempotency s) st w (sat_add64 (max (clock_ms s) now) win) dn\<rparr>"
    using assms(1) Inr by (auto simp: complete_idempotency_keys_def attempt_eq_Inr Let_def)
  show ?thesis by (rule key_done_frame [OF assms(2)]) (simp_all add: s' complete_keys_done_kept)
qed

lemma release_key_done:
  assumes "release_idempotency_keys s st w keys = (s', r)" "key_done sid key p off u s"
  shows "key_done sid key p off u s'"
proof (cases r)
  case (Inl e)
  then show ?thesis using assms release_idempotency_keys_error by blast
next
  case (Inr rep)
  have s': "s' = s\<lparr>idempotency := release_keys (idempotency s) st w keys\<rparr>"
    using assms(1) Inr by (auto simp: release_idempotency_keys_def attempt_eq_Inr)
  show ?thesis by (rule key_done_frame [OF assms(2)]) (simp_all add: s' release_keys_done_kept)
qed

lemma prune_key_done:
  assumes "prune_idempotency_keys s f now = (s', r)" "key_done sid key p off u s"
  shows "key_done sid key p off u s'"
proof (cases r)
  case (Inl e)
  then show ?thesis using assms prune_idempotency_keys_error by blast
next
  case (Inr rep)
  have s': "s' = s\<lparr>clock_ms := max (clock_ms s) now,
      idempotency := bm_retain (\<lambda>_ e. is_live_at e (max (clock_ms s) now)) (idempotency s)\<rparr>"
    using assms(1) Inr by (auto simp: prune_idempotency_keys_def attempt_eq_Inr Let_def)
  show ?thesis by (rule key_done_frame [OF assms(2)]) (simp_all add: s' bm_get_retain is_live_at_def)
qed

lemma drop_key_done:
  assumes "drop_collection s ns name now = (s', r)" "cat_inv s" "key_done sid key p off u s"
  shows "key_done sid key p off u s'"
  using assms(1,2)
proof (cases rule: drop_collection_cases)
  case absent
  show ?thesis by (rule key_done_frame [OF assms(3)]) (simp_all add: absent(3))
next
  case (dropped i c st l s5)
  note F = dropped_fields(4,11,19) [OF dropped(9,4,10)]
  have "stream_u64 (c_stream c) \<le> last_stream_id s"
    using stt.row [OF cat_invD(2) [OF assms(2), unfolded streams_ok_def] dropped(4)] by simp
  moreover have "clock_ms s \<le> clock_ms s'" using assms(1) by (rule drop_collection_clock)
  ultimately show ?thesis using assms(3) by (auto simp: key_done_def F)
qed

lemma apply_key_done:
  assumes app: "apply_command s c = (s', r)" and inv: "meta_inv ct n s" and n: "n < U64_MAX"
    and dn: "key_done sid key p off u s"
  shows "key_done sid key p off u s'"
proof (cases "writes_ledger c")
  case False
  then show ?thesis using apply_ledger [OF app] dn apply_clock_le [OF app]
    by (auto simp: same_ledger_def key_done_def)
next
  case True
  note D = meta_invD [OF inv] and lt = counters_lt [OF meta_invD(5) [OF inv] n]
  have str: ?thesis if "create_stream s ns name parts cl rt = (s', r)" for ns name parts cl rt
    using that lt(2) by (rule create_stream_cases) (use dn in \<open>simp_all add: create_key_done [OF dn]\<close>)
  have col: ?thesis if "create_collection s ns name sc parts = (s', r)" for ns name sc parts
    using that D(2) lt(4,2,3) by (rule create_collection_eq) (use dn in \<open>simp_all add: create_key_done [OF dn]\<close>)
  show ?thesis using True app str col
    by (cases c) (auto intro: dn claim_key_done complete_key_done release_key_done prune_key_done drop_key_done D(2))
qed

interpretation done_keys: stable ct "key_done sid key p off u" for ct sid key p off u
proof unfold_locales
  fix n s c assume "reachable ct n s" "n < U64_MAX" "key_done sid key p off u s"
  then show "key_done sid key p off u (fst (apply_command s c))"
    using apply_key_done reachable_meta_inv by (metis prod.collapse)
qed

text \<open>
  C12. Exactly-once ingest: after a writer completes a key it holds, every later claim of
  that key, by whichever writer and after whatever commands, is answered with the partition
  and offset of the first write, until the window closes or the stream is dropped.
\<close>

theorem completed_key_replays:
  assumes reach: "reachable ct n s" and n: "n < U64_MAX"
    and held: "idempotency_entry s sid key = Some (EntryPending w u)"
    and comp: "complete_idempotency_keys s sid w dn window now = (s', Inr rep)" "(key, p, off) \<in> set dn"
    and later: "run_ok ct s' cmds" "n + 1 + length cmds \<le> U64_MAX" "stream (run s' cmds) sid \<noteq> None"
    and claim: "claim_idempotency_keys (run s' cmds) sid w' keys ttl now' = (s2, Inr (IdempotencyClaimed sts))"
    and window: "clock_ms s2 < sat_add64 (clock_ms s') window"
    and key: "i < length keys" "keys ! i = key"
  shows "sts ! i = Done p off"
proof -
  let ?u = "sat_add64 (clock_ms s') window"
  have reach': "reachable ct (Suc n) s'"
    using reachable.step [OF reach n, of "CompleteIdempotencyKeys sid w dn window now"] comp(1) by simp
  have "distinct (map fst dn)" using comp(1)
    by (auto simp: complete_idempotency_keys_def attempt_eq_Inr dest: refuse_repeats_distinct)
  then have "key_done sid key p off ?u s'"
    using comp held complete_keys_done [of dn key p off]
    by (auto simp: complete_idempotency_keys_def attempt_eq_Inr Let_def key_done_def idempotency_entry_def)
  then have dn: "key_done sid key p off ?u (run s' cmds)"
    by (intro done_keys.along [OF reach' later(1)]) (use later(2) in simp_all)
  have clock: "clock_ms (run s' cmds) \<le> clock_ms s2" using claim by (rule claim_idempotency_keys_clock)
  then have ent: "bm_get (idempotency (run s' cmds)) (sid, key) = Some (EntryDone p off ?u)"
    using dn later(3) window by (auto simp: key_done_def stream_def)
  have ck: "claim_keys (idempotency (run s' cmds)) sid w' (clock_ms s2) (sat_add64 (clock_ms s2) ttl) keys = (idempotency s2, sts)"
    using claim by (auto simp: claim_idempotency_keys_def attempt_eq_Inr Let_def split: if_splits prod.splits)
  have "(key, sts ! i) \<in> set (zip keys sts)" using key claim_keys_length [OF ck] by (force simp: set_zip)
  then show ?thesis using claim_keys_done [OF ck ent window] by blast
qed

definition demo_key :: IdempotencyKey where
  "demo_key = ''k1''"

definition demo_claimed :: MetaState where
  "demo_claimed = demo_state\<lparr>clock_ms := 10, idempotency := bm_singleton (StreamId 1, demo_key) (EntryPending ''w1'' 110)\<rparr>"

definition demo_completed :: MetaState where
  "demo_completed = demo_claimed\<lparr>clock_ms := 20, idempotency := bm_singleton (StreamId 1, demo_key) (EntryDone 0 7 1020)\<rparr>"

lemma bm_insert_twice: "bm_insert k v (bm_insert k u m) = bm_insert k v m"
  by (rule bm_eqI) simp

lemmas demo_ledger_defs = demo_claimed_def demo_completed_def demo_defs limit_defs claim_idempotency_keys_def
  complete_idempotency_keys_def bm_insert_twice validate_idempotency_args_def validate_key_def refuse_repeats_def claim_state_def
  MAX_IDEMPOTENCY_KEYS_def MAX_IDEMPOTENCY_TTL_MS_def sat_add64_def Let_def

lemma demo_claimed_eq:
  "claim_idempotency_keys demo_state (StreamId 1) ''w1'' [demo_key] 100 10 = (demo_claimed, Inr (IdempotencyClaimed [Claimed]))"
  by (simp add: demo_ledger_defs)

lemma demo_completed_eq:
  "complete_idempotency_keys demo_claimed (StreamId 1) ''w1'' [(demo_key, 0, 7)] 1000 20 = (demo_completed, Inr IdempotencyKeysUpdated)"
  by (simp add: demo_ledger_defs)

lemma demo_replayed_eq:
  "claim_idempotency_keys demo_completed (StreamId 1) ''w2'' [demo_key] 100 500
     = (demo_completed\<lparr>clock_ms := 500\<rparr>, Inr (IdempotencyClaimed [Done 0 7]))"
  by (simp add: demo_ledger_defs)

theorem completed_key_replays_witness:
  "\<exists>s2 sts. claim_idempotency_keys demo_completed (StreamId 1) ''w2'' [demo_key] 100 500 = (s2, Inr (IdempotencyClaimed sts))
     \<and> sts ! 0 = Done 0 7"
proof (intro exI conjI)
  have reach: "reachable (\<lambda>_. 0) 3 demo_claimed"
    using reachable.step [OF demo_reachable, of "\<lambda>_. 0" "ClaimIdempotencyKeys (StreamId 1) ''w1'' [demo_key] 100 10"] demo_claimed_eq
    by (simp add: U64_MAX_def numeral_3_eq_3 numeral_2_eq_2)
  have replay: "claim_idempotency_keys (run demo_completed []) (StreamId 1) ''w2'' [demo_key] 100 500
     = (demo_completed\<lparr>clock_ms := 500\<rparr>, Inr (IdempotencyClaimed [Done 0 7]))" using demo_replayed_eq by simp
  show "[Done 0 7] ! 0 = Done 0 7"
    by (rule completed_key_replays [OF reach _ _ demo_completed_eq _ _ _ _ replay])
      (simp_all add: U64_MAX_def demo_ledger_defs idempotency_entry_def stream_def)
  show "claim_idempotency_keys demo_completed (StreamId 1) ''w2'' [demo_key] 100 500
     = (demo_completed\<lparr>clock_ms := 500\<rparr>, Inr (IdempotencyClaimed [Done 0 7]))" by (rule demo_replayed_eq)
qed

section \<open>Scans and identifiers in text\<close>

text \<open>The strings with a given prefix are an interval of the order that starts at it.\<close>

lemma prefix_le_append: "p \<le> p @ (q :: string)"
  by (induction p) auto

lemma prefix_le: "prefix p k \<Longrightarrow> p \<le> (k :: string)"
  by (auto simp: prefix_def intro: prefix_le_append)

lemma prefix_interval: "p \<le> k \<Longrightarrow> k \<le> k' \<Longrightarrow> prefix p k' \<Longrightarrow> prefix p (k :: string)"
proof (induction p arbitrary: k k')
  case (Cons x p)
  obtain y ys where k: "k = y # ys" using Cons.prems(1) by (cases k) auto
  obtain ys' where k': "k' = x # ys'" "prefix p ys'" using Cons.prems(3) by (auto simp: prefix_def)
  have "x = y" "p \<le> ys" "ys \<le> ys'" using Cons.prems(1,2) k k'(1) by (auto simp: Cons_le_Cons split: if_splits)
  then show ?case using Cons.IH k k'(2) by simp
qed simp

lemma scan_prefix:
  assumes "sorted_wrt (<) (map fst xs)"
  shows "takeWhile (\<lambda>(k, _). prefix p k) (dropWhile (\<lambda>(k, _). k < (p :: string)) xs) = filter (\<lambda>(k, _). prefix p k) xs"
  using assms
proof (induction xs)
  case (Cons x xs)
  obtain k v where x: "x = (k, v)" by (cases x)
  have later: "k < k'" if "(k', v') \<in> set xs" for k' v' using Cons.prems that x by force
  show ?case
  proof (cases "k < p")
    case True
    then have "\<not> prefix p k" using prefix_le by force
    then show ?thesis using Cons True x by simp
  next
    case False
    have drop: "dropWhile (\<lambda>(k, _). k < p) xs = xs" using later False by (cases xs) force+
    show ?thesis
    proof (cases "prefix p k")
      case True
      then show ?thesis using Cons False drop x by simp
    next
      case np: False
      have "\<not> prefix p k'" if "(k', v') \<in> set xs" for k' v'
        using prefix_interval [of p k k'] later [OF that] False np by force
      then have "filter (\<lambda>(k, _). prefix p k) xs = []" by (auto simp: filter_empty_conv)
      then show ?thesis using False np x by simp
    qed
  qed
qed simp

text \<open>
  C29. The lease scan returns exactly the leases whose key starts with the prefix, in key
  order: the range scan that stops at the first other key misses none.
\<close>

theorem leases_with_prefix_exact:
  "leases_with_prefix s p = filter (\<lambda>(key, _). prefix p key) (bm_iter (leases s))"
  unfolding leases_with_prefix_def bm_range_from_def
  using bm_iter [of "leases s"] by (intro scan_prefix) (simp add: al_wf_def)

text \<open>
  C30. The text of a collection identifier parses back to it, and nothing else does: no sign,
  no leading zero, no other spelling names a collection.
\<close>

theorem collection_id_text_roundtrip:
  "parse_CollectionId text = Inr cid \<longleftrightarrow> text = show_nat (coll_u64 cid) \<and> coll_u64 cid \<le> U64_MAX"
  by (cases cid) (auto simp: parse_CollectionId_Inr)

end
