(* ===== verification/Bytes.thy ===== *)
theory Bytes
  imports Prelude "HOL-Library.Word"
begin

text \<open>
  Byte strings as the binary formats use them: bytes are 8-bit words, a slice compares
  lexicographically (the order of lists), and integers are written with \<open>to_be_bytes\<close> and
  read with \<open>from_be_bytes\<close>. The lemmas show that both are inverse and that the big-endian
  form keeps the order, and give the relation \<open>below\<close>: two strings that differ at some byte,
  whatever follows them.
\<close>

unbundle bit_operations_syntax

type_synonym u8 = "8 word"
type_synonym w32 = "32 word"
type_synonym w64 = "64 word"

lemma check_cong [fundef_cong]: "c = c' \<Longrightarrow> (\<And>x. c' = Inr x \<Longrightarrow> k x = k' x) \<Longrightarrow> check c k = check c' k'"
  by (simp add: check_def split: sum.split)

section \<open>Big-endian integers\<close>

definition be_bytes :: "nat \<Rightarrow> 'a::len word \<Rightarrow> u8 list" where
  "be_bytes n w = map (\<lambda>i. ucast (drop_bit (8 * i) w)) (rev [0..<n])"

definition from_be :: "u8 list \<Rightarrow> 'a::len word" where
  "from_be bs = foldl (\<lambda>acc b. push_bit 8 acc OR ucast b) 0 bs"

lemma be_bytes_0 [simp]: "be_bytes 0 w = []"
  by (simp add: be_bytes_def)

lemma be_bytes_Suc: "be_bytes (Suc n) w = ucast (drop_bit (8 * n) w) # be_bytes n w"
  by (simp add: be_bytes_def)

lemma length_be_bytes [simp]: "length (be_bytes n w) = n"
  by (simp add: be_bytes_def)

lemma foldl_be_bytes:
  fixes w acc :: "'a::len word"
  shows "foldl (\<lambda>acc b. push_bit 8 acc OR ucast b) acc (be_bytes n w) = push_bit (8 * n) acc OR take_bit (8 * n) w"
proof (induction n arbitrary: acc)
  case (Suc n)
  show ?case unfolding be_bytes_Suc foldl_Cons Suc.IH
    by (rule bit_word_eqI) (auto simp: bit_simps add.commute not_less)
qed simp

lemma from_be_bytes:
  fixes w :: "'a::len word"
  shows "LENGTH('a) \<le> 8 * n \<Longrightarrow> from_be (be_bytes n w) = w"
  unfolding from_be_def foldl_be_bytes by (simp add: take_bit_word_eq_self)

lemma be_bytes_inject:
  fixes v w :: "'a::len word"
  shows "LENGTH('a) \<le> 8 * n \<Longrightarrow> be_bytes n v = be_bytes n w \<longleftrightarrow> v = w"
  by (metis from_be_bytes)

section \<open>Strings that differ\<close>

fun below :: "'a::linorder list \<Rightarrow> 'a list \<Rightarrow> bool" where
  "below (x # xs) (y # ys) = (x < y \<or> x = y \<and> below xs ys)"
| "below _ _ = False"

lemma below_append: "below xs ys \<Longrightarrow> below (xs @ us) (ys @ vs)"
  by (induction xs ys rule: below.induct) auto

lemma below_less: "below xs ys \<Longrightarrow> xs < ys"
  by (induction xs ys rule: below.induct) auto

lemma below_same [simp]: "below (p @ xs) (p @ ys) \<longleftrightarrow> below xs ys"
  by (induction p) auto

lemma below_irrefl [simp]: "\<not> below xs xs"
  by (induction xs) auto

lemma below_trans: "below xs ys \<Longrightarrow> below ys zs \<Longrightarrow> below xs zs"
proof (induction xs ys arbitrary: zs rule: below.induct)
  case (1 x xs y ys)
  then show ?case by (cases zs) auto
qed auto

lemma less_same_length: "length xs = length ys \<Longrightarrow> xs < ys \<longleftrightarrow> below xs ys"
  by (induction xs ys rule: list_induct2) auto

section \<open>The big-endian order\<close>

fun be_nat :: "u8 list \<Rightarrow> nat" where
  "be_nat [] = 0"
| "be_nat (b # bs) = unat b * 256 ^ length bs + be_nat bs"

lemma be_nat_less: "be_nat bs < 256 ^ length bs"
proof (induction bs)
  case (Cons b bs)
  have "unat b < 2 ^ LENGTH(8)" by (rule unsigned_less)
  then have "unat b < 256" by simp
  then have "Suc (unat b) * 256 ^ length bs \<le> 256 * 256 ^ length bs" by (intro mult_le_mono1) simp
  then have "unat b * 256 ^ length bs + be_nat bs < 256 * 256 ^ length bs" using Cons by (simp only: mult_Suc)
  then show ?case by simp
qed simp

lemma be_nat_below: "length xs = length ys \<Longrightarrow> below xs ys \<longleftrightarrow> be_nat xs < be_nat ys"
proof (induction xs ys rule: list_induct2)
  case (Cons x xs y ys)
  let ?k = "256 ^ length ys :: nat"
  have lim: "be_nat xs < ?k" "be_nat ys < ?k" using be_nat_less [of xs] be_nat_less [of ys] Cons.hyps by simp_all
  have lt: "unat a * ?k + be_nat as < unat b * ?k + be_nat bs"
    if "a < b" "be_nat as < ?k" for a b :: u8 and as bs
  proof -
    have "Suc (unat a) * ?k \<le> unat b * ?k" using that(1) by (intro mult_le_mono1) (simp add: word_less_nat_alt)
    then show ?thesis using that(2) by simp
  qed
  show ?case
  proof (cases x y rule: linorder_cases)
    case less
    then show ?thesis using lt [OF less lim(1)] Cons.hyps by simp
  next
    case equal
    then show ?thesis using Cons by simp
  next
    case greater
    then show ?thesis using lt [OF greater lim(2), of xs] Cons.hyps by (auto dest: less_not_sym)
  qed
qed simp

lemma be_nat_be_bytes: "be_nat (be_bytes n w) = unat w mod 256 ^ n"
proof (induction n)
  case (Suc n)
  have "unat (ucast (drop_bit (8 * n) w) :: u8) = unat w div 256 ^ n mod 256"
    unfolding unsigned_ucast_eq unat_drop_bit_eq by (simp add: drop_bit_eq_div take_bit_eq_mod power_mult)
  then show ?case unfolding be_bytes_Suc be_nat.simps Suc power_Suc2 mod_mult2_eq by (simp add: mult.commute)
qed simp

lemma be_bytes_below:
  fixes v w :: "'a::len word"
  assumes "LENGTH('a) \<le> 8 * n"
  shows "below (be_bytes n v) (be_bytes n w) \<longleftrightarrow> v < w"
proof -
  have "unat u < 2 ^ LENGTH('a)" for u :: "'a word" by (rule unsigned_less)
  moreover have "(2::nat) ^ LENGTH('a) \<le> 256 ^ n" using power_increasing [OF assms, of "2::nat"] by (simp add: power_mult)
  ultimately have "unat u < 256 ^ n" for u :: "'a word" by (meson less_le_trans)
  then show ?thesis by (simp add: be_nat_below be_nat_be_bytes word_less_nat_alt)
qed

end
