(* ===== verification/TupleCodec.thy ===== *)
theory TupleCodec
  imports Bytes
begin

text \<open>
  The order-preserving tuple codec of the key-value store's index entries
  (\<open>loams-tikv/src/codec.rs\<close>), and the end of a prefix range.
\<close>

section \<open>Values\<close>

definition NULL :: u8 where "NULL = 0x05"
definition I64 :: u8 where "I64 = 0x10"
definition F64 :: u8 where "F64 = 0x20"
definition FALSE :: u8 where "FALSE = 0x30"
definition TRUE :: u8 where "TRUE = 0x31"
definition STR_TAG :: u8 where "STR_TAG = 0x40"
definition BYTES :: u8 where "BYTES = 0x50"
definition ARRAY :: u8 where "ARRAY = 0x60"

definition SIGN :: w64 where "SIGN = push_bit 63 1"

definition CANONICAL_NAN :: w64 where "CANONICAL_NAN = 0x7ff8000000000000"

lemmas tags = NULL_def I64_def F64_def FALSE_def TRUE_def STR_TAG_def BYTES_def ARRAY_def

text \<open>An \<open>i64\<close> is its two's complement word, an \<open>f64\<close> its IEEE bits, a \<open>str\<close> its UTF-8 bytes.\<close>

datatype Elem =
    ENull
  | EI64 w64
  | EF64 w64
  | EBool bool
  | EStr "u8 list"
  | EBytes "u8 list"
  | EArray "Elem list"

datatype CodecError =
    Truncated nat
  | BadTag u8 nat
  | BadEscape nat
  | BadUtf8 nat
  | TooDeep nat

text \<open>\<open>f64::is_nan\<close> and the comparison with \<open>0.0\<close>, on the bits.\<close>

definition is_nan :: "w64 \<Rightarrow> bool" where
  "is_nan v \<longleftrightarrow> 0x7ff0000000000000 < v AND 0x7fffffffffffffff"

definition is_zero :: "w64 \<Rightarrow> bool" where
  "is_zero v \<longleftrightarrow> v = 0 \<or> v = SIGN"

definition float_canon :: "w64 \<Rightarrow> w64" where
  "float_canon v = (if is_nan v then CANONICAL_NAN else if is_zero v then 0 else v)"

definition float_bits :: "w64 \<Rightarrow> w64" where
  "float_bits v = (let bits = float_canon v in if bits AND SIGN = 0 then bits OR SIGN else NOT bits)"

definition float_from_bits :: "w64 \<Rightarrow> w64" where
  "float_from_bits bits = (if bits AND SIGN \<noteq> 0 then bits XOR SIGN else NOT bits)"

fun elem_eq :: "Elem \<Rightarrow> Elem \<Rightarrow> bool" where
  "elem_eq ENull ENull = True"
| "elem_eq (EI64 a) (EI64 b) = (a = b)"
| "elem_eq (EF64 a) (EF64 b) = (float_bits a = float_bits b)"
| "elem_eq (EBool a) (EBool b) = (a = b)"
| "elem_eq (EStr a) (EStr b) = (a = b)"
| "elem_eq (EBytes a) (EBytes b) = (a = b)"
| "elem_eq (EArray a) (EArray b) = list_all2 elem_eq a b"
| "elem_eq _ _ = False"

section \<open>Encoding\<close>

definition escape_byte :: "u8 list \<Rightarrow> u8 \<Rightarrow> u8 list" where
  "escape_byte out b = (if b = 0x00 then out @ [b, 0xFF] else out @ [b])"

definition escape :: "u8 list \<Rightarrow> u8 list \<Rightarrow> u8 list" where
  "escape out bytes = foldl escape_byte out bytes @ [0x00, 0x00]"

fun encode :: "u8 list \<Rightarrow> Elem \<Rightarrow> u8 list" where
  "encode out ENull = out @ [NULL]"
| "encode out (EI64 v) = (out @ [I64]) @ be_bytes 8 (v XOR SIGN)"
| "encode out (EF64 v) = (out @ [F64]) @ be_bytes 8 (float_bits v)"
| "encode out (EBool v) = out @ [if v then TRUE else FALSE]"
| "encode out (EStr s) = escape (out @ [STR_TAG]) s"
| "encode out (EBytes b) = escape (out @ [BYTES]) b"
| "encode out (EArray items) = foldl encode (out @ [ARRAY]) items @ [0x00, 0x00]"

section \<open>Decoding\<close>

text \<open>\<open>slice::get\<close>\<close>

definition get_at :: "'a list \<Rightarrow> nat \<Rightarrow> 'a option" where
  "get_at xs i = (if i < length xs then Some (xs ! i) else None)"

definition MAX_DEPTH :: nat where
  "MAX_DEPTH = 64"

definition fixed8 :: "u8 list \<Rightarrow> nat \<Rightarrow> CodecError + w64" where
  "fixed8 buf at = (if at + 8 \<le> length buf then Inr (from_be (take 8 (drop at buf))) else Inl (Truncated (length buf)))"

function unescape :: "u8 list \<Rightarrow> nat \<Rightarrow> CodecError + u8 list \<times> nat" where
  "unescape buf pos = (case get_at buf pos of
     None \<Rightarrow> Inl (Truncated pos)
   | Some b \<Rightarrow>
       if b \<noteq> 0x00 then check (unescape buf (pos + 1)) (\<lambda>(out, end'). Inr (b # out, end'))
       else (case get_at buf (pos + 1) of
           None \<Rightarrow> Inl (Truncated (pos + 1))
         | Some c \<Rightarrow>
             if c = 0xFF then check (unescape buf (pos + 2)) (\<lambda>(out, end'). Inr (0x00 # out, end'))
             else if c = 0x00 then Inr ([], pos + 2)
             else Inl (BadEscape pos)))"
  by auto
termination
  by (relation "measure (\<lambda>(buf, pos). length buf - pos)") (auto simp: get_at_def split: if_splits)

declare unescape.simps [simp del]

text \<open>\<open>String::from_utf8\<close> accepts the well-formed sequences of the Unicode standard.\<close>

definition is_cont :: "u8 \<Rightarrow> bool" where
  "is_cont b \<longleftrightarrow> 0x80 \<le> b \<and> b \<le> 0xBF"

definition second_ok :: "u8 \<Rightarrow> u8 \<Rightarrow> bool" where
  "second_ok b c \<longleftrightarrow>
     (if b = 0xE0 then 0xA0 \<le> c \<and> c \<le> 0xBF
      else if b = 0xED then 0x80 \<le> c \<and> c \<le> 0x9F
      else if b = 0xF0 then 0x90 \<le> c \<and> c \<le> 0xBF
      else if b = 0xF4 then 0x80 \<le> c \<and> c \<le> 0x8F
      else is_cont c)"

fun utf8_valid :: "u8 list \<Rightarrow> bool" where
  "utf8_valid [] = True"
| "utf8_valid (b # bs) =
     (if b < 0x80 then utf8_valid bs
      else if 0xC2 \<le> b \<and> b \<le> 0xDF then
        (case bs of c # rest \<Rightarrow> is_cont c \<and> utf8_valid rest | _ \<Rightarrow> False)
      else if 0xE0 \<le> b \<and> b \<le> 0xEF then
        (case bs of c # d # rest \<Rightarrow> second_ok b c \<and> is_cont d \<and> utf8_valid rest | _ \<Rightarrow> False)
      else if 0xF0 \<le> b \<and> b \<le> 0xF4 then
        (case bs of c # d # e # rest \<Rightarrow> second_ok b c \<and> is_cont d \<and> is_cont e \<and> utf8_valid rest | _ \<Rightarrow> False)
      else False)"

text \<open>A decoded string ends after it starts and inside the buffer.\<close>

lemma unescape_end: "unescape buf pos = Inr (out, e) \<Longrightarrow> pos < e \<and> e \<le> length buf"
proof (induction buf pos arbitrary: out e rule: unescape.induct)
  case (1 buf pos)
  have skip1: "pos < e \<and> e \<le> length buf" if "unescape buf (Suc pos) = Inr (o', e)" "pos < length buf" "buf ! pos \<noteq> 0" for o'
    using "1.IH"(1) [of "buf ! pos" o' e] that by (simp add: get_at_def)
  have skip2: "pos < e \<and> e \<le> length buf" if "unescape buf (Suc (Suc pos)) = Inr (o', e)" "Suc pos < length buf"
    "buf ! pos = 0" "buf ! Suc pos = 0xFF" for o'
    using "1.IH"(2) [of "buf ! pos" "0xFF" o' e] that by (simp add: get_at_def)
  from "1.prems" show ?case
    by (subst (asm) unescape.simps)
      (auto simp: check_Inr_iff get_at_def split: if_splits option.splits dest: skip1 skip2)
qed

lemma fixed8_end: "fixed8 buf at = Inr w \<Longrightarrow> at + 8 \<le> length buf"
  by (simp add: fixed8_def split: if_splits)

lemma get_at_Some: "get_at xs i = Some x \<longleftrightarrow> i < length xs \<and> xs ! i = x"
  by (simp add: get_at_def)

text \<open>
  \<open>decode_at\<close> and the loop over the elements of an array from position \<open>pos\<close> on. Every
  decoded element ends after it starts, so the loop moves on.
\<close>

function decode_at :: "u8 list \<Rightarrow> nat \<Rightarrow> nat \<Rightarrow> CodecError + Elem \<times> nat"
  and decode_items :: "u8 list \<Rightarrow> nat \<Rightarrow> nat \<Rightarrow> CodecError + Elem list \<times> nat" where
  "decode_at buf at depth = (case get_at buf at of
     None \<Rightarrow> Inl (Truncated at)
   | Some tag \<Rightarrow>
       let body = at + 1 in
       if tag = NULL then Inr (ENull, body)
       else if tag = I64 then check (fixed8 buf body) (\<lambda>raw. Inr (EI64 (raw XOR SIGN), body + 8))
       else if tag = F64 then check (fixed8 buf body) (\<lambda>raw. Inr (EF64 (float_from_bits raw), body + 8))
       else if tag = FALSE then Inr (EBool False, body)
       else if tag = TRUE then Inr (EBool True, body)
       else if tag = STR_TAG then
         check (unescape buf body) (\<lambda>(bytes, end').
           if utf8_valid bytes then Inr (EStr bytes, end') else Inl (BadUtf8 at))
       else if tag = BYTES then check (unescape buf body) (\<lambda>(bytes, end'). Inr (EBytes bytes, end'))
       else if tag = ARRAY then
         (if MAX_DEPTH \<le> depth then Inl (TooDeep at)
          else check (decode_items buf body depth) (\<lambda>(items, end'). Inr (EArray items, end')))
       else Inl (BadTag tag at))"
| "decode_items buf pos depth = (case get_at buf pos of
     None \<Rightarrow> Inl (Truncated pos)
   | Some b \<Rightarrow>
       if b = 0x00 then (case get_at buf (pos + 1) of
           Some c \<Rightarrow> if c = 0x00 then Inr ([], pos + 2) else Inl (BadEscape pos)
         | None \<Rightarrow> Inl (Truncated (pos + 1)))
       else check (decode_at buf pos (depth + 1)) (\<lambda>(item, next).
              check (decode_items buf next depth) (\<lambda>(items, end'). Inr (item # items, end'))))"
  by pat_completeness auto
termination
proof (relation "measures [\<lambda>x. case x of Inl (buf, at, _) \<Rightarrow> length buf - at | Inr (buf, pos, _) \<Rightarrow> length buf - pos,
    \<lambda>x. case x of Inl _ \<Rightarrow> 0 | Inr _ \<Rightarrow> 1]", goal_cases)
  case (4 buf0 pos0 depth0 b0 x0 item0 m0)
  have within: "decode_at_decode_items_dom (Inl (buf, at, depth)) \<Longrightarrow>
      \<forall>e n. decode_at buf at depth = Inr (e, n) \<longrightarrow> at < n \<and> n \<le> length buf"
    and "decode_at_decode_items_dom (Inr (buf, pos, depth)) \<Longrightarrow>
      \<forall>es n. decode_items buf pos depth = Inr (es, n) \<longrightarrow> pos < n \<and> n \<le> length buf" for buf at pos depth
  proof (induction rule: decode_at_decode_items.pinduct)
    case (1 buf at depth)
    have items: "at < n \<and> n \<le> length buf" if "decode_items buf (Suc at) depth = Inr (es, n)" "get_at buf at = Some ARRAY"
      "\<not> MAX_DEPTH \<le> depth" for es n
      using "1.IH" [OF that(2) refl] that by (auto simp: tags)
    show ?case unfolding decode_at.psimps [OF "1.hyps"]
      by (auto simp: Let_def check_Inr_iff get_at_def split: option.splits if_splits dest: unescape_end fixed8_end items)
  next
    case (2 buf pos depth)
    have step: "pos < n \<and> n \<le> length buf" if "get_at buf pos = Some b" "b \<noteq> 0"
      "decode_at buf pos (Suc depth) = Inr (e, m)" "decode_items buf m depth = Inr (es, n)" for b e m es n
      using "2.IH"(1) [OF that(1,2)] "2.IH"(2) [OF that(1,2), of "(e, m)"] that(3,4) by fastforce
    show ?case unfolding decode_items.psimps [OF "2.hyps"]
      by (auto simp: check_Inr_iff split: option.splits if_splits dest: step) (auto simp: get_at_def split: if_splits)
  qed
  have "decode_at buf0 pos0 (depth0 + 1) = Inr (item0, m0)" "pos0 < length buf0" using 4 by (simp_all add: get_at_Some)
  then show ?case using within [OF 4(5)] by (auto simp: diff_less_mono2)
qed (auto simp: get_at_Some)

declare decode_at.simps [simp del] decode_items.simps [simp del]

definition decode :: "u8 list \<Rightarrow> CodecError + Elem \<times> nat" where
  "decode buf = decode_at buf 0 0"

section \<open>Prefix ranges\<close>

text \<open>
  The loop of \<open>successor\<close>, on the reversed key: bytes \<open>0xFF\<close> are popped from the end, and the
  first other byte is replaced by the next one.
\<close>

fun pop_loop :: "u8 list \<Rightarrow> u8 list" where
  "pop_loop [] = []"
| "pop_loop (b # rest) = (if b \<noteq> 0xFF then (b + 1) # rest else pop_loop rest)"

definition successor :: "u8 list \<Rightarrow> u8 list" where
  "successor p = rev (pop_loop (rev p))"

section \<open>The shape of an encoding\<close>

definition esc :: "u8 list \<Rightarrow> u8 list" where
  "esc bs = concat (map (\<lambda>b. if b = 0 then [0, 0xFF] else [b]) bs)"

lemma esc_simps [simp]: "esc [] = []" "esc (b # bs) = (if b = 0 then [0, 0xFF] else [b]) @ esc bs"
  by (simp_all add: esc_def)

lemma foldl_escape: "foldl escape_byte out bs = out @ esc bs"
  by (induction bs arbitrary: out) (simp_all add: escape_byte_def)

lemma escape_eq: "escape out bs = out @ esc bs @ [0, 0]"
  by (simp add: escape_def foldl_escape)

text \<open>The bytes an element appends, whatever stands before them.\<close>

fun enc :: "Elem \<Rightarrow> u8 list" where
  "enc ENull = [NULL]"
| "enc (EI64 v) = I64 # be_bytes 8 (v XOR SIGN)"
| "enc (EF64 v) = F64 # be_bytes 8 (float_bits v)"
| "enc (EBool x) = [if x then TRUE else FALSE]"
| "enc (EStr bs) = STR_TAG # esc bs @ [0, 0]"
| "enc (EBytes bs) = BYTES # esc bs @ [0, 0]"
| "enc (EArray es) = ARRAY # concat (map enc es) @ [0, 0]"

lemma encode_append: "encode out e = out @ enc e"
proof (induction out e rule: encode.induct)
  case (7 out items)
  have "foldl encode acc xs = acc @ concat (map enc xs)" if "set xs \<subseteq> set items" for acc xs
    using that by (induction xs arbitrary: acc) (auto simp: "7.IH")
  from this [of items] show ?case by simp
qed (simp_all add: escape_eq)

lemma enc_head: "\<exists>t r. enc e = t # r \<and> t \<noteq> 0"
  by (cases e) (simp_all add: tags)

end
