(* ===== verification/TupleProps.thy ===== *)
theory TupleProps
  imports TupleCodec
begin

text \<open>
  What the tuple codec promises: an encoding decodes to the value it was made from, the byte
  order of encodings is the order of the values whatever follows them, and the end of a
  prefix range is exact.
\<close>

section \<open>Round trip\<close>

lemma bit_SIGN [simp]: "bit SIGN n \<longleftrightarrow> n = 63"
  unfolding SIGN_def bit_push_bit_iff by (auto simp: bit_1_iff not_le)

lemma and_SIGN: "x AND SIGN = 0 \<longleftrightarrow> \<not> bit x 63"
proof
  assume "x AND SIGN = 0"
  then have "\<not> bit (x AND SIGN) 63" by simp
  then show "\<not> bit x 63" by (simp add: bit_and_iff)
next
  assume "\<not> bit x 63"
  then show "x AND SIGN = 0" by (intro bit_word_eqI) (auto simp: bit_and_iff)
qed

lemma SIGN_nonzero [simp]: "SIGN \<noteq> 0"
  using bit_SIGN [of 63] by force

lemma float_round: "float_from_bits (float_bits v) = float_canon v"
proof (cases "bit (float_canon v) 63")
  case True
  then show ?thesis by (simp add: float_bits_def float_from_bits_def Let_def and_SIGN bit_simps)
next
  case False
  then have "(float_canon v OR SIGN) XOR SIGN = float_canon v"
    by (intro bit_word_eqI) (auto simp: bit_or_iff bit_xor_iff)
  moreover have "bit (float_canon v OR SIGN) 63" by (simp add: bit_or_iff)
  ultimately show ?thesis using False by (simp add: float_bits_def float_from_bits_def Let_def and_SIGN)
qed

fun canon :: "Elem \<Rightarrow> Elem" where
  "canon (EF64 v) = EF64 (float_canon v)"
| "canon (EArray es) = EArray (map canon es)"
| "canon e = e"

fun depth_of :: "Elem \<Rightarrow> nat" where
  "depth_of (EArray es) = Suc (foldr max (map depth_of es) 0)"
| "depth_of e = 0"

fun strings_ok :: "Elem \<Rightarrow> bool" where
  "strings_ok (EStr bs) = utf8_valid bs"
| "strings_ok (EArray es) = list_all strings_ok es"
| "strings_ok e = True"

lemma unescape_esc:
  "unescape (pre @ esc bs @ 0 # 0 # rest) (length pre) = Inr (bs, length pre + length (esc bs) + 2)"
proof (induction bs arbitrary: pre)
  case Nil
  show ?case by (subst unescape.simps) (simp add: get_at_def nth_append)
next
  case (Cons b bs)
  show ?case
  proof (cases "b = 0")
    case True
    show ?thesis using Cons [of "pre @ [0, 0xFF]"] True
      by (subst unescape.simps) (simp add: get_at_def nth_append)
  next
    case False
    show ?thesis using Cons [of "pre @ [b]"] False by (subst unescape.simps) (simp add: get_at_def nth_append)
  qed
qed

lemma fixed8_be: "fixed8 (pre @ be_bytes 8 w @ rest) (length pre) = Inr w"
  by (simp add: fixed8_def from_be_bytes)

lemma get_at_append [simp]: "get_at (pre @ x # rest) (length pre) = Some x"
  by (simp add: get_at_def)

lemma get_at_append_Suc [simp]: "get_at (pre @ x # y # rest) (Suc (length pre)) = Some y"
  by (simp add: get_at_def nth_append)

lemma decode_items_enc:
  assumes "\<And>e pre rest. e \<in> set es \<Longrightarrow> decode_at (pre @ enc e @ rest) (length pre) (Suc d) = Inr (canon e, length pre + length (enc e))"
  shows "decode_items (pre @ concat (map enc es) @ 0 # 0 # rest) (length pre) d
    = Inr (map canon es, length pre + length (concat (map enc es)) + 2)"
  using assms
proof (induction es arbitrary: pre)
  case Nil
  show ?case by (subst decode_items.simps) simp
next
  case (Cons e es)
  obtain t r where t: "enc e = t # r" "t \<noteq> 0" using enc_head by blast
  have one: "decode_at (pre @ enc e @ concat (map enc es) @ 0 # 0 # rest) (length pre) (Suc d)
      = Inr (canon e, length pre + length (enc e))"
    by (rule Cons.prems) simp
  have rest: "decode_items ((pre @ enc e) @ concat (map enc es) @ 0 # 0 # rest) (length (pre @ enc e)) d
      = Inr (map canon es, length (pre @ enc e) + length (concat (map enc es)) + 2)"
    by (rule Cons.IH) (use Cons.prems in simp)
  show ?case using one rest t by (subst decode_items.simps) simp
qed

lemma depth_of_member: "e \<in> set es \<Longrightarrow> depth_of e \<le> foldr max (map depth_of es) 0"
  by (induction es) auto

lemma decode_enc:
  "strings_ok e \<Longrightarrow> d + depth_of e \<le> MAX_DEPTH \<Longrightarrow>
     decode_at (pre @ enc e @ rest) (length pre) d = Inr (canon e, length pre + length (enc e))"
proof (induction e arbitrary: pre rest d)
  case (EI64 v)
  show ?case using fixed8_be [of "pre @ [I64]" "v XOR SIGN" rest]
    by (subst decode_at.simps) (simp add: tags xor.assoc)
next
  case (EF64 v)
  show ?case using fixed8_be [of "pre @ [F64]" "float_bits v" rest]
    by (subst decode_at.simps) (simp add: tags float_round)
next
  case (EStr bs)
  then show ?case using unescape_esc [of "pre @ [STR_TAG]" bs rest] by (subst decode_at.simps) (simp add: tags)
next
  case (EBytes bs)
  then show ?case using unescape_esc [of "pre @ [BYTES]" bs rest] by (subst decode_at.simps) (simp add: tags)
next
  case (EArray es)
  have "decode_items ((pre @ [ARRAY]) @ concat (map enc es) @ 0 # 0 # rest) (length (pre @ [ARRAY])) d
    = Inr (map canon es, length (pre @ [ARRAY]) + length (concat (map enc es)) + 2)"
  proof (rule decode_items_enc)
    fix e pre rest assume e: "e \<in> set es"
    show "decode_at (pre @ enc e @ rest) (length pre) (Suc d) = Inr (canon e, length pre + length (enc e))"
      by (rule EArray.IH [OF e]) (use EArray.prems e depth_of_member [OF e] in \<open>auto simp: list_all_iff\<close>)
  qed
  then show ?case using EArray.prems by (subst decode_at.simps) (simp add: tags)
qed (subst decode_at.simps, simp add: tags)+

lemma float_canon_idem [simp]: "float_canon (float_canon v) = float_canon v"
proof -
  have "is_nan CANONICAL_NAN" "\<not> is_nan 0" by (simp_all add: is_nan_def CANONICAL_NAN_def)
  then show ?thesis by (simp add: float_canon_def is_zero_def)
qed

lemma elem_eq_canon: "elem_eq e (canon e)"
  by (induction e) (auto simp: float_bits_def list_all2_conv_all_nth)

section \<open>Order\<close>

text \<open>The order of \<open>f64\<close>: sign and magnitude, with NaN above everything and one zero.\<close>

definition f64_value :: "w64 \<Rightarrow> int" where
  "f64_value v = (let c = float_canon v in if bit c 63 then 2 ^ 63 - uint c else uint c)"

fun rank :: "Elem \<Rightarrow> nat" where
  "rank ENull = 0"
| "rank (EI64 _) = 1"
| "rank (EF64 _) = 2"
| "rank (EBool _) = 3"
| "rank (EStr _) = 4"
| "rank (EBytes _) = 5"
| "rank (EArray _) = 6"

fun elem_less :: "Elem \<Rightarrow> Elem \<Rightarrow> bool"
  and items_less :: "Elem list \<Rightarrow> Elem list \<Rightarrow> bool" where
  "elem_less (EI64 a) (EI64 b) = (sint a < sint b)"
| "elem_less (EF64 a) (EF64 b) = (f64_value a < f64_value b)"
| "elem_less (EBool a) (EBool b) = (\<not> a \<and> b)"
| "elem_less (EStr a) (EStr b) = (a < b)"
| "elem_less (EBytes a) (EBytes b) = (a < b)"
| "elem_less (EArray a) (EArray b) = items_less a b"
| "elem_less a b = (rank a < rank b)"
| "items_less [] (y # ys) = True"
| "items_less (x # xs) (y # ys) = (elem_less x y \<or> elem_eq x y \<and> items_less xs ys)"
| "items_less xs [] = False"

lemma top_bit: "bit (c :: w64) 63 \<longleftrightarrow> 2 ^ 63 \<le> uint c"
proof -
  have "bit c 63 \<longleftrightarrow> bit (uint c) 63" by (simp add: bit_uint_iff)
  then have "bit c 63 \<longleftrightarrow> odd (uint c div 2 ^ 63)" unfolding bit_iff_odd [of "uint c"] .
  moreover have "uint c div 2 ^ 63 = (if 2 ^ 63 \<le> uint c then 1 else 0)"
    using uint_lt2p [of c] by (simp add: div_pos_geq div_pos_pos_trivial)
  ultimately show ?thesis by simp
qed

lemma xor_SIGN: "x XOR SIGN = x + SIGN"
proof (cases "bit x 63")
  case False
  then show ?thesis using disjunctive_add_eq_xor [of x SIGN] and_SIGN by simp
next
  case True
  have "(x XOR SIGN) AND SIGN = 0" using True by (simp add: and_SIGN bit_xor_iff)
  then have "(x XOR SIGN) + SIGN = x" using disjunctive_add_eq_xor [of "x XOR SIGN" SIGN] by (simp add: xor.assoc)
  moreover have "SIGN + SIGN = 0" by (simp add: SIGN_def)
  ultimately show ?thesis by (metis add.assoc add.right_neutral)
qed

lemma uint_SIGN: "uint SIGN = 2 ^ 63"
  by (simp add: SIGN_def)

lemma sign_flip: "uint (v XOR SIGN) = sint v + 2 ^ 63"
proof -
  have "uint (v XOR SIGN) = (uint v + 2 ^ 63) mod 2 ^ 64"
    by (simp add: xor_SIGN uint_word_ariths uint_SIGN)
  moreover have "sint v = take_bit 64 (uint v + 2 ^ 63) - 2 ^ 63"
    using signed_take_bit_eq_take_bit_shift [of 63 "uint v"] by (simp add: sint_uint)
  ultimately show ?thesis by (simp add: take_bit_eq_mod)
qed

lemma float_bits_value:
  "uint (float_bits v) = f64_value v + 2 ^ 63 - (if bit (float_canon v) 63 then 1 else 0)"
proof (cases "bit (float_canon v) 63")
  case True
  have "NOT (float_canon v) = - 1 - float_canon v" by (simp add: not_eq_complement)
  then have "uint (NOT (float_canon v)) = 2 ^ 64 - 1 - uint (float_canon v)"
    using uint_sub_if' [of "-1" "float_canon v"] uint_lt2p [of "float_canon v"]
    by (simp add: unsigned_minus_1_eq_mask mask_eq_exp_minus_1)
  then show ?thesis using True by (simp add: float_bits_def f64_value_def Let_def and_SIGN)
next
  case False
  have "float_canon v OR SIGN = float_canon v + SIGN"
    using disjunctive_add_eq_or [of "float_canon v" SIGN] False and_SIGN by simp
  moreover have "uint (float_canon v + SIGN) = uint (float_canon v) + 2 ^ 63"
    using False by (simp add: uint_word_ariths uint_SIGN top_bit)
  ultimately show ?thesis using False by (simp add: float_bits_def f64_value_def Let_def and_SIGN)
qed

lemma float_canon_not_minus_zero: "float_canon v \<noteq> SIGN"
  by (auto simp: float_canon_def is_zero_def CANONICAL_NAN_def SIGN_def)

lemma f64_value_less: "float_bits a < float_bits b \<longleftrightarrow> f64_value a < f64_value b"
  and f64_value_eq: "float_bits a = float_bits b \<longleftrightarrow> f64_value a = f64_value b"
proof -
  have neg: "f64_value v < 0" if "bit (float_canon v) 63" for v
  proof -
    have "uint (float_canon v) \<noteq> 2 ^ 63" using float_canon_not_minus_zero [of v] uint_SIGN by (simp add: word_uint_eq_iff)
    then show ?thesis using that by (simp add: f64_value_def Let_def top_bit)
  qed
  have pos: "0 \<le> f64_value v" if "\<not> bit (float_canon v) 63" for v
    using that by (simp add: f64_value_def Let_def)
  show "float_bits a < float_bits b \<longleftrightarrow> f64_value a < f64_value b"
    unfolding word_less_def float_bits_value using neg [of a] neg [of b] pos [of a] pos [of b] by (auto split: if_splits)
  show "float_bits a = float_bits b \<longleftrightarrow> f64_value a = f64_value b"
    unfolding word_uint_eq_iff float_bits_value using neg [of a] neg [of b] pos [of a] pos [of b] by (auto split: if_splits)
qed

lemma sint_less: "v XOR SIGN < w XOR SIGN \<longleftrightarrow> sint v < sint w"
  by (simp add: word_less_def sign_flip)

lemma esc_below: "xs < ys \<Longrightarrow> below (esc xs @ [0, 0]) (esc ys @ [0, 0])"
proof (induction xs arbitrary: ys)
  case Nil
  then obtain y ys' where "ys = y # ys'" by (cases ys) auto
  then show ?case by (auto simp: word_neq_0_conv)
next
  case (Cons x xs)
  then obtain y ys' where ys: "ys = y # ys'" by (cases ys) auto
  show ?case using Cons ys by (auto simp: word_neq_0_conv)
qed

lemma elem_eq_enc:
  "elem_eq a b \<Longrightarrow> enc a = enc b"
proof (induction a b rule: elem_eq.induct)
  case (7 a b)
  have "list_all2 elem_eq xs ys \<Longrightarrow> set xs \<subseteq> set a \<Longrightarrow> set ys \<subseteq> set b \<Longrightarrow> map enc xs = map enc ys" for xs ys
    by (induction xs ys rule: list_all2_induct) (auto intro: "7.IH")
  then show ?case using 7 by simp
qed simp_all

lemma rank_below: "rank a < rank b \<Longrightarrow> below (enc a) (enc b)"
  by (cases a; cases b) (simp_all add: tags)

lemma less_below:
  "elem_less a b \<Longrightarrow> below (enc a) (enc b)"
  "items_less xs ys \<Longrightarrow> below (concat (map enc xs) @ [0, 0]) (concat (map enc ys) @ [0, 0])"
proof (induction a b and xs ys rule: elem_less_items_less.induct)
  case (1 a b)
  then show ?case by (simp add: be_bytes_below sint_less)
next
  case (2 a b)
  then show ?case by (simp add: be_bytes_below f64_value_less)
next
  case (9 x xs y ys)
  then show ?case by (auto intro: below_append dest: elem_eq_enc)
next
  case (8 y ys)
  obtain t r where "enc y = t # r" "t \<noteq> 0" using enc_head by blast
  then show ?case by (simp add: word_neq_0_conv)
qed (use rank_below [of ENull] in \<open>auto simp: tags esc_below\<close>)

lemma elem_eq_sym: "elem_eq a b \<Longrightarrow> elem_eq b a"
proof (induction a b rule: elem_eq.induct)
  case (7 a b)
  have "list_all2 elem_eq xs ys \<Longrightarrow> set xs \<subseteq> set a \<Longrightarrow> set ys \<subseteq> set b \<Longrightarrow> list_all2 elem_eq ys xs" for xs ys
    by (induction xs ys rule: list_all2_induct) (auto intro: "7.IH")
  then show ?case using 7 by simp
qed simp_all

lemma elem_eq_null: "elem_eq ENull b \<longleftrightarrow> rank b = 0" "elem_eq b ENull \<longleftrightarrow> rank b = 0"
  by (cases b; simp)+

lemma items_less_Nil: "items_less [] xs \<longleftrightarrow> xs \<noteq> []"
  by (cases xs) simp_all

lemma elem_total:
  "elem_less a b \<or> elem_eq a b \<or> elem_less b a"
  "items_less xs ys \<or> list_all2 elem_eq xs ys \<or> items_less ys xs"
proof (induction a b and xs ys rule: elem_less_items_less.induct)
  case (1 a b)
  then show ?case by (auto simp: signed_word_eqI)
next
  case (2 a b)
  then show ?case by (auto simp: f64_value_eq)
next
  case (9 x xs y ys)
  then show ?case using elem_eq_sym [of x y] by auto
qed (auto simp: elem_eq_null items_less_Nil)

lemma same_prefix_less: "p @ us < p @ vs \<longleftrightarrow> us < (vs :: u8 list)"
  by (induction p) auto

text \<open>
  C31. The byte order of two encodings, each followed by anything, is the order of the values:
  null, integers, floats, booleans, strings, byte strings, arrays, and inside a type the
  natural order, arrays element by element. Only equal values leave the order to what follows.
\<close>

theorem tuple_order:
  "encode [] a @ us < encode [] b @ vs \<longleftrightarrow> elem_less a b \<or> elem_eq a b \<and> us < vs"
proof -
  have le: "elem_less x y \<Longrightarrow> enc x @ u < enc y @ v" for x y u v
    using below_less [OF below_append [OF less_below(1)]] .
  have eq: "elem_eq a b \<Longrightarrow> (enc a @ us < enc b @ vs \<longleftrightarrow> us < vs)"
    using elem_eq_enc [of a b] by (auto simp: same_prefix_less)
  have excl: "\<not> (elem_less a b \<and> elem_eq a b)" using elem_eq_enc less_below(1) by fastforce
  show ?thesis unfolding encode_append append_Nil
    using elem_total(1) [of a b] le [of a b us vs] le [of b a vs us] eq excl by auto
qed

text \<open>
  C32. An encoding decodes, wherever it stands in a buffer, to the value it was made from (with
  the one zero and the one NaN of the format) and to the position right after it, for every
  value whose strings are UTF-8 and whose arrays nest at most \<open>MAX_DEPTH\<close> deep.
\<close>

theorem tuple_roundtrip:
  assumes "strings_ok e" "depth_of e \<le> MAX_DEPTH"
  shows "\<exists>e'. decode_at (encode pre e @ rest) (length pre) 0 = Inr (e', length (encode pre e)) \<and> elem_eq e e'"
proof (intro exI conjI)
  show "decode_at (encode pre e @ rest) (length pre) 0 = Inr (canon e, length (encode pre e))"
    using decode_enc [of e 0 pre rest] assms by (simp add: encode_append)
  show "elem_eq e (canon e)" by (rule elem_eq_canon)
qed

theorem tuple_roundtrip_witness:
  "\<exists>e'. decode_at (encode [7] (EArray [EStr [0x61, 0, 0x62], EF64 SIGN]) @ [1, 2]) 1 0
       = Inr (e', length (encode [7] (EArray [EStr [0x61, 0, 0x62], EF64 SIGN])))
     \<and> elem_eq (EArray [EStr [0x61, 0, 0x62], EF64 SIGN]) e'"
  using tuple_roundtrip [of "EArray [EStr [0x61, 0, 0x62], EF64 SIGN]" "[7]" "[1, 2]"]
  by (simp add: MAX_DEPTH_def)

section \<open>Prefix ranges\<close>

lemma pop_loop_snoc:
  "pop_loop (xs @ [x]) = (if pop_loop xs \<noteq> [] then pop_loop xs @ [x] else if x \<noteq> 0xFF then [x + 1] else [])"
  by (induction xs) auto

lemma successor_Cons:
  "successor (x # p) = (if successor p \<noteq> [] then x # successor p else if x \<noteq> 0xFF then [x + 1] else [])"
  by (simp add: successor_def pop_loop_snoc)

lemma less_next:
  fixes x y :: u8
  assumes "x \<noteq> 0xFF"
  shows "y < x + 1 \<longleftrightarrow> y \<le> x"
proof -
  have "uint x \<noteq> 255" using assms by (simp add: word_uint_eq_iff)
  moreover have "uint x < 256" using uint_lt2p [of x] by simp
  ultimately have "uint (x + 1) = uint x + 1" by (simp add: uint_plus_if')
  then show ?thesis by (simp add: word_less_def word_le_def)
qed

lemma max_byte: "\<not> 0xFF < (y :: u8)"
proof -
  have "uint y < 256" using uint_lt2p [of y] by simp
  then show ?thesis by (simp add: word_less_def)
qed

text \<open>
  C34. The range from a prefix to its successor holds exactly the keys that start with the
  prefix; an empty successor stands for no upper bound, and then every later key starts with it.
\<close>

theorem successor_exact:
  "prefix p key \<longleftrightarrow> p \<le> key \<and> (successor p = [] \<or> key < successor p)"
proof (induction p arbitrary: key)
  case Nil
  then show ?case by (simp add: successor_def)
next
  case (Cons x p)
  show ?case
  proof (cases key)
    case (Cons y ys)
    show ?thesis
    proof (cases "successor p = []")
      case True
      then show ?thesis using Cons.IH [of ys] Cons max_byte [of y]
        by (cases "x = 0xFF") (auto simp: successor_Cons less_next)
    next
      case False
      then show ?thesis using Cons.IH [of ys] Cons by (auto simp: successor_Cons)
    qed
  qed simp
qed

section \<open>Decoding stays in bounds\<close>

lemma depth_of_bound: "(\<forall>e \<in> set es. depth_of e \<le> k) \<Longrightarrow> foldr max (map depth_of es) 0 \<le> k"
  by (induction es) auto

lemma decode_ok:
  "depth \<le> MAX_DEPTH \<Longrightarrow> decode_at buf at depth = Inr (e, n) \<Longrightarrow>
     at < n \<and> n \<le> length buf \<and> depth + depth_of e \<le> MAX_DEPTH \<and> strings_ok e"
  "depth < MAX_DEPTH \<Longrightarrow> decode_items buf pos depth = Inr (es, n) \<Longrightarrow>
     pos < n \<and> n \<le> length buf \<and> (\<forall>e \<in> set es. Suc depth + depth_of e \<le> MAX_DEPTH \<and> strings_ok e)"
proof (induction buf at depth and buf pos depth arbitrary: e n and es n rule: decode_at_decode_items.induct)
  case (1 buf at depth)
  show ?case
  proof (cases "get_at buf at = Some ARRAY")
    case True
    then obtain es where es: "depth < MAX_DEPTH" "decode_items buf (Suc at) depth = Inr (es, n)" "e = EArray es"
      using "1.prems"(2) by (subst (asm) decode_at.simps) (auto simp: tags check_Inr_iff split: if_splits)
    have ok: "Suc at < n \<and> n \<le> length buf \<and> (\<forall>e \<in> set es. Suc depth + depth_of e \<le> MAX_DEPTH \<and> strings_ok e)"
      using "1.IH" [OF True refl] es by (simp add: tags)
    then have "\<forall>e \<in> set es. depth_of e \<le> MAX_DEPTH - Suc depth" by auto
    then show ?thesis using depth_of_bound [of es "MAX_DEPTH - Suc depth"] es ok by (auto simp: list_all_iff)
  next
    case False
    then show ?thesis using "1.prems" unfolding decode_at.simps [of buf at]
      by (auto simp: Let_def check_Inr_iff get_at_Some split: option.splits if_splits dest: unescape_end fixed8_end)
  qed
next
  case (2 buf pos depth)
  show ?case
  proof (cases "\<exists>b. get_at buf pos = Some b \<and> b \<noteq> 0")
    case True
    then obtain b item m es' where b: "get_at buf pos = Some b" "b \<noteq> 0"
      and item: "decode_at buf pos (Suc depth) = Inr (item, m)"
      and es: "decode_items buf m depth = Inr (es', n)" "es = item # es'"
      using "2.prems"(2) by (subst (asm) decode_items.simps) (auto simp: check_Inr_iff)
    note I = "2.IH"(1) [OF b, of item m] and R = "2.IH"(2) [OF b, of "(item, m)" item m es' n]
    show ?thesis using I R item es "2.prems"(1) by simp
  next
    case False
    then show ?thesis using "2.prems" unfolding decode_items.simps [of buf pos]
      by (auto simp: get_at_Some split: option.splits if_splits)
  qed
qed

text \<open>
  C33. Decoding is total and stays in bounds: whatever the bytes, it returns an error or an
  element that ends behind its start and within the buffer, whose strings are UTF-8 and whose
  arrays nest no deeper than the depth that is left.
\<close>

theorem decode_within:
  assumes "depth \<le> MAX_DEPTH" "decode_at buf at depth = Inr (e, n)"
  shows "at < n \<and> n \<le> length buf \<and> depth + depth_of e \<le> MAX_DEPTH \<and> strings_ok e"
  using assms by (rule decode_ok(1))

theorem decode_within_witness:
  "1 < (2 :: nat) \<and> 2 \<le> length [9 :: u8, NULL] \<and> 3 + depth_of ENull \<le> MAX_DEPTH \<and> strings_ok ENull"
  by (rule decode_within [of 3 "[9, NULL]" 1]) (simp add: MAX_DEPTH_def, subst decode_at.simps, simp add: get_at_def)

end
