(* ===== verification/CommitToken.thy ===== *)
theory CommitToken
  imports Bytes
begin

text \<open>
  Commit tokens of the transaction runner (\<open>loams-tikv/src/token.rs\<close>): the key a transaction
  writes so that a lost commit can be resolved, and the values at it, a token or a fence.
\<close>

definition TOKEN_PREFIX :: "u8 list" where
  "TOKEN_PREFIX = [0x74, 0x2F]"

text \<open>Thirty minutes, in milliseconds.\<close>

definition TOKEN_TTL :: w64 where
  "TOKEN_TTL = 30 * 60 * 1000"

definition token_key :: "u8 list \<Rightarrow> u8 list" where
  "token_key token = TOKEN_PREFIX @ token"

definition token_value :: "w64 \<Rightarrow> u8 list" where
  "token_value now = be_bytes 8 (if now + TOKEN_TTL < now then - 1 else now + TOKEN_TTL)"

definition fence_value :: "w64 \<Rightarrow> u8 list" where
  "fence_value now = token_value now @ [0x46]"

definition is_fence :: "u8 list \<Rightarrow> bool" where
  "is_fence v \<longleftrightarrow> length v = 9 \<and> v ! 8 = 0x46"

definition token_expiry :: "u8 list \<Rightarrow> w64 option" where
  "token_expiry v =
     (if 8 \<le> length v \<and> (length v = 8 \<or> is_fence v) then Some (from_be (take 8 v)) else None)"

text \<open>The saturating sum, on the numbers the words stand for.\<close>

lemma saturating_ttl:
  "unat (if now + TOKEN_TTL < now then - 1 else now + TOKEN_TTL) = min (unat now + 1800000) (2 ^ 64 - 1)"
proof -
  have "unat now < 2 ^ LENGTH(64)" by (rule unsigned_less)
  then have lt: "unat now < 2 ^ 64" by simp
  have add: "unat (now + TOKEN_TTL) = (unat now + 1800000) mod 2 ^ 64"
    by (simp add: unat_word_ariths TOKEN_TTL_def)
  show ?thesis
  proof (cases "unat now + 1800000 < 2 ^ 64")
    case True
    then show ?thesis using add by (simp add: word_less_nat_alt)
  next
    case False
    then have "unat (now + TOKEN_TTL) = unat now + 1800000 - 2 ^ 64"
      using add lt by (simp add: le_mod_geq)
    then have "now + TOKEN_TTL < now" using False lt by (simp add: word_less_nat_alt)
    then show ?thesis using False by (simp add: unsigned_minus_1_eq_mask mask_eq_exp_minus_1)
  qed
qed

text \<open>
  C35. A token's value and the fence at it carry the same expiry, thirty minutes after the
  time they were written (or the end of time), a fence is told apart from a token, and the
  keys of different tokens differ.
\<close>

theorem token_roundtrip:
  "map_option unat (token_expiry (token_value now)) = Some (min (unat now + 1800000) (2 ^ 64 - 1))
     \<and> token_expiry (fence_value now) = token_expiry (token_value now)
     \<and> is_fence (fence_value now) \<and> \<not> is_fence (token_value now)
     \<and> (token_key a = token_key b \<longleftrightarrow> a = b)"
  by (simp add: token_expiry_def token_value_def fence_value_def is_fence_def token_key_def nth_append from_be_bytes
      saturating_ttl)

end
