(* ===== verification/SkTypes.thy ===== *)
theory SkTypes
  imports BTreeMap Bytes
begin

text \<open>
  The data types of the WAL acceptor (\<open>loams-safekeeper/src/types.rs\<close>, the messages of
  \<open>proto.rs\<close>, and the errors of \<open>lib.rs\<close>): LSNs and their text, term histories and the point
  where two of them diverge, configurations, and the durable head of a timeline.
\<close>

section \<open>Identifiers, positions and errors\<close>

text \<open>A \<open>Lsn\<close> is its \<open>u64\<close>, an \<open>Id\<close> its sixteen bytes.\<close>

type_synonym Term = u64
type_synonym NodeId = u64
type_synonym Lsn = u64
type_synonym Id = "u8 list"

definition INVALID :: Lsn where
  "INVALID = 0"

record TimelineId =
  tl_tenant :: Id
  tl_timeline :: Id

definition to_bytes :: "TimelineId \<Rightarrow> u8 list" where
  "to_bytes t = tl_tenant t @ tl_timeline t"

record TermLsn =
  tn_term :: Term
  tn_lsn :: Lsn

type_synonym TermHistory = "TermLsn list"

text \<open>
  Error messages as the template with what is formatted into it; \<open>NotFound\<close> and \<open>Trimmed\<close>
  carry their fields.
\<close>

datatype sk_arg =
    ALsn Lsn
  | ANat nat
  | AStr string
  | ATermLsn TermLsn
  | AHistory TermHistory
  | ATimeline TimelineId

datatype Error =
    Protocol string "sk_arg list"
  | NotFound TimelineId
  | Trimmed Lsn Lsn
  | Store string "sk_arg list"
  | Io string

definition lsn_checked_add :: "Lsn \<Rightarrow> u64 \<Rightarrow> Error + Lsn" where
  "lsn_checked_add l n = ok_or (checked_add64 l n) (Protocol ''LSN overflow: {self} + {n}'' [ALsn l, ANat n])"

section \<open>The text of an LSN\<close>

definition hex_digit :: "nat \<Rightarrow> char" where
  "hex_digit d = ''0123456789ABCDEF'' ! d"

fun show_hex :: "nat \<Rightarrow> string" where
  "show_hex n = (if n < 16 then [hex_digit n] else show_hex (n div 16) @ [hex_digit (n mod 16)])"

declare show_hex.simps [simp del]

text \<open>\<open>{:X}/{:X}\<close> of the two halves.\<close>

definition show_lsn :: "Lsn \<Rightarrow> string" where
  "show_lsn l = show_hex (l div 2 ^ 32) @ ''/'' @ show_hex (l mod 2 ^ 32)"

definition hex_val :: "char \<Rightarrow> nat option" where
  "hex_val c = (let n = of_char c :: nat in
     if 48 \<le> n \<and> n \<le> 57 then Some (n - 48)
     else if 65 \<le> n \<and> n \<le> 70 then Some (n - 55)
     else if 97 \<le> n \<and> n \<le> 102 then Some (n - 87)
     else None)"

fun hex_loop :: "nat \<Rightarrow> string \<Rightarrow> nat option" where
  "hex_loop acc [] = Some acc"
| "hex_loop acc (c # cs) = (case hex_val c of
     None \<Rightarrow> None
   | Some d \<Rightarrow> if acc * 16 + d \<le> U32_MAX then hex_loop (acc * 16 + d) cs else None)"

text \<open>\<open>u32::from_str_radix(s, 16)\<close>: an optional plus sign, then at least one digit.\<close>

definition from_str_radix16 :: "string \<Rightarrow> u32 option" where
  "from_str_radix16 s =
     (let digits = (case s of c # cs \<Rightarrow> if c = CHR ''+'' then cs else s | [] \<Rightarrow> s)
      in if digits = [] then None else hex_loop 0 digits)"

text \<open>\<open>str::split_once\<close>\<close>

fun split_once :: "char \<Rightarrow> string \<Rightarrow> (string \<times> string) option" where
  "split_once sep [] = None"
| "split_once sep (c # cs) =
     (if c = sep then Some ([], cs) else map_option (\<lambda>(a, b). (c # a, b)) (split_once sep cs))"

definition lsn_from_str :: "string \<Rightarrow> Error + Lsn" where
  "lsn_from_str s =
     (let bad = Protocol ''invalid LSN {s:?}'' [AStr s] in
      check (ok_or (split_once (CHR ''/'') s) bad) (\<lambda>(hi, lo).
      check (ok_or (from_str_radix16 hi) bad) (\<lambda>hi.
      check (ok_or (from_str_radix16 lo) bad) (\<lambda>lo.
      Inr (hi * 2 ^ 32 + lo)))))"

section \<open>Term histories\<close>

definition up_to :: "TermHistory \<Rightarrow> Lsn \<Rightarrow> TermHistory" where
  "up_to h l = takeWhile (\<lambda>e. tn_lsn e \<le> l) h"

text \<open>The loop over the two histories, from position \<open>i\<close> with the last common one so far.\<close>

fun common_loop :: "TermHistory \<Rightarrow> TermHistory \<Rightarrow> nat \<Rightarrow> nat option \<Rightarrow> Error + nat option" where
  "common_loop (p # ps) (s # ss) i last_common =
     (if tn_term p \<noteq> tn_term s then Inr last_common
      else if tn_lsn p \<noteq> tn_lsn s
      then Inl (Protocol ''term {} starts at {} for the proposer and at {} for the acceptor''
                 [ANat (tn_term p), ALsn (tn_lsn p), ALsn (tn_lsn s)])
      else common_loop ps ss (Suc i) (Some i))"
| "common_loop _ _ i last_common = Inr last_common"

definition find_highest_common_point :: "TermHistory \<Rightarrow> TermHistory \<Rightarrow> Lsn \<Rightarrow> Error + TermLsn option" where
  "find_highest_common_point prop sk sk_wal_end =
     (if sk \<noteq> [] \<and> sk_wal_end < tn_lsn (last sk)
      then Inl (Protocol ''acceptor term history ends at {:?}, above its WAL end {sk_wal_end}''
                 [ATermLsn (last sk), ALsn sk_wal_end])
      else check (common_loop prop sk 0 None) (\<lambda>last_common. case last_common of
          None \<Rightarrow> Inr None
        | Some i \<Rightarrow>
            let lsn = (if i = length prop - 1 then sk_wal_end
                  else let prop_end = tn_lsn (prop ! (i + 1));
                           sk_end = (if i + 1 < length sk then tn_lsn (sk ! (i + 1)) else sk_wal_end)
                       in min prop_end sk_end)
            in Inr (Some \<lparr>tn_term = tn_term (prop ! i), tn_lsn = lsn\<rparr>)))"

section \<open>Configurations and the head\<close>

record SafekeeperId =
  sk_id :: NodeId
  sk_host :: string
  sk_pg_port :: nat

record Configuration =
  mc_generation :: u32
  mc_members :: "SafekeeperId list"
  mc_new_members :: "SafekeeperId list option"

definition Configuration_default :: Configuration where
  "Configuration_default = \<lparr>mc_generation = 0, mc_members = [], mc_new_members = None\<rparr>"

definition conf_contains :: "Configuration \<Rightarrow> NodeId \<Rightarrow> bool" where
  "conf_contains mc node \<longleftrightarrow> list_ex (\<lambda>m. sk_id m = node) (mc_members mc)
     \<or> (case mc_new_members mc of Some ms \<Rightarrow> list_ex (\<lambda>m. sk_id m = node) ms | None \<Rightarrow> False)"

record ServerInfo =
  sv_pg_version :: u32
  sv_system_id :: u64
  sv_wal_seg_size :: u32

definition pg_major :: "ServerInfo \<Rightarrow> u32 option" where
  "pg_major sv = (if sv_pg_version sv \<noteq> 0 then Some (sv_pg_version sv div 10000) else None)"

record AcceptorState =
  st_term :: Term
  st_term_history :: TermHistory
  st_mconf :: Configuration
  st_server :: ServerInfo
  st_flush_lsn :: Lsn
  st_commit_lsn :: Lsn
  st_peer_horizon_lsn :: Lsn
  st_backup_lsn :: Lsn
  st_remote_consistent_lsn :: Lsn
  st_timeline_start_lsn :: Lsn
  st_local_start_lsn :: Lsn
  st_trimmed_lsn :: Lsn

definition AcceptorState_new :: "ServerInfo \<Rightarrow> Lsn \<Rightarrow> AcceptorState" where
  "AcceptorState_new server start_lsn =
     \<lparr>st_term = 0, st_term_history = [], st_mconf = Configuration_default, st_server = server,
      st_flush_lsn = start_lsn, st_commit_lsn = start_lsn, st_peer_horizon_lsn = start_lsn,
      st_backup_lsn = start_lsn, st_remote_consistent_lsn = start_lsn, st_timeline_start_lsn = start_lsn,
      st_local_start_lsn = start_lsn, st_trimmed_lsn = start_lsn\<rparr>"

definition wal_end :: "AcceptorState \<Rightarrow> Lsn" where
  "wal_end st = max (st_flush_lsn st) (st_timeline_start_lsn st)"

definition stored_term_history :: "AcceptorState \<Rightarrow> TermHistory" where
  "stored_term_history st = up_to (st_term_history st) (wal_end st)"

definition last_log_term :: "AcceptorState \<Rightarrow> Term" where
  "last_log_term st = (case rev (stored_term_history st) of [] \<Rightarrow> 0 | e # _ \<Rightarrow> tn_term e)"

section \<open>Messages\<close>

record ProposerGreeting =
  pg_tenant_id :: Id
  pg_timeline_id :: Id
  pg_mconf :: Configuration
  pg_version :: u32
  pg_system_id :: u64
  pg_wal_seg_size :: u32

definition greeting_timeline :: "ProposerGreeting \<Rightarrow> TimelineId" where
  "greeting_timeline g = \<lparr>tl_tenant = pg_tenant_id g, tl_timeline = pg_timeline_id g\<rparr>"

record VoteRequest =
  vq_generation :: u32
  vq_term :: Term

record ProposerElected =
  pe_generation :: u32
  pe_term :: Term
  pe_start_streaming_at :: Lsn
  pe_term_history :: TermHistory

record AppendRequestHeader =
  ah_generation :: u32
  ah_term :: Term
  ah_begin_lsn :: Lsn
  ah_end_lsn :: Lsn
  ah_commit_lsn :: Lsn
  ah_truncate_lsn :: Lsn

record AppendRequest =
  aq_h :: AppendRequestHeader
  aq_wal :: "u8 list"

record AcceptorGreeting =
  ag_node_id :: NodeId
  ag_mconf :: Configuration
  ag_term :: Term

record VoteResponse =
  vr_generation :: u32
  vr_term :: Term
  vr_vote_given :: bool
  vr_flush_lsn :: Lsn
  vr_truncate_lsn :: Lsn
  vr_term_history :: TermHistory

record HotStandbyFeedback =
  hs_ts :: i64
  hs_xmin :: u64
  hs_catalog_xmin :: u64

definition HotStandbyFeedback_default :: HotStandbyFeedback where
  "HotStandbyFeedback_default = \<lparr>hs_ts = 0, hs_xmin = 0, hs_catalog_xmin = 0\<rparr>"

record PageserverFeedback =
  pf_current_timeline_size :: u64
  pf_last_received_lsn :: Lsn
  pf_disk_consistent_lsn :: Lsn
  pf_remote_consistent_lsn :: Lsn
  pf_replytime_us :: i64
  pf_shard_number :: u32
  pf_corruption_detected :: bool

record AppendResponse =
  ar_generation :: u32
  ar_term :: Term
  ar_flush_lsn :: Lsn
  ar_commit_lsn :: Lsn
  ar_hs_feedback :: HotStandbyFeedback
  ar_pageserver_feedback :: "PageserverFeedback option"

definition term_only :: "u32 \<Rightarrow> Term \<Rightarrow> AppendResponse" where
  "term_only generation term' =
     \<lparr>ar_generation = generation, ar_term = term', ar_flush_lsn = INVALID, ar_commit_lsn = INVALID,
      ar_hs_feedback = HotStandbyFeedback_default, ar_pageserver_feedback = None\<rparr>"

datatype AcceptorMessage =
    MGreeting AcceptorGreeting
  | MVoteResponse VoteResponse
  | MAppendResponse AppendResponse

section \<open>Round trip of the text\<close>

lemma hex_val_digit: "d < 16 \<Longrightarrow> hex_val (hex_digit d) = Some d"
proof -
  assume "d < 16"
  then have "d \<in> set [0..<16]" by simp
  then show ?thesis by (simp add: upt_rec hex_val_def hex_digit_def Let_def) (elim disjE; simp)
qed

lemma hex_digit_plain: "d < 16 \<Longrightarrow> hex_digit d \<noteq> CHR ''/'' \<and> hex_digit d \<noteq> CHR ''+''"
proof -
  assume "d < 16"
  then have "d \<in> set [0..<16]" by simp
  then show ?thesis by (simp add: upt_rec hex_digit_def) (elim disjE; simp)
qed

lemma hex_loop_append: "hex_loop acc (xs @ ys) = Option.bind (hex_loop acc xs) (\<lambda>a. hex_loop a ys)"
  by (induction acc xs rule: hex_loop.induct) (auto split: option.splits)

lemma hex_loop_show: "n \<le> U32_MAX \<Longrightarrow> hex_loop 0 (show_hex n) = Some n"
proof (induction n rule: show_hex.induct)
  case (1 n)
  show ?case
  proof (cases "n < 16")
    case True
    then show ?thesis using "1.prems" by (subst show_hex.simps) (simp add: hex_val_digit)
  next
    case False
    have "hex_loop 0 (show_hex (n div 16)) = Some (n div 16)" using 1 False by simp
    then show ?thesis using False "1.prems"
      by (subst show_hex.simps) (simp add: hex_loop_append hex_val_digit)
  qed
qed

lemma show_hex_plain: "c \<in> set (show_hex n) \<Longrightarrow> c \<noteq> CHR ''/'' \<and> c \<noteq> CHR ''+''"
proof (induction n rule: show_hex.induct)
  case (1 n)
  then show ?case by (subst (asm) (2) show_hex.simps) (auto simp: hex_digit_plain split: if_splits)
qed

lemma show_hex_nonempty: "show_hex n \<noteq> []"
  by (subst show_hex.simps) simp

lemma from_str_radix16_show: "n \<le> U32_MAX \<Longrightarrow> from_str_radix16 (show_hex n) = Some n"
  using show_hex_nonempty [of n] show_hex_plain [of "hd (show_hex n)" n] hex_loop_show [of n]
  by (cases "show_hex n") (auto simp: from_str_radix16_def)

lemma split_once_append: "sep \<notin> set xs \<Longrightarrow> split_once sep (xs @ sep # ys) = Some (xs, ys)"
  by (induction xs) auto

text \<open>
  C38. The text of an LSN, in Postgres' notation, parses back to the same LSN.
\<close>

theorem lsn_text_roundtrip:
  assumes "l \<le> U64_MAX"
  shows "lsn_from_str (show_lsn l) = Inr l"
proof -
  have "l div 2 ^ 32 \<le> U32_MAX" "l mod 2 ^ 32 \<le> U32_MAX"
    using assms by (simp_all add: U32_MAX_def U64_MAX_def)
  moreover have "CHR ''/'' \<notin> set (show_hex n)" for n using show_hex_plain by blast
  ultimately show ?thesis
    by (simp add: lsn_from_str_def show_lsn_def split_once_append from_str_radix16_show Let_def)
qed

theorem lsn_text_roundtrip_witness: "lsn_from_str ''1/6B59C00'' = Inr 4407532544"
proof -
  have "show_lsn 4407532544 = ''1/6B59C00''"
    by (simp add: show_lsn_def show_hex.simps hex_digit_def)
  then show ?thesis using lsn_text_roundtrip [of 4407532544] by (simp add: U64_MAX_def)
qed

section \<open>Where two histories diverge\<close>

text \<open>Terms grow along a history and never start before the term they follow.\<close>

definition ascending :: "TermHistory \<Rightarrow> bool" where
  "ascending h \<longleftrightarrow> sorted_wrt (\<lambda>a b. tn_term a < tn_term b \<and> tn_lsn a \<le> tn_lsn b) h"

text \<open>The term that wrote the WAL at a position.\<close>

definition term_at :: "TermHistory \<Rightarrow> Lsn \<Rightarrow> Term option" where
  "term_at h l = (case rev (up_to h l) of [] \<Rightarrow> None | e # _ \<Rightarrow> Some (tn_term e))"

lemma common_loop_prefix:
  "common_loop ps ss i lc = Inr lc' \<Longrightarrow>
     \<exists>k. k \<le> length ps \<and> k \<le> length ss \<and> take k ps = take k ss \<and> lc' = (if k = 0 then lc else Some (i + k - 1))
       \<and> (k < length ps \<longrightarrow> k < length ss \<longrightarrow> tn_term (ps ! k) \<noteq> tn_term (ss ! k))"
proof (induction ps ss i lc rule: common_loop.induct)
  case (1 p ps s ss i lc)
  show ?case
  proof (cases "tn_term p = tn_term s")
    case True
    then have lsn: "tn_lsn p = tn_lsn s" and rec: "common_loop ps ss (Suc i) (Some i) = Inr lc'"
      using "1.prems" by (auto split: if_splits)
    obtain k where k: "k \<le> length ps" "k \<le> length ss" "take k ps = take k ss"
      "lc' = (if k = 0 then Some i else Some (Suc i + k - 1))"
      "k < length ps \<longrightarrow> k < length ss \<longrightarrow> tn_term (ps ! k) \<noteq> tn_term (ss ! k)"
      using "1.IH" [OF _ _ rec] True lsn by auto
    then show ?thesis using True lsn by (intro exI [of _ "Suc k"]) (auto split: if_splits)
  qed (use "1.prems" in \<open>auto intro!: exI [of _ 0]\<close>)
qed (auto intro!: exI [of _ 0])

lemma up_to_cut:
  assumes "\<And>e. e \<in> set ys \<Longrightarrow> l < tn_lsn e"
  shows "up_to (xs @ ys) l = up_to xs l"
proof (induction xs)
  case Nil
  show ?case using assms [of "hd ys"] by (cases ys) (simp_all add: up_to_def)
qed (simp add: up_to_def)

lemma ascending_nth: "ascending h \<Longrightarrow> i \<le> j \<Longrightarrow> j < length h \<Longrightarrow> tn_lsn (h ! i) \<le> tn_lsn (h ! j)"
  by (cases "i = j") (auto simp: ascending_def sorted_wrt_iff_nth_less)

lemma up_to_take:
  assumes "ascending h" "k < length h \<Longrightarrow> l < tn_lsn (h ! k)"
  shows "up_to h l = up_to (take k h) l"
proof -
  have "l < tn_lsn e" if e: "e \<in> set (drop k h)" for e
  proof -
    obtain j where j: "j < length (drop k h)" "e = drop k h ! j" using e unfolding in_set_conv_nth by blast
    have len: "k + j < length h" using j(1) by simp
    have "tn_lsn (h ! k) \<le> tn_lsn (h ! (k + j))" by (rule ascending_nth [OF assms(1) _ len]) simp
    moreover have "e = h ! (k + j)" using j(2) len by simp
    moreover have "l < tn_lsn (h ! k)" by (rule assms(2)) (use len in simp)
    ultimately show ?thesis by simp
  qed
  then have "up_to (take k h @ drop k h) l = up_to (take k h) l" by (rule up_to_cut)
  then show ?thesis unfolding append_take_drop_id .
qed

lemma common_point_cases:
  assumes "find_highest_common_point prop sk sk_end = Inr (Some point)"
  obtains k where "k \<noteq> 0" "k \<le> length prop" "k \<le> length sk" "take k prop = take k sk" "tn_lsn (last sk) \<le> sk_end"
    "tn_lsn point = (if k = length prop then sk_end
       else min (tn_lsn (prop ! k)) (if k < length sk then tn_lsn (sk ! k) else sk_end))"
proof -
  obtain lc where lc: "common_loop prop sk 0 None = Inr lc"
    using assms by (cases "common_loop prop sk 0 None") (auto simp: find_highest_common_point_def split: if_splits)
  then obtain i where i: "common_loop prop sk 0 None = Inr (Some i)"
    using assms by (cases lc) (auto simp: find_highest_common_point_def split: if_splits)
  then obtain k where k: "k \<le> length prop" "k \<le> length sk" "take k prop = take k sk" "k \<noteq> 0" "k = Suc i"
    using common_loop_prefix [OF i] by (auto split: if_splits)
  have "i = length prop - 1 \<longleftrightarrow> k = length prop" using k(1,5) by auto
  then have "tn_lsn point = (if k = length prop then sk_end
      else min (tn_lsn (prop ! k)) (if k < length sk then tn_lsn (sk ! k) else sk_end))"
    using assms i k(5) by (auto simp: find_highest_common_point_def Let_def split: if_splits)
  moreover have "tn_lsn (last sk) \<le> sk_end"
    using assms k(2,4) by (auto simp: find_highest_common_point_def split: if_splits)
  ultimately show thesis using that k by blast
qed

lemma ascending_le_last: "ascending h \<Longrightarrow> i < length h \<Longrightarrow> tn_lsn (h ! i) \<le> tn_lsn (last h)"
  using ascending_nth [of h i "length h - 1"] by (cases "h = []") (simp_all add: last_conv_nth)

lemma common_point_le:
  assumes "find_highest_common_point prop sk sk_end = Inr (Some point)" "ascending sk"
  shows "tn_lsn point \<le> sk_end"
proof -
  obtain k where "tn_lsn (last sk) \<le> sk_end" "tn_lsn point = (if k = length prop then sk_end
      else min (tn_lsn (prop ! k)) (if k < length sk then tn_lsn (sk ! k) else sk_end))"
    using common_point_cases [OF assms(1)] by metis
  then show ?thesis using ascending_le_last [OF assms(2), of k] by (auto simp: min_le_iff_disj)
qed

lemma common_point_ge:
  assumes "find_highest_common_point prop sk sk_end = Inr (Some point)" "ascending prop" "ascending sk"
  shows "prop \<noteq> [] \<and> tn_lsn (hd prop) \<le> tn_lsn point"
proof -
  obtain k where k: "k \<noteq> 0" "k \<le> length prop" "k \<le> length sk" "take k prop = take k sk" "tn_lsn (last sk) \<le> sk_end"
    and point: "tn_lsn point = (if k = length prop then sk_end
      else min (tn_lsn (prop ! k)) (if k < length sk then tn_lsn (sk ! k) else sk_end))"
    using common_point_cases [OF assms(1)] by metis
  have hd: "hd prop = prop ! 0" "prop ! 0 = sk ! 0"
    using k(1-3) arg_cong [OF k(4), of "\<lambda>xs. xs ! 0"] by ((cases "prop"; simp)+)
  have sk0: "tn_lsn (sk ! 0) \<le> sk_end" using ascending_le_last [OF assms(3), of 0] k(1,3,5) by (cases sk; simp)
  have "tn_lsn (sk ! 0) \<le> tn_lsn (sk ! k)" if "k < length sk" using ascending_nth [OF assms(3), of 0 k] that by simp
  moreover have "tn_lsn (prop ! 0) \<le> tn_lsn (prop ! k)" if "k < length prop" using ascending_nth [OF assms(2), of 0 k] that by simp
  ultimately show ?thesis using k(1,2) hd sk0 point by auto
qed

text \<open>The acceptor's history does not go on in the proposer's last term.\<close>

lemma common_last:
  assumes "take k prop = take k sk" "k = length prop" "k \<noteq> 0" "ascending sk"
    and newest: "\<forall>e \<in> set sk. tn_term e \<le> tn_term (last prop)"
  shows "\<not> k < length sk"
proof
  assume lt: "k < length sk"
  have "last prop = take k prop ! (k - 1)" using assms(2,3) by (simp add: last_conv_nth)
  then have "last prop = sk ! (k - 1)" unfolding assms(1) using assms(3) by simp
  moreover have "tn_term (sk ! (k - 1)) < tn_term (sk ! k)"
    using assms(3,4) lt by (auto simp: ascending_def sorted_wrt_iff_nth_less)
  moreover have "tn_term (sk ! k) \<le> tn_term (last prop)" using newest lt by simp
  ultimately show False by simp
qed

text \<open>
  C36. Two ascending term histories agree below their highest common point: every position below it was
  written by the same term for the proposer and for the acceptor, and the point is not above
  the acceptor's WAL end. The proposer is the newest one the acceptor knows of.
\<close>

theorem common_point_agrees:
  assumes "find_highest_common_point prop sk sk_end = Inr (Some point)"
    and asc: "ascending prop" "ascending sk" and newest: "\<forall>e \<in> set sk. tn_term e \<le> tn_term (last prop)"
  shows "tn_lsn point \<le> sk_end \<and> (\<forall>l < tn_lsn point. term_at prop l = term_at sk l)"
proof -
  obtain k where k: "k \<noteq> 0" "k \<le> length prop" "k \<le> length sk" "take k prop = take k sk"
    and point: "tn_lsn point = (if k = length prop then sk_end
      else min (tn_lsn (prop ! k)) (if k < length sk then tn_lsn (sk ! k) else sk_end))"
    using common_point_cases [OF assms(1)] by metis
  have "up_to prop l = up_to sk l" if "l < tn_lsn point" for l
  proof -
    have "up_to prop l = up_to (take k prop) l"
      by (rule up_to_take [OF asc(1)]) (use that in \<open>simp add: point split: if_splits\<close>)
    moreover have "up_to sk l = up_to (take k sk) l"
      by (rule up_to_take [OF asc(2)])
        (use that common_last [OF k(4) _ k(1) asc(2) newest] in \<open>simp add: point split: if_splits\<close>)
    ultimately show ?thesis using k(4) by simp
  qed
  then show ?thesis using common_point_le [OF assms(1) asc(2)] by (simp add: term_at_def)
qed

definition demo_prop :: TermHistory where
  "demo_prop = [\<lparr>tn_term = 1, tn_lsn = 10\<rparr>, \<lparr>tn_term = 2, tn_lsn = 20\<rparr>, \<lparr>tn_term = 4, tn_lsn = 40\<rparr>]"

definition demo_sk :: TermHistory where
  "demo_sk = [\<lparr>tn_term = 1, tn_lsn = 10\<rparr>, \<lparr>tn_term = 2, tn_lsn = 20\<rparr>, \<lparr>tn_term = 3, tn_lsn = 30\<rparr>]"

theorem common_point_agrees_witness:
  "find_highest_common_point demo_prop demo_sk 40 = Inr (Some \<lparr>tn_term = 2, tn_lsn = 30\<rparr>)
     \<and> term_at demo_prop 25 = term_at demo_sk 25"
proof
  show eq: "find_highest_common_point demo_prop demo_sk 40 = Inr (Some \<lparr>tn_term = 2, tn_lsn = 30\<rparr>)"
    by (simp add: find_highest_common_point_def demo_prop_def demo_sk_def)
  show "term_at demo_prop 25 = term_at demo_sk 25"
    using common_point_agrees [OF eq] by (simp add: demo_prop_def demo_sk_def ascending_def)
qed

end
