(* ===== verification/WalStore.thy ===== *)
theory WalStore
  imports SkTypes
begin

text \<open>
  The storage behind the WAL acceptor (\<open>loams-safekeeper/src/store.rs\<close>): the pure transition
  functions every store applies to the head of a timeline, and the store that keeps heads and
  WAL chunks in memory, \<open>MemWalStore\<close>, with its reads and trims.
\<close>

section \<open>Batches and plans\<close>

record Deposed =
  dp_current :: Term

record AppendBatch =
  ab_term :: Term
  ab_begin_lsn :: Lsn
  ab_wal :: "u8 list list"
  ab_commit_lsn :: Lsn
  ab_truncate_lsn :: Lsn

definition batch_len :: "AppendBatch \<Rightarrow> u64" where
  "batch_len b = wsum64 (map length (ab_wal b))"

definition batch_is_empty :: "AppendBatch \<Rightarrow> bool" where
  "batch_is_empty b \<longleftrightarrow> list_all (\<lambda>c. c = []) (ab_wal b)"

definition batch_end_lsn :: "AppendBatch \<Rightarrow> Error + Lsn" where
  "batch_end_lsn b = lsn_checked_add (ab_begin_lsn b) (batch_len b)"

record AppendPlan =
  pl_write_from :: Lsn
  pl_skip :: u64

section \<open>The transition functions\<close>

text \<open>
  A function that mutates the head returns the head it leaves. \<open>Result<Result<T, Deposed>, Error>\<close>
  is \<open>Error + (Deposed + T)\<close>.
\<close>

definition apply_vote :: "AcceptorState \<Rightarrow> Term \<Rightarrow> AcceptorState \<times> bool" where
  "apply_vote st term' = (if st_term st < term' then (st\<lparr>st_term := term'\<rparr>, True) else (st, False))"

text \<open>The head once an elected proposer's history is adopted, the second half of \<open>apply_elected\<close>.\<close>

definition elected_starts :: "AcceptorState \<Rightarrow> ProposerElected \<Rightarrow> AcceptorState" where
  "elected_starts st msg =
     (let start = (case pe_term_history msg of e # _ \<Rightarrow> tn_lsn e | [] \<Rightarrow> INVALID);
          st = (if st_timeline_start_lsn st = INVALID then st\<lparr>st_timeline_start_lsn := start\<rparr> else st)
      in if st_peer_horizon_lsn st = INVALID then st\<lparr>st_peer_horizon_lsn := st_timeline_start_lsn st\<rparr> else st)"

definition elected_first_wal :: "AcceptorState \<Rightarrow> ProposerElected \<Rightarrow> AcceptorState" where
  "elected_first_wal st msg =
     (if st_flush_lsn st = INVALID
      then let st = (if st_local_start_lsn st = INVALID then st\<lparr>st_local_start_lsn := pe_start_streaming_at msg\<rparr> else st)
           in if st_trimmed_lsn st = INVALID then st\<lparr>st_trimmed_lsn := st_local_start_lsn st\<rparr> else st
      else st)"

definition adopt_elected :: "AcceptorState \<Rightarrow> ProposerElected \<Rightarrow> AcceptorState" where
  "adopt_elected st msg =
     (let st = elected_first_wal (elected_starts st msg) msg in
      st\<lparr>st_commit_lsn := max (st_commit_lsn st) (st_timeline_start_lsn st),
        st_backup_lsn := max (st_backup_lsn st) (st_timeline_start_lsn st),
        st_remote_consistent_lsn := max (st_remote_consistent_lsn st) (st_timeline_start_lsn st),
        st_flush_lsn := pe_start_streaming_at msg,
        st_term_history := pe_term_history msg\<rparr>)"

definition apply_elected :: "AcceptorState \<Rightarrow> ProposerElected \<Rightarrow> AcceptorState \<times> (Error + (Deposed + Lsn))" where
  "apply_elected st0 msg =
     (if st_term st0 > pe_term msg then (st0, Inr (Inl \<lparr>dp_current = st_term st0\<rparr>))
      else
        let st = st0\<lparr>st_term := pe_term msg\<rparr> in
        attempt st (find_highest_common_point (pe_term_history msg) (stored_term_history st) (wal_end st)) (\<lambda>lcp.
        attempt st (case lcp of
            Some p \<Rightarrow> Inr p
          | None \<Rightarrow> (case pe_term_history msg of
                e # _ \<Rightarrow> Inr e
              | [] \<Rightarrow> Inl (Protocol ''ProposerElected with an empty term history'' []))) (\<lambda>lcp.
        if tn_lsn lcp \<noteq> pe_start_streaming_at msg
        then (st, Inl (Protocol ''ProposerElected: truncation point {} differs from the common point {:?} (acceptor history {:?}, WAL end {}); the proposer reconnects''
               [ALsn (pe_start_streaming_at msg), ATermLsn lcp, AHistory (stored_term_history st), ALsn (wal_end st)]))
        else if pe_start_streaming_at msg < st_commit_lsn st
        then (st, Inl (Protocol ''ProposerElected would truncate committed WAL: start {} < commit {}''
               [ALsn (pe_start_streaming_at msg), ALsn (st_commit_lsn st)]))
        else (adopt_elected st msg, Inr (Inr (pe_start_streaming_at msg))))))"

definition append_plan :: "Lsn \<Rightarrow> AppendBatch \<Rightarrow> Lsn \<Rightarrow> Error + AppendPlan" where
  "append_plan flush batch end' =
     (if batch_is_empty batch \<or> end' \<le> flush
      then Inr \<lparr>pl_write_from = end', pl_skip = batch_len batch\<rparr>
      else if ab_begin_lsn batch < flush
      then Inr \<lparr>pl_write_from = flush, pl_skip = flush - ab_begin_lsn batch\<rparr>
      else if ab_begin_lsn batch > flush \<and> flush \<noteq> INVALID
      then Inl (Protocol ''AppendRequest at {} leaves a gap after the WAL end {flush}''
             [ALsn (ab_begin_lsn batch), ALsn flush])
      else Inr \<lparr>pl_write_from = ab_begin_lsn batch, pl_skip = 0\<rparr>)"

text \<open>The head after an accepted batch that ends at \<open>end'\<close>.\<close>

definition append_head :: "AcceptorState \<Rightarrow> AppendBatch \<Rightarrow> Lsn \<Rightarrow> AcceptorState" where
  "append_head st batch end' =
     (let st = st\<lparr>st_flush_lsn := max (st_flush_lsn st) end'\<rparr>;
          st = (if ab_commit_lsn batch \<noteq> INVALID
                then st\<lparr>st_commit_lsn := max (st_commit_lsn st) (min (ab_commit_lsn batch) (wal_end st))\<rparr> else st)
      in st\<lparr>st_peer_horizon_lsn := max (st_peer_horizon_lsn st) (ab_truncate_lsn batch)\<rparr>)"

definition apply_append :: "AcceptorState \<Rightarrow> AppendBatch \<Rightarrow> AcceptorState \<times> (Error + (Deposed + AppendPlan))" where
  "apply_append st batch =
     (if st_term st > ab_term batch then (st, Inr (Inl \<lparr>dp_current = st_term st\<rparr>))
      else if st_term st < ab_term batch
      then (st, Inl (Protocol ''AppendRequest of term {} before ProposerElected (acceptor term {})''
             [ANat (ab_term batch), ANat (st_term st)]))
      else
        attempt st (batch_end_lsn batch) (\<lambda>end'.
        attempt st (append_plan (st_flush_lsn st) batch end') (\<lambda>plan.
        (append_head st batch end', Inr (Inr plan)))))"

definition apply_commit_lsn :: "AcceptorState \<Rightarrow> Term \<Rightarrow> Lsn \<Rightarrow> AcceptorState \<times> (Error + (Deposed + unit))" where
  "apply_commit_lsn st term' commit_lsn =
     (if st_term st > term' then (st, Inr (Inl \<lparr>dp_current = st_term st\<rparr>))
      else if st_term st < term'
      then (st, Inl (Protocol ''commit_lsn of term {term} above the stored term {}'' [ANat term', ANat (st_term st)]))
      else (st\<lparr>st_commit_lsn := max (st_commit_lsn st) (min commit_lsn (wal_end st))\<rparr>, Inr (Inr ())))"

text \<open>The loop of \<open>remaining_chunks\<close>, with the bytes still to skip.\<close>

fun skip_chunks :: "u64 \<Rightarrow> u8 list list \<Rightarrow> u8 list list" where
  "skip_chunks skip [] = []"
| "skip_chunks skip (c # cs) =
     (if skip \<ge> length c then skip_chunks (skip - length c) cs else drop skip c # skip_chunks 0 cs)"

definition remaining_chunks :: "AppendBatch \<Rightarrow> AppendPlan \<Rightarrow> u8 list list" where
  "remaining_chunks batch plan = skip_chunks (pl_skip plan) (ab_wal batch)"

definition trim_bound :: "AcceptorState \<Rightarrow> Lsn \<Rightarrow> Lsn" where
  "trim_bound st want =
     max (min (min (min (min want (st_backup_lsn st)) (st_remote_consistent_lsn st)) (st_commit_lsn st)) (wal_end st))
       (st_trimmed_lsn st)"

section \<open>A timeline in memory\<close>

record MemTimeline =
  mt_head :: AcceptorState
  mt_wal :: "(u64, u8 list) btree_map"

text \<open>\<open>BTreeMap::split_off\<close> as the part it keeps and the part it returns.\<close>

definition bm_below :: "'k::linorder \<Rightarrow> ('k, 'v) btree_map \<Rightarrow> ('k, 'v) btree_map" where
  "bm_below k m = bm_retain (\<lambda>k' _. k' < k) m"

definition bm_from :: "'k::linorder \<Rightarrow> ('k, 'v) btree_map \<Rightarrow> ('k, 'v) btree_map" where
  "bm_from k m = bm_retain (\<lambda>k' _. k \<le> k') m"

definition truncate_wal :: "(u64, u8 list) btree_map \<Rightarrow> Lsn \<Rightarrow> (u64, u8 list) btree_map" where
  "truncate_wal w at =
     (let w = bm_below at w in
      case rev (bm_iter w) of
        [] \<Rightarrow> w
      | (begin', chunk) # _ \<Rightarrow>
          if wadd64 begin' (length chunk) > at then bm_insert begin' (take (at - begin') chunk) w else w)"

definition tl_update_meta :: "ServerInfo \<Rightarrow> Configuration option \<Rightarrow> MemTimeline \<Rightarrow> MemTimeline \<times> (Error + AcceptorState)" where
  "tl_update_meta server mconf t =
     (let h = (mt_head t)\<lparr>st_server := server\<rparr>;
          h = (case mconf of Some mc \<Rightarrow> h\<lparr>st_mconf := mc\<rparr> | None \<Rightarrow> h)
      in (t\<lparr>mt_head := h\<rparr>, Inr h))"

definition tl_vote :: "Term \<Rightarrow> MemTimeline \<Rightarrow> MemTimeline \<times> (Error + bool \<times> AcceptorState)" where
  "tl_vote term' t = (let (h, given) = apply_vote (mt_head t) term' in (t\<lparr>mt_head := h\<rparr>, Inr (given, h)))"

definition tl_elected :: "ProposerElected \<Rightarrow> MemTimeline \<Rightarrow> MemTimeline \<times> (Error + (Deposed + AcceptorState))" where
  "tl_elected msg t = (case apply_elected (mt_head t) msg of
     (h, Inl e) \<Rightarrow> (t\<lparr>mt_head := h\<rparr>, Inl e)
   | (h, Inr (Inl d)) \<Rightarrow> (t\<lparr>mt_head := h\<rparr>, Inr (Inl d))
   | (h, Inr (Inr at)) \<Rightarrow> (t\<lparr>mt_head := h, mt_wal := truncate_wal (mt_wal t) at\<rparr>, Inr (Inr h)))"

fun put_chunks :: "u64 \<Rightarrow> u8 list list \<Rightarrow> (u64, u8 list) btree_map \<Rightarrow> (u64, u8 list) btree_map" where
  "put_chunks at [] w = w"
| "put_chunks at (c # cs) w =
     put_chunks (wadd64 at (length c)) cs (if length c > 0 then bm_insert at c w else w)"

definition tl_append :: "AppendBatch \<Rightarrow> MemTimeline \<Rightarrow> MemTimeline \<times> (Error + (Deposed + AcceptorState))" where
  "tl_append batch t = (case apply_append (mt_head t) batch of
     (h, Inl e) \<Rightarrow> (t\<lparr>mt_head := h\<rparr>, Inl e)
   | (h, Inr (Inl d)) \<Rightarrow> (t\<lparr>mt_head := h\<rparr>, Inr (Inl d))
   | (h, Inr (Inr plan)) \<Rightarrow>
       (t\<lparr>mt_head := h, mt_wal := put_chunks (pl_write_from plan) (remaining_chunks batch plan) (mt_wal t)\<rparr>,
        Inr (Inr h)))"

definition tl_record_commit_lsn :: "Term \<Rightarrow> Lsn \<Rightarrow> MemTimeline \<Rightarrow> MemTimeline \<times> (Error + (Deposed + unit))" where
  "tl_record_commit_lsn term' commit_lsn t =
     (let (h, r) = apply_commit_lsn (mt_head t) term' commit_lsn in (t\<lparr>mt_head := h\<rparr>, r))"

definition tl_record_backup_lsn :: "Lsn \<Rightarrow> MemTimeline \<Rightarrow> MemTimeline \<times> (Error + unit)" where
  "tl_record_backup_lsn lsn t = (let h = mt_head t in
     (t\<lparr>mt_head := h\<lparr>st_backup_lsn := max (st_backup_lsn h) (min lsn (wal_end h))\<rparr>\<rparr>, Inr ()))"

definition tl_record_remote_consistent_lsn :: "Lsn \<Rightarrow> MemTimeline \<Rightarrow> MemTimeline \<times> (Error + unit)" where
  "tl_record_remote_consistent_lsn lsn t = (let h = mt_head t in
     (t\<lparr>mt_head := h\<lparr>st_remote_consistent_lsn := max (st_remote_consistent_lsn h) lsn\<rparr>\<rparr>, Inr ()))"

text \<open>Where the chunks a trim keeps begin: the chunk that contains the bound stays.\<close>

definition keep_from :: "(u64, u8 list) btree_map \<Rightarrow> Lsn \<Rightarrow> u64" where
  "keep_from w bound = (case bm_last_le w bound of
     Some (b, c) \<Rightarrow> if wadd64 b (length c) > bound then b else bound
   | None \<Rightarrow> bound)"

definition tl_trim :: "Lsn \<Rightarrow> MemTimeline \<Rightarrow> MemTimeline \<times> (Error + Lsn)" where
  "tl_trim lsn t =
     (let bound = trim_bound (mt_head t) lsn
      in (t\<lparr>mt_head := (mt_head t)\<lparr>st_trimmed_lsn := bound\<rparr>,
            mt_wal := bm_from (keep_from (mt_wal t) bound) (mt_wal t)\<rparr>, Inr bound))"

text \<open>
  The loop of \<open>read_chunks\<close>: the position and the budget are those left when the loop reaches
  the chunk.
\<close>

primrec read_loop :: "Lsn \<Rightarrow> (u64 \<times> u8 list) list \<Rightarrow> u64 \<Rightarrow> u64 \<Rightarrow> Error + (Lsn \<times> u8 list) list" where
  "read_loop end' [] at budget = Inr []"
| "read_loop end' (next # cs) at budget = (case next of (begin', chunk) \<Rightarrow>
     if budget = 0 \<or> at \<ge> end' then Inr []
     else let chunk_end = min (wadd64 begin' (length chunk)) end' in
       if chunk_end \<le> at then read_loop end' cs at budget
       else if begin' > at
       then Inl (Store ''WAL hole at {} (next chunk at {begin:#x})'' [ALsn at, ANat begin'])
       else let lo = at - begin'; hi = min (chunk_end - begin') (sat_add64 lo budget) in
         check (read_loop end' cs (wadd64 begin' hi) (budget - (hi - lo))) (\<lambda>out.
           Inr ((at, drop lo (take hi chunk)) # out)))"

definition read_chunks :: "AcceptorState \<Rightarrow> (u64 \<times> u8 list) list \<Rightarrow> Lsn \<Rightarrow> u64 \<Rightarrow> Error + (Lsn \<times> u8 list) list" where
  "read_chunks head chunks from' max_bytes =
     (if from' < st_trimmed_lsn head then Inl (Trimmed from' (st_trimmed_lsn head))
      else read_loop (st_flush_lsn head) chunks from' max_bytes)"

section \<open>The store in memory\<close>

text \<open>
  The hash map of the store; its lock is held for a whole call, so calls are steps on the map.
  \<open>with_tl\<close> is \<open>MemWalStore::with\<close>: an error leaves the timeline as it was.
\<close>

type_synonym MemWalStore = "TimelineId \<Rightarrow> MemTimeline option"

definition with_tl :: "MemWalStore \<Rightarrow> TimelineId \<Rightarrow> (MemTimeline \<Rightarrow> MemTimeline \<times> (Error + 'a)) \<Rightarrow> MemWalStore \<times> (Error + 'a)" where
  "with_tl s tid f = (case s tid of
     None \<Rightarrow> (s, Inl (NotFound tid))
   | Some t \<Rightarrow> (case f t of (_, Inl e) \<Rightarrow> (s, Inl e) | (copy, Inr out) \<Rightarrow> (s(tid \<mapsto> copy), Inr out)))"

definition mem_load :: "MemWalStore \<Rightarrow> TimelineId \<Rightarrow> Error + AcceptorState option" where
  "mem_load s tid = Inr (map_option mt_head (s tid))"

definition mem_create :: "MemWalStore \<Rightarrow> TimelineId \<Rightarrow> ServerInfo \<Rightarrow> Lsn \<Rightarrow> MemWalStore \<times> (Error + AcceptorState)" where
  "mem_create s tid server start_lsn = (case s tid of
     Some t \<Rightarrow> (s, Inr (mt_head t))
   | None \<Rightarrow> let t = \<lparr>mt_head = AcceptorState_new server start_lsn, mt_wal = bm_empty\<rparr>
             in (s(tid \<mapsto> t), Inr (mt_head t)))"

definition mem_update_meta :: "MemWalStore \<Rightarrow> TimelineId \<Rightarrow> ServerInfo \<Rightarrow> Configuration option \<Rightarrow> MemWalStore \<times> (Error + AcceptorState)" where
  "mem_update_meta s tid server mconf = with_tl s tid (tl_update_meta server mconf)"

definition mem_vote :: "MemWalStore \<Rightarrow> TimelineId \<Rightarrow> Term \<Rightarrow> MemWalStore \<times> (Error + bool \<times> AcceptorState)" where
  "mem_vote s tid term' = with_tl s tid (tl_vote term')"

definition mem_elected :: "MemWalStore \<Rightarrow> TimelineId \<Rightarrow> ProposerElected \<Rightarrow> MemWalStore \<times> (Error + (Deposed + AcceptorState))" where
  "mem_elected s tid msg = with_tl s tid (tl_elected msg)"

definition mem_append :: "MemWalStore \<Rightarrow> TimelineId \<Rightarrow> AppendBatch \<Rightarrow> MemWalStore \<times> (Error + (Deposed + AcceptorState))" where
  "mem_append s tid batch = with_tl s tid (tl_append batch)"

definition mem_record_commit_lsn :: "MemWalStore \<Rightarrow> TimelineId \<Rightarrow> Term \<Rightarrow> Lsn \<Rightarrow> MemWalStore \<times> (Error + (Deposed + unit))" where
  "mem_record_commit_lsn s tid term' lsn = with_tl s tid (tl_record_commit_lsn term' lsn)"

definition mem_record_backup_lsn :: "MemWalStore \<Rightarrow> TimelineId \<Rightarrow> Lsn \<Rightarrow> MemWalStore \<times> (Error + unit)" where
  "mem_record_backup_lsn s tid lsn = with_tl s tid (tl_record_backup_lsn lsn)"

definition mem_record_remote_consistent_lsn :: "MemWalStore \<Rightarrow> TimelineId \<Rightarrow> Lsn \<Rightarrow> MemWalStore \<times> (Error + unit)" where
  "mem_record_remote_consistent_lsn s tid lsn = with_tl s tid (tl_record_remote_consistent_lsn lsn)"

definition mem_read :: "MemWalStore \<Rightarrow> TimelineId \<Rightarrow> Lsn \<Rightarrow> u64 \<Rightarrow> Error + (Lsn \<times> u8 list) list" where
  "mem_read s tid from' max_bytes = (case s tid of
     None \<Rightarrow> Inl (NotFound tid)
   | Some t \<Rightarrow> read_chunks (mt_head t) (bm_iter (mt_wal t)) from' max_bytes)"

definition mem_trim :: "MemWalStore \<Rightarrow> TimelineId \<Rightarrow> Lsn \<Rightarrow> MemWalStore \<times> (Error + Lsn)" where
  "mem_trim s tid lsn = with_tl s tid (tl_trim lsn)"

end
