(* ===== verification/WalInv.thy ===== *)
theory WalInv
  imports WalStore
begin

text \<open>
  The invariant of a timeline: its chunks tile the WAL without a hole from a low end at or
  below the low mark up to the flush LSN, and its LSNs are ordered. The held bytes are the
  contents of the WAL as one flat byte string; each operation of the store is shown to be
  one simple change of it.
\<close>

section \<open>Tiled chunks\<close>

fun tiled :: "u64 \<Rightarrow> (u64 \<times> u8 list) list \<Rightarrow> u64 \<Rightarrow> bool" where
  "tiled a [] e \<longleftrightarrow> a = e"
| "tiled a ((b, c) # cs) e \<longleftrightarrow> b = a \<and> c \<noteq> [] \<and> tiled (b + length c) cs e"

abbreviation flat_bytes :: "(u64 \<times> u8 list) list \<Rightarrow> u8 list" where
  "flat_bytes cs \<equiv> concat (map snd cs)"

lemma tiled_length: "tiled a cs e \<Longrightarrow> a + length (flat_bytes cs) = e"
  by (induction a cs e rule: tiled.induct) auto

lemma tiled_le: "tiled a cs e \<Longrightarrow> a \<le> e"
  using tiled_length by fastforce

lemma tiled_keys: "tiled a cs e \<Longrightarrow> p \<in> set cs \<Longrightarrow> a \<le> fst p \<and> fst p + length (snd p) \<le> e \<and> snd p \<noteq> []"
proof (induction a cs e rule: tiled.induct)
  case (2 a b c cs e)
  then show ?case using tiled_le [of "b + length c" cs e] by auto
qed simp

lemma tiled_key_less: "tiled a cs e \<Longrightarrow> p \<in> set cs \<Longrightarrow> fst p < e"
  using tiled_keys [of a cs e p] by (cases "snd p") auto

lemma tiled_append: "tiled a (xs @ ys) e \<longleftrightarrow> (\<exists>m. tiled a xs m \<and> tiled m ys e)"
  by (induction a xs e rule: tiled.induct) auto

lemma tiled_snoc: "tiled a cs e \<Longrightarrow> c \<noteq> [] \<Longrightarrow> tiled a (cs @ [(e, c)]) (e + length c)"
  by (simp add: tiled_append)

lemma tiled_zero: "tiled a cs 0 \<Longrightarrow> cs = [] \<and> a = 0"
  using tiled_key_less [of a cs 0 "hd cs"] tiled_le [of a cs 0] by (cases cs) auto

subsection \<open>Chunks put after the end\<close>

lemma put_chunks_tiled:
  assumes "tiled a (bm_iter w) at" "at + sum_list (map length cs) \<le> U64_MAX"
  shows "tiled a (bm_iter (put_chunks at cs w)) (at + sum_list (map length cs))
    \<and> flat_bytes (bm_iter (put_chunks at cs w)) = flat_bytes (bm_iter w) @ concat cs"
  using assms
proof (induction cs arbitrary: at w)
  case (Cons c cs)
  have at: "wadd64 at (length c) = at + length c" using Cons.prems(2) by (simp add: wadd64_exact)
  show ?case
  proof (cases "c = []")
    case True
    then show ?thesis using Cons at by simp
  next
    case False
    have iter: "bm_iter (bm_insert at c w) = bm_iter w @ [(at, c)]"
      using tiled_key_less [OF Cons.prems(1)] by (intro bm_iter_insert_last) auto
    have "tiled a (bm_iter (bm_insert at c w)) (at + length c)"
      unfolding iter by (rule tiled_snoc [OF Cons.prems(1) False])
    from Cons.IH [OF this] show ?thesis using Cons.prems(2) False at iter by (simp add: add.assoc)
  qed
qed simp

lemma skip_chunks_concat: "concat (skip_chunks n cs) = drop n (concat cs)"
  by (induction n cs rule: skip_chunks.induct) auto

lemma sum_length_concat: "sum_list (map length cs) = length (concat cs)"
  by (simp add: length_concat)

subsection \<open>The WAL cut at its end\<close>

lemma tiled_below:
  assumes "tiled a cs e" "a < at" "at \<le> e"
  obtains ys b c where "filter (\<lambda>(k, _). k < at) cs = ys @ [(b, c)]" "tiled a ys b" "b < at" "at \<le> b + length c"
    "b + length c \<le> e" "flat_bytes ys @ take (at - b) c = take (at - a) (flat_bytes cs)"
  using assms
proof (induction a cs e arbitrary: thesis rule: tiled.induct)
  case (2 a b c cs e)
  have tl: "tiled (b + length c) cs e" and b: "b = a" "c \<noteq> []" using "2.prems" by auto
  show ?case
  proof (cases "at \<le> b + length c")
    case True
    have "filter (\<lambda>(k, _). k < at) cs = []"
      using tiled_keys [OF tl] True by (fastforce simp: filter_empty_conv)
    then show ?thesis using "2.prems"(1) [of "[]" b c] "2.prems"(3) b True tiled_le [OF tl] by simp
  next
    case False
    obtain ys b' c' where "filter (\<lambda>(k, _). k < at) cs = ys @ [(b', c')]" "tiled (b + length c) ys b'" "b' < at"
      "at \<le> b' + length c'" "b' + length c' \<le> e"
      "flat_bytes ys @ take (at - b') c' = take (at - (b + length c)) (flat_bytes cs)"
      using "2.IH" [OF _ tl] False "2.prems"(4) by auto
    moreover have "take (at - a) c = c" using False b by simp
    ultimately show ?thesis using "2.prems"(1) [of "(b, c) # ys" b' c'] "2.prems"(3) b by simp
  qed
qed simp

lemma bm_iter_insert_replace:
  assumes "bm_iter m = xs @ (k, v) # ys"
  shows "bm_iter (bm_insert k v' m) = xs @ (k, v') # ys"
proof -
  have wf: "al_wf (xs @ (k, v) # ys)" using bm_iter_wf [of m] assms by simp
  have "bm_iter (bm_remove k m) = xs @ ys" by (rule bm_iter_remove_mid [OF assms])
  moreover have "\<forall>p \<in> set xs. fst p < k" "\<forall>p \<in> set ys. k < fst p"
    using wf by (auto simp: al_wf_def sorted_wrt_append)
  ultimately have "bm_iter (bm_insert k v' (bm_remove k m)) = xs @ (k, v') # ys" by (rule bm_iter_insert_mid)
  moreover have "bm_insert k v' (bm_remove k m) = bm_insert k v' m" by (rule bm_eqI) (auto simp: fun_eq_iff)
  ultimately show ?thesis by simp
qed

lemma truncate_wal_tiled:
  assumes "tiled a (bm_iter w) e" "a \<le> at" "at \<le> e" "e \<le> U64_MAX"
  shows "tiled a (bm_iter (truncate_wal w at)) at
    \<and> flat_bytes (bm_iter (truncate_wal w at)) = take (at - a) (flat_bytes (bm_iter w))"
proof (cases "a = at")
  case True
  then have "bm_iter (bm_below at w) = []"
    using tiled_keys [OF assms(1)] by (fastforce simp: bm_below_def bm_iter_retain filter_empty_conv)
  then show ?thesis using True by (simp add: truncate_wal_def)
next
  case False
  then have "a < at" using assms(2) by simp
  then obtain ys b c where cut: "filter (\<lambda>(k, _). k < at) (bm_iter w) = ys @ [(b, c)]" "tiled a ys b" "b < at"
    "at \<le> b + length c" "b + length c \<le> e" "flat_bytes ys @ take (at - b) c = take (at - a) (flat_bytes (bm_iter w))"
    using tiled_below [OF assms(1) _ assms(3)] by metis
  have iter: "bm_iter (bm_below at w) = ys @ [(b, c)]" using cut(1) by (simp add: bm_below_def bm_iter_retain)
  have e: "wadd64 b (length c) = b + length c" using cut(5) assms(4) by (simp add: wadd64_exact)
  have "bm_iter (truncate_wal w at) = ys @ [(b, take (at - b) c)]"
  proof (cases "b + length c > at")
    case True
    then show ?thesis using iter e bm_iter_insert_replace [OF iter] by (simp add: truncate_wal_def)
  next
    case False
    then show ?thesis using iter e cut(4) by (simp add: truncate_wal_def)
  qed
  then show ?thesis using cut by (auto simp: tiled_append)
qed

subsection \<open>The WAL cut at its beginning\<close>

lemma tiled_from:
  assumes "tiled a cs e" "a \<le> at" "at \<le> e"
  shows "case rev (takeWhile (\<lambda>(k, _). k \<le> at) cs) of
      [] \<Rightarrow> cs = [] \<and> at = e
    | (b, c) # _ \<Rightarrow> a \<le> b \<and> b \<le> at \<and> b + length c \<le> e \<and> (at < b + length c \<or> at = e)
        \<and> tiled b (filter (\<lambda>(k, _). b \<le> k) cs) e
        \<and> flat_bytes (filter (\<lambda>(k, _). b \<le> k) cs) = drop (b - a) (flat_bytes cs)"
  using assms
proof (induction a cs e rule: tiled.induct)
  case (2 a b c cs e)
  have tl: "tiled (b + length c) cs e" and b: "b = a" "c \<noteq> []" using "2.prems" by auto
  have all: "filter (\<lambda>(k, _). b \<le> k) cs = cs" using tiled_keys [OF tl] by (fastforce intro: filter_True)
  show ?case
  proof (cases "takeWhile (\<lambda>(k, _). k \<le> at) cs")
    case Nil
    have "at < b + length c \<or> at = e" 
    proof (cases cs)
      case (Cons p ps)
      then show ?thesis using Nil tl by (cases p) (auto split: if_splits)
    qed (use tl "2.prems"(3) in auto)
    then show ?thesis using Nil b "2.prems" tl all tiled_le [OF tl] by simp
  next
    case (Cons p ps)
    have le: "b + length c \<le> at" using Cons tl by (cases cs) (auto split: if_splits)
    obtain q qs where q: "rev (takeWhile (\<lambda>(k, _). k \<le> at) cs) = q # qs" using Cons by (cases "rev (p # ps)") auto
    obtain b' c' where bc: "q = (b', c')" by (cases q)
    have ih: "b + length c \<le> b'" "b' \<le> at" "b' + length c' \<le> e" "at < b' + length c' \<or> at = e"
      "tiled b' (filter (\<lambda>(k, _). b' \<le> k) cs) e"
      "flat_bytes (filter (\<lambda>(k, _). b' \<le> k) cs) = drop (b' - (b + length c)) (flat_bytes cs)"
      using "2.IH" [OF tl le "2.prems"(3)] by (simp_all add: q bc)
    have "\<not> b' \<le> b" using ih(1) b(2) by (cases c) auto
    then show ?thesis using ih q bc b "2.prems"(2) by simp
  qed
qed simp

lemma bm_from_tiled:
  assumes "tiled a (bm_iter w) e" "a \<le> at" "at \<le> e" "e \<le> U64_MAX"
  defines "keep \<equiv> keep_from w at"
  shows "\<exists>b \<le> at. tiled b (bm_iter (bm_from keep w)) e
    \<and> drop (at - b) (flat_bytes (bm_iter (bm_from keep w))) = drop (at - a) (flat_bytes (bm_iter w))"
proof (cases "rev (takeWhile (\<lambda>(k, _). k \<le> at) (bm_iter w))")
  case Nil
  then have "bm_iter w = []" "at = e" "keep = at"
    using tiled_from [OF assms(1-3)] by (simp_all add: keep_def keep_from_def bm_last_le_def)
  then show ?thesis by (auto simp: bm_from_def bm_iter_retain)
next
  case (Cons p ps)
  obtain b c where p: "p = (b, c)" by (cases p)
  have f: "a \<le> b" "b \<le> at" "b + length c \<le> e" "at < b + length c \<or> at = e"
    "tiled b (filter (\<lambda>(k, _). b \<le> k) (bm_iter w)) e"
    "flat_bytes (filter (\<lambda>(k, _). b \<le> k) (bm_iter w)) = drop (b - a) (flat_bytes (bm_iter w))"
    using tiled_from [OF assms(1-3)] by (simp_all add: Cons p)
  have e: "wadd64 b (length c) = b + length c" using f(3) assms(4) by (simp add: wadd64_exact)
  have keep': "keep = (if at < b + length c then b else at)" using e by (simp add: keep_def keep_from_def bm_last_le_def Cons p)
  show ?thesis
  proof (cases "at < b + length c")
    case True
    then show ?thesis using keep' f by (intro exI [of _ b]) (simp add: bm_from_def bm_iter_retain)
  next
    case False
    then have "at = e" using f(4) by simp
    moreover have "filter (\<lambda>(k, _). e \<le> k) (bm_iter w) = []"
      using tiled_key_less [OF assms(1)] by (fastforce simp: filter_empty_conv)
    ultimately show ?thesis using False keep' tiled_length [OF assms(1)]
      by (intro exI [of _ e]) (simp add: bm_from_def bm_iter_retain)
  qed
qed

section \<open>The invariant\<close>

definition wal_low :: "MemTimeline \<Rightarrow> Lsn" where
  "wal_low t = (case bm_iter (mt_wal t) of [] \<Rightarrow> st_flush_lsn (mt_head t) | (b, _) # _ \<Rightarrow> b)"

definition head_ok :: "AcceptorState \<Rightarrow> bool" where
  "head_ok h \<longleftrightarrow> st_local_start_lsn h \<le> st_trimmed_lsn h \<and> st_trimmed_lsn h \<le> st_commit_lsn h
     \<and> st_timeline_start_lsn h \<le> st_commit_lsn h \<and> st_commit_lsn h \<le> st_flush_lsn h
     \<and> st_flush_lsn h \<le> U64_MAX \<and> ascending (st_term_history h)
     \<and> (st_flush_lsn h \<noteq> INVALID \<longrightarrow> st_timeline_start_lsn h \<noteq> INVALID)"

definition tl_ok :: "MemTimeline \<Rightarrow> bool" where
  "tl_ok t \<longleftrightarrow> head_ok (mt_head t) \<and> wal_low t \<le> st_trimmed_lsn (mt_head t)
     \<and> tiled (wal_low t) (bm_iter (mt_wal t)) (st_flush_lsn (mt_head t))"

text \<open>The bytes from the low mark to the flush LSN.\<close>

definition held :: "MemTimeline \<Rightarrow> u8 list" where
  "held t = drop (st_trimmed_lsn (mt_head t) - wal_low t) (flat_bytes (bm_iter (mt_wal t)))"

lemma wal_low_eq: "tiled a (bm_iter (mt_wal t)) (st_flush_lsn (mt_head t)) \<Longrightarrow> wal_low t = a"
  by (auto simp: wal_low_def split: list.splits)

lemma tl_okI:
  assumes "head_ok (mt_head t)" "a \<le> st_trimmed_lsn (mt_head t)"
    "tiled a (bm_iter (mt_wal t)) (st_flush_lsn (mt_head t))"
  shows "tl_ok t"
  using assms wal_low_eq [OF assms(3)] by (simp add: tl_ok_def)

lemma held_length: "tl_ok t \<Longrightarrow> st_trimmed_lsn (mt_head t) + length (held t) = st_flush_lsn (mt_head t)"
  using tiled_length [of "wal_low t" "bm_iter (mt_wal t)" "st_flush_lsn (mt_head t)"]
  by (auto simp: tl_ok_def head_ok_def held_def)

lemma wal_end_flush [simp]: "head_ok h \<Longrightarrow> wal_end h = st_flush_lsn h"
  by (simp add: wal_end_def head_ok_def)

lemma ascending_up_to: "ascending h \<Longrightarrow> ascending (up_to h l)"
  unfolding ascending_def up_to_def by (subst takeWhile_eq_take) (rule sorted_wrt_take)


section \<open>Operations as steps\<close>

datatype wal_op =
    OCreate ServerInfo Lsn
  | OMeta ServerInfo "Configuration option"
  | OVote Term
  | OElected ProposerElected
  | OAppend AppendBatch
  | OCommit Term Lsn
  | OBackup Lsn
  | ORemote Lsn
  | OTrim Lsn

fun mem_step :: "MemWalStore \<Rightarrow> TimelineId \<times> wal_op \<Rightarrow> MemWalStore" where
  "mem_step s (tid, OCreate server l) = fst (mem_create s tid server l)"
| "mem_step s (tid, OMeta server mc) = fst (mem_update_meta s tid server mc)"
| "mem_step s (tid, OVote n) = fst (mem_vote s tid n)"
| "mem_step s (tid, OElected m) = fst (mem_elected s tid m)"
| "mem_step s (tid, OAppend b) = fst (mem_append s tid b)"
| "mem_step s (tid, OCommit n l) = fst (mem_record_commit_lsn s tid n l)"
| "mem_step s (tid, OBackup l) = fst (mem_record_backup_lsn s tid l)"
| "mem_step s (tid, ORemote l) = fst (mem_record_remote_consistent_lsn s tid l)"
| "mem_step s (tid, OTrim l) = fst (mem_trim s tid l)"

text \<open>The same on one timeline; an operation that fails leaves it as it was.\<close>

definition settle :: "MemTimeline \<Rightarrow> MemTimeline \<times> (Error + 'a) \<Rightarrow> MemTimeline" where
  "settle t r = (case r of (_, Inl _) \<Rightarrow> t | (t', Inr _) \<Rightarrow> t')"

fun tl_step :: "MemTimeline \<Rightarrow> wal_op \<Rightarrow> MemTimeline" where
  "tl_step t (OCreate _ _) = t"
| "tl_step t (OMeta server mc) = settle t (tl_update_meta server mc t)"
| "tl_step t (OVote n) = settle t (tl_vote n t)"
| "tl_step t (OElected m) = settle t (tl_elected m t)"
| "tl_step t (OAppend b) = settle t (tl_append b t)"
| "tl_step t (OCommit n l) = settle t (tl_record_commit_lsn n l t)"
| "tl_step t (OBackup l) = settle t (tl_record_backup_lsn l t)"
| "tl_step t (ORemote l) = settle t (tl_record_remote_consistent_lsn l t)"
| "tl_step t (OTrim l) = settle t (tl_trim l t)"

lemma with_tl_at:
  "s tid = Some t \<Longrightarrow> fst (with_tl s tid' f) tid = Some (if tid' = tid then settle t (f t) else t)"
  by (auto simp: with_tl_def settle_def split: option.splits sum.splits prod.splits)

lemma mem_step_at:
  "s tid = Some t \<Longrightarrow> mem_step s (tid', op) tid = Some (if tid' = tid then tl_step t op else t)"
  by (cases op)
    (auto simp: mem_create_def mem_update_meta_def mem_vote_def mem_elected_def mem_append_def
      mem_record_commit_lsn_def mem_record_backup_lsn_def mem_record_remote_consistent_lsn_def mem_trim_def
      with_tl_at Let_def split: option.splits)

definition mem_run :: "MemWalStore \<Rightarrow> (TimelineId \<times> wal_op) list \<Rightarrow> MemWalStore" where
  "mem_run s ops = foldl mem_step s ops"

definition ops_of :: "TimelineId \<Rightarrow> (TimelineId \<times> wal_op) list \<Rightarrow> wal_op list" where
  "ops_of tid ops = map snd (filter (\<lambda>p. fst p = tid) ops)"

lemma mem_run_at: "s tid = Some t \<Longrightarrow> mem_run s ops tid = Some (foldl tl_step t (ops_of tid ops))"
proof (induction ops arbitrary: s t)
  case (Cons p ops)
  obtain tid' op where p: "p = (tid', op)" by (cases p)
  show ?case using Cons.IH [of "mem_step s p"] mem_step_at [of s tid t tid' op] Cons.prems
    by (auto simp: p mem_run_def ops_of_def)
qed (simp add: mem_run_def ops_of_def)

section \<open>What a proposer may send\<close>

text \<open>
  An elected proposer's history ascends and begins, at a valid LSN, where the timeline begins.
  WAL is appended once a proposer was elected, and a batch without WAL does not name a position
  past the end.
\<close>

definition elected_ok :: "AcceptorState \<Rightarrow> ProposerElected \<Rightarrow> bool" where
  "elected_ok h m \<longleftrightarrow> ascending (pe_term_history m) \<and> pe_start_streaming_at m \<le> U64_MAX
     \<and> (case pe_term_history m of [] \<Rightarrow> True
        | e # _ \<Rightarrow> tn_lsn e \<noteq> INVALID \<and> (st_timeline_start_lsn h \<noteq> INVALID \<longrightarrow> tn_lsn e = st_timeline_start_lsn h))"

definition append_ok :: "AcceptorState \<Rightarrow> AppendBatch \<Rightarrow> bool" where
  "append_ok h b \<longleftrightarrow> st_flush_lsn h \<noteq> INVALID \<and> length (concat (ab_wal b)) \<le> U64_MAX
     \<and> (batch_is_empty b \<longrightarrow> ab_begin_lsn b \<le> st_flush_lsn h)"

fun op_ok :: "AcceptorState \<Rightarrow> wal_op \<Rightarrow> bool" where
  "op_ok h (OElected m) \<longleftrightarrow> elected_ok h m"
| "op_ok h (OAppend b) \<longleftrightarrow> append_ok h b"
| "op_ok h _ \<longleftrightarrow> True"

fun ops_ok :: "MemTimeline \<Rightarrow> wal_op list \<Rightarrow> bool" where
  "ops_ok t [] \<longleftrightarrow> True"
| "ops_ok t (op # ops) \<longleftrightarrow> op_ok (mt_head t) op \<and> ops_ok (tl_step t op) ops"

section \<open>The flat log\<close>

text \<open>
  What a timeline promises: a byte string that begins at a low mark, with a committed part.
  Bytes are appended at the end, cut off at the end above the committed part, and dropped from
  the beginning below it.
\<close>

record WalLog =
  lg_start :: Lsn
  lg_commit :: Lsn
  lg_bytes :: "u8 list"

definition lg_end :: "WalLog \<Rightarrow> Lsn" where
  "lg_end g = lg_start g + length (lg_bytes g)"

inductive log_next :: "WalLog \<Rightarrow> WalLog \<Rightarrow> bool" where
  log_extend: "c \<le> c' \<Longrightarrow> c' \<le> s + length (bs @ new) \<Longrightarrow>
    log_next \<lparr>lg_start = s, lg_commit = c, lg_bytes = bs\<rparr> \<lparr>lg_start = s, lg_commit = c', lg_bytes = bs @ new\<rparr>"
| log_cut: "c \<le> s + n \<Longrightarrow> n \<le> length bs \<Longrightarrow>
    log_next \<lparr>lg_start = s, lg_commit = c, lg_bytes = bs\<rparr> \<lparr>lg_start = s, lg_commit = c, lg_bytes = take n bs\<rparr>"
| log_drop: "s + n \<le> c \<Longrightarrow>
    log_next \<lparr>lg_start = s, lg_commit = c, lg_bytes = bs\<rparr> \<lparr>lg_start = s + n, lg_commit = c, lg_bytes = drop n bs\<rparr>"
| log_begin: "log_next \<lparr>lg_start = 0, lg_commit = 0, lg_bytes = []\<rparr> \<lparr>lg_start = s, lg_commit = s, lg_bytes = []\<rparr>"

definition log_of :: "MemTimeline \<Rightarrow> WalLog" where
  "log_of t = \<lparr>lg_start = st_trimmed_lsn (mt_head t), lg_commit = st_commit_lsn (mt_head t), lg_bytes = held t\<rparr>"

section \<open>Operations that keep the WAL\<close>

lemma log_extend_nil: "c \<le> c' \<Longrightarrow> c' \<le> s + length bs \<Longrightarrow>
    log_next \<lparr>lg_start = s, lg_commit = c, lg_bytes = bs\<rparr> \<lparr>lg_start = s, lg_commit = c', lg_bytes = bs\<rparr>"
  using log_extend [of c c' s bs "[]"] by simp

lemma keep_wal:
  assumes ok: "tl_ok t" and "mt_wal t' = mt_wal t" and "head_ok (mt_head t')"
    and "st_trimmed_lsn (mt_head t') = st_trimmed_lsn (mt_head t)"
    and "st_flush_lsn (mt_head t') = st_flush_lsn (mt_head t)"
    and "st_commit_lsn (mt_head t) \<le> st_commit_lsn (mt_head t')"
  shows "tl_ok t' \<and> log_next (log_of t) (log_of t')"
proof -
  have low: "wal_low t' = wal_low t" using assms by (auto simp: wal_low_def split: list.splits)
  have "held t' = held t" using assms low by (simp add: held_def)
  moreover have "tl_ok t'" using assms low by (simp add: tl_ok_def)
  moreover have "st_commit_lsn (mt_head t') \<le> st_trimmed_lsn (mt_head t) + length (held t)"
    using held_length [OF ok] assms by (simp add: head_ok_def)
  ultimately show ?thesis using assms log_extend_nil by (simp add: log_of_def)
qed

lemma same_next: "tl_ok t \<Longrightarrow> tl_ok t \<and> log_next (log_of t) (log_of t)"
  by (rule keep_wal) (auto simp: tl_ok_def)

section \<open>Elections\<close>

lemma apply_elected_Inr:
  assumes "apply_elected h m = (h', Inr (Inr at))"
  obtains p where "st_term h \<le> pe_term m" "at = pe_start_streaming_at m" "h' = adopt_elected (h\<lparr>st_term := pe_term m\<rparr>) m"
    "st_commit_lsn h \<le> at" "tn_lsn p = at"
    "find_highest_common_point (pe_term_history m) (stored_term_history h) (wal_end h) = Inr (Some p)
      \<or> find_highest_common_point (pe_term_history m) (stored_term_history h) (wal_end h) = Inr None
        \<and> pe_term_history m \<noteq> [] \<and> p = hd (pe_term_history m)"
proof -
  have same: "stored_term_history (h\<lparr>st_term := n\<rparr>) = stored_term_history h" "wal_end (h\<lparr>st_term := n\<rparr>) = wal_end h" for n
    by (simp_all add: stored_term_history_def wal_end_def)
  show thesis using assms that unfolding apply_elected_def Let_def same
    by (auto simp: attempt_eq_Inr same split: if_splits option.splits list.splits)
qed

lemma elected_point:
  assumes acc: "apply_elected h m = (h', Inr (Inr at))" and ok: "head_ok h" "elected_ok h m"
  shows "pe_term_history m \<noteq> [] \<and> tn_lsn (hd (pe_term_history m)) \<le> at \<and> tn_lsn (hd (pe_term_history m)) \<noteq> INVALID
    \<and> (if st_flush_lsn h = INVALID then at = tn_lsn (hd (pe_term_history m)) else at \<le> st_flush_lsn h)"
proof -
  have asc: "ascending (pe_term_history m)" "ascending (stored_term_history h)"
    using ok by (simp_all add: elected_ok_def head_ok_def stored_term_history_def ascending_up_to)
  obtain p where p: "tn_lsn p = at"
    "find_highest_common_point (pe_term_history m) (stored_term_history h) (wal_end h) = Inr (Some p)
      \<or> find_highest_common_point (pe_term_history m) (stored_term_history h) (wal_end h) = Inr None
        \<and> pe_term_history m \<noteq> [] \<and> p = hd (pe_term_history m)"
    using apply_elected_Inr [OF acc] by metis
  have first: "tn_lsn (hd (pe_term_history m)) \<noteq> INVALID"
    "st_timeline_start_lsn h \<noteq> INVALID \<Longrightarrow> tn_lsn (hd (pe_term_history m)) = st_timeline_start_lsn h"
    if "pe_term_history m \<noteq> []" using ok(2) that by (auto simp: elected_ok_def split: list.splits)
  from p(2) show ?thesis
  proof
    assume some: "find_highest_common_point (pe_term_history m) (stored_term_history h) (wal_end h) = Inr (Some p)"
    show ?thesis using common_point_ge [OF some asc] common_point_le [OF some asc(2)] first p(1) ok(1)
      by (auto simp: INVALID_def)
  next
    assume "find_highest_common_point (pe_term_history m) (stored_term_history h) (wal_end h) = Inr None
        \<and> pe_term_history m \<noteq> [] \<and> p = hd (pe_term_history m)"
    then show ?thesis using first p(1) ok(1) by (auto simp: head_ok_def)
  qed
qed

lemma adopt_elected_fields:
  assumes "head_ok h" "pe_term_history m \<noteq> []"
  shows "st_flush_lsn (adopt_elected h m) = pe_start_streaming_at m"
    "st_term_history (adopt_elected h m) = pe_term_history m"
    "st_flush_lsn h \<noteq> INVALID \<Longrightarrow> st_trimmed_lsn (adopt_elected h m) = st_trimmed_lsn h
       \<and> st_local_start_lsn (adopt_elected h m) = st_local_start_lsn h
       \<and> st_commit_lsn (adopt_elected h m) = st_commit_lsn h
       \<and> st_timeline_start_lsn (adopt_elected h m) = st_timeline_start_lsn h"
    "st_flush_lsn h = INVALID \<Longrightarrow> st_trimmed_lsn (adopt_elected h m) = pe_start_streaming_at m
       \<and> st_local_start_lsn (adopt_elected h m) = pe_start_streaming_at m
       \<and> st_commit_lsn (adopt_elected h m) = tn_lsn (hd (pe_term_history m))
       \<and> st_timeline_start_lsn (adopt_elected h m) = tn_lsn (hd (pe_term_history m))"
  using assms
  by (auto simp: adopt_elected_def elected_first_wal_def elected_starts_def Let_def head_ok_def INVALID_def
      split: list.splits)

lemma elected_next:
  assumes acc: "apply_elected (mt_head t) m = (h', Inr (Inr at))" and ok: "tl_ok t" "elected_ok (mt_head t) m"
  defines "t' \<equiv> t\<lparr>mt_head := h', mt_wal := truncate_wal (mt_wal t) at\<rparr>"
  shows "tl_ok t' \<and> log_next (log_of t) (log_of t')"
proof -
  let ?h = "mt_head t" and ?F = "tn_lsn (hd (pe_term_history m))"
  have hok: "head_ok ?h" and low: "wal_low t \<le> st_trimmed_lsn ?h"
    and tiled: "tiled (wal_low t) (bm_iter (mt_wal t)) (st_flush_lsn ?h)" using ok(1) by (simp_all add: tl_ok_def)
  have pt: "pe_term_history m \<noteq> []" "?F \<le> at" "?F \<noteq> INVALID"
    "if st_flush_lsn ?h = INVALID then at = ?F else at \<le> st_flush_lsn ?h"
    using elected_point [OF acc hok ok(2)] by simp_all
  have h': "h' = adopt_elected (?h\<lparr>st_term := pe_term m\<rparr>) m" "at = pe_start_streaming_at m" "st_commit_lsn ?h \<le> at"
    using apply_elected_Inr [OF acc] by metis+
  have hok2: "head_ok (?h\<lparr>st_term := pe_term m\<rparr>)" using hok by (simp add: head_ok_def)
  note fields = adopt_elected_fields [OF hok2 pt(1), folded h'(1), simplified]
  have U: "at \<le> U64_MAX" "ascending (pe_term_history m)" using ok(2) h'(2) by (simp_all add: elected_ok_def)
  show ?thesis
  proof (cases "st_flush_lsn ?h = INVALID")
    case True
    then have zero: "bm_iter (mt_wal t) = []" "st_trimmed_lsn ?h = 0" "st_commit_lsn ?h = 0"
      using tiled_zero [of "wal_low t" "bm_iter (mt_wal t)"] tiled hok by (simp_all add: INVALID_def head_ok_def)
    have w: "bm_iter (truncate_wal (mt_wal t) at) = []"
      using zero(1) by (simp add: truncate_wal_def bm_below_def bm_iter_retain)
    have "held t = []" "held t' = []" using zero(1) w by (simp_all add: held_def t'_def)
    then have "log_of t = \<lparr>lg_start = 0, lg_commit = 0, lg_bytes = []\<rparr>" "log_of t' = \<lparr>lg_start = at, lg_commit = at, lg_bytes = []\<rparr>"
      using zero fields(4) [OF True] pt(4) True h'(2) by (simp_all add: log_of_def t'_def)
    moreover have "head_ok h'" using fields(1,2) fields(4) [OF True] pt True U h'(2) by (simp add: head_ok_def)
    then have "tl_ok t'" using w fields(1) fields(4) [OF True] by (intro tl_okI [of _ at]) (simp_all add: t'_def h'(2))
    ultimately show ?thesis using log_begin by simp
  next
    case False
    note f = fields(3) [OF False]
    have le: "at \<le> st_flush_lsn ?h" using pt(4) False by simp
    have base: "wal_low t \<le> at" using low h'(3) hok by (simp add: head_ok_def)
    have w: "tiled (wal_low t) (bm_iter (truncate_wal (mt_wal t) at)) at"
      "flat_bytes (bm_iter (truncate_wal (mt_wal t) at)) = take (at - wal_low t) (flat_bytes (bm_iter (mt_wal t)))"
      using truncate_wal_tiled [OF tiled base le] hok by (simp_all add: head_ok_def)
    have low': "wal_low t' = wal_low t" by (rule wal_low_eq) (use w(1) fields(1) h'(2) in \<open>simp add: t'_def\<close>)
    have "head_ok h'" using f fields(1,2) hok h'(2,3) U False by (simp add: head_ok_def)
    then have "tl_ok t'"
      by (intro tl_okI [of _ "wal_low t"]) (use w(1) fields(1) f low h'(2) in \<open>simp_all add: t'_def\<close>)
    moreover have "held t' = take (at - st_trimmed_lsn ?h) (held t)"
      using w(2) f low low' by (simp add: held_def t'_def drop_take)
    moreover have "st_commit_lsn ?h \<le> st_trimmed_lsn ?h + (at - st_trimmed_lsn ?h)" using h'(3) by simp
    moreover have "at - st_trimmed_lsn ?h \<le> length (held t)" using held_length [OF ok(1)] le by simp
    ultimately show ?thesis using f log_cut [of "st_commit_lsn ?h" "st_trimmed_lsn ?h" "at - st_trimmed_lsn ?h" "held t"]
      by (simp add: log_of_def t'_def)
  qed
qed

section \<open>Appends\<close>

lemma skip_chunks_ne: "c \<in> set (skip_chunks n cs) \<Longrightarrow> c \<noteq> []"
  by (induction n cs rule: skip_chunks.induct) (auto split: if_splits)

lemma skip_chunks_all: "length (concat cs) \<le> n \<Longrightarrow> skip_chunks n cs = []"
  using skip_chunks_ne [of _ n cs] skip_chunks_concat [of n cs] by (cases "skip_chunks n cs") auto

lemma batch_len_exact: "length (concat (ab_wal b)) \<le> U64_MAX \<Longrightarrow> batch_len b = length (concat (ab_wal b))"
  by (simp add: batch_len_def wsum64_eq sum_length_concat)

lemma batch_is_empty_iff: "batch_is_empty b \<longleftrightarrow> concat (ab_wal b) = []"
  by (auto simp: batch_is_empty_def list_all_iff)

lemma batch_end_exact:
  "length (concat (ab_wal b)) \<le> U64_MAX \<Longrightarrow> batch_end_lsn b = Inr e \<longleftrightarrow>
     e = ab_begin_lsn b + length (concat (ab_wal b)) \<and> e \<le> U64_MAX"
  by (auto simp: batch_end_lsn_def lsn_checked_add_def batch_len_exact)

text \<open>An accepted batch begins at or before the end and continues it.\<close>

lemma append_plan_ok:
  assumes "append_plan flush b e = Inr plan" "flush \<noteq> INVALID" "e = ab_begin_lsn b + length (concat (ab_wal b))"
    "length (concat (ab_wal b)) \<le> U64_MAX" "batch_is_empty b \<longrightarrow> ab_begin_lsn b \<le> flush"
  shows "ab_begin_lsn b \<le> flush \<and> (remaining_chunks b plan = [] \<or> pl_write_from plan = flush)
    \<and> concat (remaining_chunks b plan) = drop (flush - ab_begin_lsn b) (concat (ab_wal b))"
proof (cases "batch_is_empty b \<or> e \<le> flush")
  case True
  then have le: "ab_begin_lsn b \<le> flush" "length (concat (ab_wal b)) \<le> flush - ab_begin_lsn b"
    using assms(3,5) by (auto simp: batch_is_empty_iff simp del: concat_eq_Nil_conv)
  have "remaining_chunks b plan = []"
    using assms(1) True skip_chunks_all [of "ab_wal b" "length (concat (ab_wal b))"]
    by (auto simp: append_plan_def remaining_chunks_def batch_len_exact [OF assms(4)])
  then show ?thesis using le by simp
next
  case False
  then show ?thesis using assms(1,2)
    by (auto simp: append_plan_def remaining_chunks_def skip_chunks_concat split: if_splits)
qed

lemma apply_append_Inr:
  assumes "apply_append h b = (h', Inr (Inr plan))"
  obtains e where "st_term h = ab_term b" "batch_end_lsn b = Inr e" "append_plan (st_flush_lsn h) b e = Inr plan"
    "h' = append_head h b e"
  using assms unfolding apply_append_def by (auto simp: attempt_eq_Inr split: if_splits)

lemma append_head_fields [simp]:
  "st_flush_lsn (append_head h b e) = max (st_flush_lsn h) e" "st_term (append_head h b e) = st_term h"
  "st_trimmed_lsn (append_head h b e) = st_trimmed_lsn h" "st_local_start_lsn (append_head h b e) = st_local_start_lsn h"
  "st_timeline_start_lsn (append_head h b e) = st_timeline_start_lsn h" "st_term_history (append_head h b e) = st_term_history h"
  by (simp_all add: append_head_def Let_def)

lemma append_head_commit_ge: "st_commit_lsn h \<le> st_commit_lsn (append_head h b e)"
  by (simp add: append_head_def Let_def)

lemma append_head_commit_le:
  "head_ok h \<Longrightarrow> st_commit_lsn (append_head h b e) \<le> max (st_flush_lsn h) e"
  unfolding head_ok_def by (auto simp: append_head_def wal_end_def Let_def max_def min_def)

lemma append_head_ok:
  assumes "head_ok h" "st_flush_lsn h \<noteq> INVALID" "e \<le> U64_MAX"
  shows "head_ok (append_head h b e)"
proof -
  have "st_commit_lsn h \<le> st_commit_lsn (append_head h b e)" by (rule append_head_commit_ge)
  then show ?thesis using assms append_head_commit_le [OF assms(1), of b e] unfolding head_ok_def append_head_fields
    by auto
qed

text \<open>The bytes after an accepted append: the new ones follow, a retried prefix is skipped.\<close>

lemma append_held:
  assumes acc: "apply_append (mt_head t) b = (h', Inr (Inr plan))" and ok: "tl_ok t" "append_ok (mt_head t) b"
  defines "t' \<equiv> t\<lparr>mt_head := h', mt_wal := put_chunks (pl_write_from plan) (remaining_chunks b plan) (mt_wal t)\<rparr>"
  shows "tl_ok t'" "ab_begin_lsn b \<le> st_flush_lsn (mt_head t)"
    "held t' = held t @ drop (st_flush_lsn (mt_head t) - ab_begin_lsn b) (concat (ab_wal b))"
    "st_flush_lsn h' = max (st_flush_lsn (mt_head t)) (ab_begin_lsn b + length (concat (ab_wal b)))"
proof -
  let ?h = "mt_head t" and ?L = "length (concat (ab_wal b))" and ?f = "st_flush_lsn (mt_head t)"
  let ?new = "drop (?f - ab_begin_lsn b) (concat (ab_wal b))"
  have hok: "head_ok ?h" and low: "wal_low t \<le> st_trimmed_lsn ?h"
    and tiled: "tiled (wal_low t) (bm_iter (mt_wal t)) ?f" using ok(1) by (simp_all add: tl_ok_def)
  have U: "?L \<le> U64_MAX" "?f \<noteq> INVALID" "batch_is_empty b \<longrightarrow> ab_begin_lsn b \<le> ?f" using ok(2) by (simp_all add: append_ok_def)
  obtain e where e: "batch_end_lsn b = Inr e" "append_plan ?f b e = Inr plan" "h' = append_head ?h b e"
    using apply_append_Inr [OF acc] by metis
  have eE: "e = ab_begin_lsn b + ?L" "e \<le> U64_MAX" using e(1) batch_end_exact [OF U(1)] by simp_all
  have plan: "ab_begin_lsn b \<le> ?f" "remaining_chunks b plan = [] \<or> pl_write_from plan = ?f"
    "concat (remaining_chunks b plan) = ?new"
    using append_plan_ok [OF e(2) U(2) eE(1) U(1,3)] by simp_all
  then show "ab_begin_lsn b \<le> ?f" by simp
  show flush: "st_flush_lsn h' = max ?f (ab_begin_lsn b + ?L)" using e(3) eE(1) by simp
  have new: "?f + length ?new = st_flush_lsn h'" using plan(1) flush by auto
  have w: "tiled (wal_low t) (bm_iter (mt_wal t')) (st_flush_lsn h')
      \<and> flat_bytes (bm_iter (mt_wal t')) = flat_bytes (bm_iter (mt_wal t)) @ ?new"
  proof (cases "remaining_chunks b plan = []")
    case True
    then show ?thesis using tiled new plan(3) by (simp add: t'_def)
  next
    case False
    have "?f + sum_list (map length (remaining_chunks b plan)) = st_flush_lsn h'"
      using new plan(3) by (simp add: sum_length_concat)
    moreover have "st_flush_lsn h' \<le> U64_MAX" using e(3) eE(2) hok by (simp add: head_ok_def)
    ultimately show ?thesis using put_chunks_tiled [OF tiled, of "remaining_chunks b plan"] False plan(2,3)
      by (simp add: t'_def)
  qed
  have "head_ok h'" unfolding e(3) by (rule append_head_ok [OF hok U(2) eE(2)])
  then show "tl_ok t'" using w low e(3) by (intro tl_okI [of _ "wal_low t"]) (simp_all add: t'_def)
  have "wal_low t' = wal_low t" by (rule wal_low_eq) (use w in \<open>simp add: t'_def\<close>)
  moreover have "st_trimmed_lsn ?h - wal_low t \<le> length (flat_bytes (bm_iter (mt_wal t)))"
    using tiled_length [OF tiled] hok unfolding head_ok_def by linarith
  ultimately show "held t' = held t @ ?new" using w e(3) by (simp add: held_def t'_def)
qed

lemma append_next:
  assumes acc: "apply_append (mt_head t) b = (h', Inr (Inr plan))" and ok: "tl_ok t" "append_ok (mt_head t) b"
  defines "t' \<equiv> t\<lparr>mt_head := h', mt_wal := put_chunks (pl_write_from plan) (remaining_chunks b plan) (mt_wal t)\<rparr>"
  shows "tl_ok t' \<and> log_next (log_of t) (log_of t')"
proof -
  note held = append_held [OF acc ok, folded t'_def]
  have f: "st_trimmed_lsn h' = st_trimmed_lsn (mt_head t)" "st_commit_lsn (mt_head t) \<le> st_commit_lsn h'"
    using apply_append_Inr [OF acc] append_head_fields(3) append_head_commit_ge by metis+
  have "st_commit_lsn h' \<le> st_trimmed_lsn h' + length (held t')"
    using held_length [OF held(1)] held(1) by (simp add: t'_def tl_ok_def head_ok_def)
  then show ?thesis using held(1,3) f log_extend [of "st_commit_lsn (mt_head t)" "st_commit_lsn h'"]
    by (simp add: log_of_def t'_def)
qed

section \<open>Trims\<close>

lemma trim_bound_le: "head_ok h \<Longrightarrow> st_trimmed_lsn h \<le> trim_bound h l \<and> trim_bound h l \<le> st_commit_lsn h"
  by (auto simp: trim_bound_def head_ok_def)

lemma trim_next:
  fixes l :: Lsn
  assumes ok: "tl_ok t"
  defines "t' \<equiv> fst (tl_trim l t)" and "bound \<equiv> trim_bound (mt_head t) l"
  shows "tl_ok t'" "held t' = drop (bound - st_trimmed_lsn (mt_head t)) (held t)" "log_next (log_of t) (log_of t')"
proof -
  let ?h = "mt_head t"
  have hok: "head_ok ?h" and low: "wal_low t \<le> st_trimmed_lsn ?h"
    and tiled: "tiled (wal_low t) (bm_iter (mt_wal t)) (st_flush_lsn ?h)" using ok by (simp_all add: tl_ok_def)
  have bound: "st_trimmed_lsn ?h \<le> bound" "bound \<le> st_commit_lsn ?h" using trim_bound_le [OF hok] by (simp_all add: bound_def)
  have le: "wal_low t \<le> bound" "bound \<le> st_flush_lsn ?h" "st_flush_lsn ?h \<le> U64_MAX"
    using low bound hok by (simp_all add: head_ok_def)
  have head: "mt_head t' = ?h\<lparr>st_trimmed_lsn := bound\<rparr>" by (simp add: t'_def tl_trim_def bound_def Let_def)
  have "mt_wal t' = bm_from (keep_from (mt_wal t) bound) (mt_wal t)" by (simp add: t'_def tl_trim_def bound_def Let_def)
  then obtain b where b: "b \<le> bound" "tiled b (bm_iter (mt_wal t')) (st_flush_lsn ?h)"
    "drop (bound - b) (flat_bytes (bm_iter (mt_wal t'))) = drop (bound - wal_low t) (flat_bytes (bm_iter (mt_wal t)))"
    using bm_from_tiled [OF tiled le] by auto
  have "head_ok (mt_head t')" using hok bound head by (simp add: head_ok_def)
  then show tl_ok: "tl_ok t'" using b head by (intro tl_okI [of _ b]) simp_all
  have "wal_low t' = b" by (rule wal_low_eq) (use b head in simp)
  then show held: "held t' = drop (bound - st_trimmed_lsn ?h) (held t)"
    using b(3) head low bound(1) by (simp add: held_def)
  show "log_next (log_of t) (log_of t')"
    using log_drop [of "st_trimmed_lsn ?h" "bound - st_trimmed_lsn ?h" "st_commit_lsn ?h" "held t"] held bound head
    by (simp add: log_of_def)
qed

section \<open>Every step\<close>

lemma head_ok_irrelevant [simp]:
  "head_ok (h\<lparr>st_server := a\<rparr>) = head_ok h" "head_ok (h\<lparr>st_mconf := mc\<rparr>) = head_ok h"
  "head_ok (h\<lparr>st_term := n\<rparr>) = head_ok h" "head_ok (h\<lparr>st_backup_lsn := l\<rparr>) = head_ok h"
  "head_ok (h\<lparr>st_remote_consistent_lsn := l\<rparr>) = head_ok h"
  by (simp_all add: head_ok_def)

lemma elected_deposed: "apply_elected h m = (h', Inr (Inl d)) \<Longrightarrow> h' = h \<and> pe_term m < st_term h"
  by (auto simp: apply_elected_def Let_def attempt_eq_Inr split: if_splits option.splits list.splits)

lemma append_deposed: "apply_append h b = (h', Inr (Inl d)) \<Longrightarrow> h' = h \<and> ab_term b < st_term h"
  by (auto simp: apply_append_def Let_def attempt_eq_Inr split: if_splits)

lemma tl_step_next:
  assumes "tl_ok t" "op_ok (mt_head t) op"
  shows "tl_ok (tl_step t op) \<and> log_next (log_of t) (log_of (tl_step t op))"
proof (cases op)
  case (OMeta sv mc)
  show ?thesis by (rule keep_wal [OF assms(1)])
      (use assms(1) in \<open>auto simp: OMeta settle_def tl_update_meta_def tl_ok_def Let_def split: option.splits\<close>)
next
  case (OVote n)
  show ?thesis by (rule keep_wal [OF assms(1)])
      (use assms(1) in \<open>auto simp: OVote settle_def tl_vote_def apply_vote_def tl_ok_def Let_def split: option.splits\<close>)
next
  case (OElected m)
  obtain h r where r: "apply_elected (mt_head t) m = (h, r)" by fastforce
  show ?thesis
  proof (cases r)
    case (Inr x)
    show ?thesis
    proof (cases x)
      case (Inl d)
      then show ?thesis using r Inr same_next [OF assms(1)] elected_deposed [of "mt_head t" m h d]
        by (simp add: OElected settle_def tl_elected_def)
    next
      case at: (Inr at)
      then show ?thesis using elected_next [of t m h at] r Inr assms by (simp add: OElected settle_def tl_elected_def)
    qed
  qed (use r same_next [OF assms(1)] in \<open>simp add: OElected settle_def tl_elected_def\<close>)
next
  case (OAppend b)
  obtain h r where r: "apply_append (mt_head t) b = (h, r)" by fastforce
  show ?thesis
  proof (cases r)
    case (Inr x)
    show ?thesis
    proof (cases x)
      case (Inl d)
      then show ?thesis using r Inr same_next [OF assms(1)] append_deposed [of "mt_head t" b h d]
        by (simp add: OAppend settle_def tl_append_def)
    next
      case plan: (Inr plan)
      then show ?thesis using append_next [of t b h plan] r Inr assms by (simp add: OAppend settle_def tl_append_def)
    qed
  qed (use r same_next [OF assms(1)] in \<open>simp add: OAppend settle_def tl_append_def\<close>)
next
  case (OCommit n l)
  show ?thesis by (rule keep_wal [OF assms(1)])
      (use assms(1) in \<open>auto simp: OCommit settle_def tl_record_commit_lsn_def apply_commit_lsn_def tl_ok_def head_ok_def Let_def\<close>)
next
  case (OBackup l)
  show ?thesis by (rule keep_wal [OF assms(1)])
      (use assms(1) in \<open>auto simp: OBackup settle_def tl_record_backup_lsn_def tl_ok_def Let_def\<close>)
next
  case (ORemote l)
  show ?thesis by (rule keep_wal [OF assms(1)])
      (use assms(1) in \<open>auto simp: ORemote settle_def tl_record_remote_consistent_lsn_def tl_ok_def Let_def\<close>)
next
  case (OTrim l)
  have "tl_step t op = fst (tl_trim l t)" by (simp add: OTrim settle_def tl_trim_def Let_def)
  then show ?thesis using trim_next [OF assms(1), of l] by simp
qed (use same_next [OF assms(1)] in simp)

end
