(* ===== verification/WalProps.thy ===== *)
theory WalProps
  imports WalInv
begin

text \<open>
  What the WAL store guarantees over any sequence of calls: one vote per term, no effect of a
  deposed proposer, committed WAL that is never lost or changed, exact reads, appends that may
  be retried, and trims within their bound.
\<close>

section \<open>Sequences of calls\<close>

text \<open>
  A call is admissible when its proposer keeps the rules of the protocol (\<open>op_ok\<close>) on the
  head the timeline has, and a new timeline begins at a representable LSN.
\<close>

definition call_ok :: "MemWalStore \<Rightarrow> TimelineId \<times> wal_op \<Rightarrow> bool" where
  "call_ok s call = (case call of (tid, op) \<Rightarrow> (case s tid of
     Some t \<Rightarrow> op_ok (mt_head t) op
   | None \<Rightarrow> (case op of OCreate _ l \<Rightarrow> l \<le> U64_MAX | _ \<Rightarrow> True)))"

fun calls_ok :: "MemWalStore \<Rightarrow> (TimelineId \<times> wal_op) list \<Rightarrow> bool" where
  "calls_ok s [] \<longleftrightarrow> True"
| "calls_ok s (c # cs) \<longleftrightarrow> call_ok s c \<and> calls_ok (mem_step s c) cs"

abbreviation empty_store :: MemWalStore where
  "empty_store \<equiv> (\<lambda>_. None)"

lemma mem_run_simps [simp]: "mem_run s [] = s" "mem_run s (c # cs) = mem_run (mem_step s c) cs"
  by (simp_all add: mem_run_def)

lemma mem_run_append: "mem_run s (cs @ ds) = mem_run (mem_run s cs) ds"
  by (simp add: mem_run_def)

lemma calls_ok_append: "calls_ok s (cs @ ds) \<longleftrightarrow> calls_ok s cs \<and> calls_ok (mem_run s cs) ds"
  by (induction cs arbitrary: s) auto

definition store_ok :: "MemWalStore \<Rightarrow> bool" where
  "store_ok s \<longleftrightarrow> (\<forall>tid t. s tid = Some t \<longrightarrow> tl_ok t)"

lemma fresh_ok: "l \<le> U64_MAX \<Longrightarrow> tl_ok \<lparr>mt_head = AcceptorState_new sv l, mt_wal = bm_empty\<rparr>"
  by (simp add: tl_ok_def head_ok_def wal_low_def AcceptorState_new_def ascending_def)

lemma mem_step_None:
  assumes "s tid = None" "mem_step s (tid, op) tid = Some t" "call_ok s (tid, op)"
  shows "tl_ok t"
  using assms fresh_ok
  by (cases op) (auto simp: call_ok_def mem_create_def mem_update_meta_def mem_vote_def mem_elected_def mem_append_def
      mem_record_commit_lsn_def mem_record_backup_lsn_def mem_record_remote_consistent_lsn_def mem_trim_def
      with_tl_def Let_def)

lemma mem_step_other: "tid' \<noteq> tid \<Longrightarrow> mem_step s (tid', op) tid = s tid"
  by (cases op) (auto simp: mem_create_def mem_update_meta_def mem_vote_def mem_elected_def mem_append_def
      mem_record_commit_lsn_def mem_record_backup_lsn_def mem_record_remote_consistent_lsn_def mem_trim_def
      with_tl_def Let_def split: option.splits sum.splits prod.splits)

lemma mem_step_ok:
  assumes "store_ok s" "call_ok s c"
  shows "store_ok (mem_step s c)"
  unfolding store_ok_def
proof (intro allI impI)
  fix tid t assume t: "mem_step s c tid = Some t"
  obtain tid' op where c: "c = (tid', op)" by (cases c)
  show "tl_ok t"
  proof (cases "tid' = tid")
    case False
    then show ?thesis using t assms(1) mem_step_other [OF False, of s op] by (simp add: c store_ok_def)
  next
    case True
    show ?thesis
    proof (cases "s tid")
      case None
      then show ?thesis using mem_step_None [of s tid op t] t assms(2) True by (simp add: c)
    next
      case (Some t0)
      then have "t = tl_step t0 op" using mem_step_at [of s tid t0 tid' op] Some t True by (simp add: c)
      moreover have "tl_ok t0" "op_ok (mt_head t0) op" using assms Some True by (auto simp: store_ok_def call_ok_def c)
      ultimately show ?thesis using tl_step_next by blast
    qed
  qed
qed

lemma mem_run_ok: "store_ok s \<Longrightarrow> calls_ok s cs \<Longrightarrow> store_ok (mem_run s cs)"
  by (induction cs arbitrary: s) (auto intro: mem_step_ok)

lemma reached_ok: "calls_ok empty_store cs \<Longrightarrow> mem_run empty_store cs tid = Some t \<Longrightarrow> tl_ok t"
  using mem_run_ok [of empty_store cs] by (simp add: store_ok_def)

lemma calls_ok_ops:
  "s tid = Some t \<Longrightarrow> calls_ok s cs \<Longrightarrow> ops_ok t (ops_of tid cs)"
proof (induction cs arbitrary: s t)
  case (Cons c cs)
  obtain tid' op where c: "c = (tid', op)" by (cases c)
  show ?case using Cons.IH [of "mem_step s c"] mem_step_at [of s tid t tid' op] Cons.prems
    by (cases "tid' = tid") (auto simp: c ops_of_def call_ok_def)
qed (simp add: ops_of_def)

section \<open>The store implements the flat log\<close>

text \<open>
  C16. The store implements the flat log: after any admissible calls, each admissible call on a timeline
  appends bytes to its log, cuts it above the committed part, drops a committed prefix, or
  gives a fresh log its beginning. No call does anything else to the bytes.
\<close>

theorem store_refines_log:
  assumes "calls_ok empty_store (cs @ [(tid, op)])" "mem_run empty_store cs tid = Some t"
  shows "\<exists>t'. mem_run empty_store (cs @ [(tid, op)]) tid = Some t' \<and> log_next (log_of t) (log_of t')"
proof -
  have "tl_ok t" "op_ok (mt_head t) op"
    using assms reached_ok [of cs tid t] by (auto simp: calls_ok_append call_ok_def)
  then show ?thesis using tl_step_next [of t op] mem_step_at [of "mem_run empty_store cs" tid t tid op] assms(2)
    by (simp add: mem_run_append)
qed

section \<open>Committed WAL\<close>

definition lg_byte :: "WalLog \<Rightarrow> Lsn \<Rightarrow> u8 option" where
  "lg_byte g l = (if lg_start g \<le> l \<and> l < lg_end g then Some (lg_bytes g ! (l - lg_start g)) else None)"

definition kept :: "WalLog \<Rightarrow> WalLog \<Rightarrow> bool" where
  "kept g g' \<longleftrightarrow> lg_commit g' \<le> lg_end g' \<and> lg_commit g \<le> lg_commit g' \<and> lg_start g \<le> lg_start g'
     \<and> (\<forall>l. lg_start g' \<le> l \<longrightarrow> l < lg_commit g \<longrightarrow> lg_byte g' l = lg_byte g l)"

lemma log_next_kept: "log_next g g' \<Longrightarrow> lg_commit g \<le> lg_end g \<Longrightarrow> kept g g'"
  by (induction rule: log_next.induct) (auto simp: kept_def lg_byte_def lg_end_def nth_append add.commute)

lemma kept_trans: "kept g g' \<Longrightarrow> kept g' g'' \<Longrightarrow> kept g g''"
  by (auto simp: kept_def)

lemma tl_ok_kept: "tl_ok t \<Longrightarrow> kept (log_of t) (log_of t)"
  using held_length [of t] by (auto simp: kept_def lg_end_def log_of_def tl_ok_def head_ok_def)

lemma tl_run_kept: "tl_ok t \<Longrightarrow> ops_ok t ops \<Longrightarrow> kept (log_of t) (log_of (foldl tl_step t ops))"
proof (induction ops arbitrary: t)
  case (Cons op ops)
  have step: "tl_ok (tl_step t op)" "log_next (log_of t) (log_of (tl_step t op))"
    using tl_step_next [of t op] Cons.prems by auto
  have "kept (log_of t) (log_of (tl_step t op))"
    using log_next_kept [OF step(2)] tl_ok_kept [OF Cons.prems(1)] by (simp add: kept_def)
  then show ?case using Cons.IH [OF step(1)] Cons.prems(2) kept_trans by auto
qed (simp add: tl_ok_kept)

definition wal_byte :: "MemTimeline \<Rightarrow> Lsn \<Rightarrow> u8 option" where
  "wal_byte t l = lg_byte (log_of t) l"

text \<open>
  C13. Committed WAL is never lost or changed: whatever admissible calls follow, by any
  proposers, the commit LSN does not go back, and every committed byte that was not trimmed is
  still the same.
\<close>

theorem committed_wal_kept:
  assumes "calls_ok empty_store (cs @ ds)" "mem_run empty_store cs tid = Some t"
  shows "\<exists>t'. mem_run empty_store (cs @ ds) tid = Some t' \<and> st_commit_lsn (mt_head t) \<le> st_commit_lsn (mt_head t')
    \<and> (\<forall>l. st_trimmed_lsn (mt_head t') \<le> l \<and> l < st_commit_lsn (mt_head t) \<longrightarrow>
         wal_byte t l \<noteq> None \<and> wal_byte t' l = wal_byte t l)"
proof -
  let ?t' = "foldl tl_step t (ops_of tid ds)"
  have ok: "tl_ok t" "calls_ok (mem_run empty_store cs) ds"
    using assms reached_ok [of cs tid t] by (auto simp: calls_ok_append)
  have "kept (log_of t) (log_of ?t')" by (rule tl_run_kept [OF ok(1) calls_ok_ops [OF assms(2) ok(2)]])
  moreover have "mem_run empty_store (cs @ ds) tid = Some ?t'"
    using mem_run_at [of "mem_run empty_store cs" tid t ds] assms(2) by (simp add: mem_run_append)
  moreover have "wal_byte t l \<noteq> None" if "st_trimmed_lsn (mt_head t) \<le> l" "l < st_commit_lsn (mt_head t)" for l
    using that held_length [OF ok(1)] ok(1) by (auto simp: wal_byte_def lg_byte_def log_of_def lg_end_def tl_ok_def head_ok_def)
  ultimately show ?thesis by (fastforce simp: kept_def log_of_def wal_byte_def)
qed

section \<open>Reads\<close>

text \<open>The pieces of a read follow each other without a gap.\<close>

fun pieces_at :: "Lsn \<Rightarrow> (Lsn \<times> u8 list) list \<Rightarrow> bool" where
  "pieces_at at [] \<longleftrightarrow> True"
| "pieces_at at ((l, b) # ps) \<longleftrightarrow> l = at \<and> b \<noteq> [] \<and> pieces_at (at + length b) ps"

lemma slice_append:
  assumes "lo \<le> length c" "hi = min (length c) (lo + n)"
  shows "drop lo (take hi c) @ take (n - (hi - lo)) f = take n (drop lo (c @ f))"
proof (cases "length c \<le> lo + n")
  case True
  then show ?thesis using assms by simp
next
  case False
  then have "hi = lo + n" using assms(2) by simp
  then show ?thesis using False by (simp add: drop_take)
qed

lemma read_loop_exact:
  assumes "tiled a cs e" "e \<le> U64_MAX" "a \<le> at \<or> budget = 0"
  shows "\<exists>out. read_loop e cs at budget = Inr out \<and> pieces_at at out
    \<and> concat (map snd out) = take budget (drop (at - a) (flat_bytes cs))"
  using assms
proof (induction a cs e arbitrary: at budget rule: tiled.induct)
  case (2 a b c cs e)
  have tl: "tiled (b + length c) cs e" and b: "b = a" "c \<noteq> []" using "2.prems" by auto
  have le: "b + length c \<le> e" by (rule tiled_le [OF tl])
  have ce: "min (wadd64 b (length c)) e = b + length c" using le "2.prems"(2) by (simp add: wadd64_exact)
  have len: "length (flat_bytes cs) = e - (b + length c)" using tiled_length [OF tl] by simp
  consider "budget = 0" | "e \<le> at" "budget \<noteq> 0" | "b + length c \<le> at" "at < e" "budget \<noteq> 0"
    | "at < b + length c" "budget \<noteq> 0" by linarith
  then show ?case
  proof cases
    case 2
    then have "length (flat_bytes ((b, c) # cs)) \<le> at - a" using len b le by simp
    then show ?thesis using 2 by simp
  next
    case 3
    then show ?thesis using "2.IH" [OF tl "2.prems"(2), of at budget] ce b by (simp add: add.commute)
  next
    case 4
    then have at: "a \<le> at" "at < e" using "2.prems"(3) le by auto
    define lo hi where "lo = at - b" and "hi = min (length c) (sat_add64 (at - b) budget)"
    have hi: "hi = min (length c) (lo + budget)" "lo < hi" "hi \<le> length c"
      using 4 at b le "2.prems"(2) by (auto simp: hi_def lo_def sat_add64_def)
    have succ: "wadd64 b hi = b + hi" using hi(3) le "2.prems"(2) by (simp add: wadd64_exact)
    have left: "b + length c \<le> b + hi \<or> budget - (hi - lo) = 0" using hi by auto
    obtain out where out: "read_loop e cs (b + hi) (budget - (hi - lo)) = Inr out" "pieces_at (b + hi) out"
      "concat (map snd out) = take (budget - (hi - lo)) (drop (b + hi - (b + length c)) (flat_bytes cs))"
      using "2.IH" [OF tl "2.prems"(2) left] by auto
    have run: "read_loop e ((b, c) # cs) at budget = Inr ((at, drop lo (take hi c)) # out)"
      using 4 at b ce out(1) succ by (simp add: hi_def lo_def Let_def)
    have "pieces_at at ((at, drop lo (take hi c)) # out)"
      using out(2) hi(2,3) at(1) b(1) by (simp add: lo_def add.commute)
    moreover have rest: "concat (map snd out) = take (budget - (hi - lo)) (flat_bytes cs)"
      using out(3) hi(3) by simp
    have "drop lo (take hi c) @ concat (map snd out) = take budget (drop (at - a) (c @ flat_bytes cs))"
      unfolding rest b(1) [symmetric] lo_def [symmetric] by (rule slice_append [OF _ hi(1)]) (use hi(2,3) in simp)
    ultimately show ?thesis using run by auto
  qed simp
qed simp

lemma mem_read_exact:
  assumes "s tid = Some t" "tl_ok t" "st_trimmed_lsn (mt_head t) \<le> from'"
  shows "\<exists>out. mem_read s tid from' n = Inr out \<and> pieces_at from' out
    \<and> concat (map snd out) = take n (drop (from' - st_trimmed_lsn (mt_head t)) (held t))"
proof -
  have "wal_low t \<le> from'" "st_flush_lsn (mt_head t) \<le> U64_MAX" "wal_low t \<le> st_trimmed_lsn (mt_head t)"
    "tiled (wal_low t) (bm_iter (mt_wal t)) (st_flush_lsn (mt_head t))"
    using assms(2,3) by (auto simp: tl_ok_def head_ok_def)
  then show ?thesis using read_loop_exact [of "wal_low t" "bm_iter (mt_wal t)" "st_flush_lsn (mt_head t)" from' n] assms
    by (auto simp: mem_read_def read_chunks_def held_def)
qed

text \<open>
  C17. After any admissible calls, a read returns exactly the WAL: from any position that was not trimmed, the pieces are
  contiguous and together are the next bytes of the log, as many as asked for or up to its end.
  A read below the low mark is refused.
\<close>

theorem read_is_slice:
  assumes "calls_ok empty_store cs" "mem_run empty_store cs tid = Some t"
  shows "if from' < st_trimmed_lsn (mt_head t)
    then mem_read (mem_run empty_store cs) tid from' n = Inl (Trimmed from' (st_trimmed_lsn (mt_head t)))
    else \<exists>out. mem_read (mem_run empty_store cs) tid from' n = Inr out \<and> pieces_at from' out
      \<and> concat (map snd out) = take n (drop (from' - st_trimmed_lsn (mt_head t)) (held t))"
  using mem_read_exact [of "mem_run empty_store cs" tid t from' n] reached_ok [OF assms] assms(2)
  by (auto simp: mem_read_def read_chunks_def)

section \<open>Terms\<close>

lemma adopt_elected_term: "st_term (adopt_elected h m) = st_term h"
  by (simp add: adopt_elected_def elected_first_wal_def elected_starts_def Let_def)

lemma apply_elected_term: "apply_elected h m = (h', Inr (Inr at)) \<Longrightarrow> st_term h \<le> st_term h'"
  by (rule apply_elected_Inr, assumption) (simp add: adopt_elected_term)

lemma apply_append_term: "apply_append h b = (h', Inr (Inr plan)) \<Longrightarrow> st_term h' = st_term h"
  using apply_append_Inr [of h b h' plan] append_head_fields(2) by metis

lemma tl_step_term: "st_term (mt_head t) \<le> st_term (mt_head (tl_step t op))"
proof (cases op)
  case (OElected m)
  obtain h r where r: "apply_elected (mt_head t) m = (h, r)" by fastforce
  show ?thesis using r elected_deposed [of "mt_head t" m h] apply_elected_term [of "mt_head t" m h]
    by (auto simp: OElected settle_def tl_elected_def split: sum.splits)
next
  case (OAppend b)
  obtain h r where r: "apply_append (mt_head t) b = (h, r)" by fastforce
  show ?thesis using r append_deposed [of "mt_head t" b h] apply_append_term [of "mt_head t" b h]
    by (auto simp: OAppend settle_def tl_append_def split: sum.splits)
qed (auto simp: settle_def tl_update_meta_def tl_vote_def apply_vote_def tl_record_commit_lsn_def apply_commit_lsn_def
    tl_record_backup_lsn_def tl_record_remote_consistent_lsn_def tl_trim_def Let_def split: option.splits)

lemma tl_run_term: "st_term (mt_head t) \<le> st_term (mt_head (foldl tl_step t ops))"
  by (induction ops arbitrary: t) (auto intro: order_trans tl_step_term)

lemma mem_run_term:
  "s tid = Some t \<Longrightarrow> \<exists>t'. mem_run s cs tid = Some t' \<and> st_term (mt_head t) \<le> st_term (mt_head t')"
  using mem_run_at [of s tid t cs] tl_run_term by auto

text \<open>
  C14. At most one vote per term: once a vote for a term was given, no later request for that
  term or a lower one is granted, and such a request changes nothing.
\<close>

theorem one_vote_per_term:
  assumes "mem_vote s tid n = (s1, Inr (True, h))" "k \<le> n"
  shows "\<exists>h'. mem_vote (mem_run s1 cs) tid k = (mem_run s1 cs, Inr (False, h'))"
proof -
  obtain t where t: "s tid = Some t" "s1 = s(tid \<mapsto> t\<lparr>mt_head := (mt_head t)\<lparr>st_term := n\<rparr>\<rparr>)"
    using assms(1) by (auto simp: mem_vote_def with_tl_def tl_vote_def apply_vote_def Let_def split: option.splits if_splits)
  then obtain t' where t': "mem_run s1 cs tid = Some t'" "n \<le> st_term (mt_head t')"
    using mem_run_term [of s1 tid "t\<lparr>mt_head := (mt_head t)\<lparr>st_term := n\<rparr>\<rparr>" cs] by auto
  then have "apply_vote (mt_head t') k = (mt_head t', False)" using assms(2) by (simp add: apply_vote_def)
  then show ?thesis using t'(1) by (simp add: mem_vote_def with_tl_def tl_vote_def fun_upd_idem)
qed

text \<open>
  C15. A deposed proposer has no effect: once a timeline is past a term, no election, append or
  commit position of that term changes the store, now or after any calls, and each is answered
  with the higher term.
\<close>

theorem deposed_no_effect:
  assumes "s tid = Some t" "n < st_term (mt_head t)"
    and "pe_term m = n" "ab_term b = n"
  shows "\<exists>d. n < dp_current d
    \<and> mem_elected (mem_run s cs) tid m = (mem_run s cs, Inr (Inl d))
    \<and> mem_append (mem_run s cs) tid b = (mem_run s cs, Inr (Inl d))
    \<and> mem_record_commit_lsn (mem_run s cs) tid n l = (mem_run s cs, Inr (Inl d))"
proof -
  obtain t' where t': "mem_run s cs tid = Some t'" "n < st_term (mt_head t')"
    using mem_run_term [of s tid t cs] assms(1,2) by auto
  then show ?thesis using assms(3,4)
    by (intro exI [of _ "\<lparr>dp_current = st_term (mt_head t')\<rparr>"])
      (simp add: mem_elected_def mem_append_def mem_record_commit_lsn_def with_tl_def tl_elected_def tl_append_def
        tl_record_commit_lsn_def apply_elected_def apply_append_def apply_commit_lsn_def fun_upd_idem)
qed

section \<open>Appends and their retries\<close>

lemma append_head_eq:
  "append_head h b e = h\<lparr>st_flush_lsn := max (st_flush_lsn h) e,
     st_commit_lsn := (if ab_commit_lsn b \<noteq> INVALID
       then max (st_commit_lsn h) (min (ab_commit_lsn b) (max (max (st_flush_lsn h) e) (st_timeline_start_lsn h)))
       else st_commit_lsn h),
     st_peer_horizon_lsn := max (st_peer_horizon_lsn h) (ab_truncate_lsn b)\<rparr>"
  unfolding append_head_def wal_end_def Let_def by (cases "ab_commit_lsn b = INVALID") simp_all

lemma append_head_idem: "append_head (append_head h b e) b e = append_head h b e"
  unfolding append_head_eq by simp

lemma mem_append_Inr:
  assumes "mem_append s tid b = (s', Inr (Inr h'))" "s tid = Some t"
  obtains plan where "apply_append (mt_head t) b = (h', Inr (Inr plan))"
    "s' = s(tid \<mapsto> t\<lparr>mt_head := h', mt_wal := put_chunks (pl_write_from plan) (remaining_chunks b plan) (mt_wal t)\<rparr>)"
  using assms that by (auto simp: mem_append_def with_tl_def tl_append_def split: sum.splits prod.splits)

text \<open>Once stored, a batch is skipped.\<close>

lemma append_again:
  assumes "apply_append h b = (h', Inr (Inr plan))" "length (concat (ab_wal b)) \<le> U64_MAX"
  obtains plan' where "apply_append h' b = (h', Inr (Inr plan'))" "remaining_chunks b plan' = []"
proof -
  obtain e where e: "st_term h = ab_term b" "batch_end_lsn b = Inr e" "h' = append_head h b e"
    using apply_append_Inr [OF assms(1)] by metis
  have plan: "append_plan (st_flush_lsn h') b e = Inr \<lparr>pl_write_from = e, pl_skip = batch_len b\<rparr>"
    by (simp add: append_plan_def e(3))
  show thesis
  proof (rule that)
    show "apply_append h' b = (h', Inr (Inr \<lparr>pl_write_from = e, pl_skip = batch_len b\<rparr>))"
      using e plan by (simp add: apply_append_def append_head_idem)
    show "remaining_chunks b \<lparr>pl_write_from = e, pl_skip = batch_len b\<rparr> = []"
      using skip_chunks_all [of "ab_wal b" "batch_len b"] batch_len_exact [OF assms(2)] by (simp add: remaining_chunks_def)
  qed
qed

text \<open>
  C18. After any admissible calls, an accepted admissible append continues the log with exactly the bytes it does not hold yet, the
  flush LSN is then at least the end of the batch, and sending the same batch again changes
  nothing and gets the same answer.
\<close>

theorem append_exact_and_retried:
  assumes "calls_ok empty_store (cs @ [(tid, OAppend b)])" "mem_run empty_store cs tid = Some t"
    and "mem_append (mem_run empty_store cs) tid b = (s', Inr (Inr h'))"
  shows "(\<exists>t'. s' tid = Some t' \<and> mt_head t' = h'
      \<and> held t' = held t @ drop (st_flush_lsn (mt_head t) - ab_begin_lsn b) (concat (ab_wal b)))
    \<and> ab_begin_lsn b \<le> st_flush_lsn (mt_head t)
    \<and> st_flush_lsn h' = max (st_flush_lsn (mt_head t)) (ab_begin_lsn b + length (concat (ab_wal b)))
    \<and> mem_append s' tid b = (s', Inr (Inr h'))"
proof -
  have ok: "tl_ok t" "append_ok (mt_head t) b"
    using assms(1,2) reached_ok [of cs tid t] by (auto simp: calls_ok_append call_ok_def)
  obtain plan where plan: "apply_append (mt_head t) b = (h', Inr (Inr plan))"
    and s': "s' = (mem_run empty_store cs)(tid \<mapsto> t\<lparr>mt_head := h',
      mt_wal := put_chunks (pl_write_from plan) (remaining_chunks b plan) (mt_wal t)\<rparr>)"
    using mem_append_Inr [OF assms(3,2)] by metis
  note held = append_held [OF plan ok]
  obtain plan' where again: "apply_append h' b = (h', Inr (Inr plan'))" "remaining_chunks b plan' = []"
    using append_again [OF plan] ok(2) unfolding append_ok_def by metis
  have "mem_append s' tid b = (s', Inr (Inr h'))"
    by (simp add: s' mem_append_def with_tl_def tl_append_def again)
  then show ?thesis using held(2-4) by (simp add: s')
qed

section \<open>Trims\<close>

lemma trim_bound_asked:
  "trim_bound h l = st_trimmed_lsn h \<or>
     trim_bound h l \<le> l \<and> trim_bound h l \<le> st_backup_lsn h \<and> trim_bound h l \<le> st_remote_consistent_lsn h"
  unfolding trim_bound_def max_def by (auto simp only: min_le_iff_disj split: if_split)

text \<open>
  C19. After any admissible calls, a trim never lowers the low mark and never passes the commit LSN; when it moves the mark,
  the new one is at most what was asked for, the end of the bucket copy, and the position of
  the pageserver. Reads from the new mark on return the same bytes as before.
\<close>

theorem trim_within_bound:
  assumes "calls_ok empty_store cs" "mem_run empty_store cs tid = Some t"
  shows "\<exists>s' bound. mem_trim (mem_run empty_store cs) tid l = (s', Inr bound)
    \<and> st_trimmed_lsn (mt_head t) \<le> bound \<and> bound \<le> st_commit_lsn (mt_head t)
    \<and> (bound = st_trimmed_lsn (mt_head t) \<or>
       bound \<le> l \<and> bound \<le> st_backup_lsn (mt_head t) \<and> bound \<le> st_remote_consistent_lsn (mt_head t))
    \<and> (\<exists>out out'. mem_read (mem_run empty_store cs) tid (bound + k) n = Inr out \<and> mem_read s' tid (bound + k) n = Inr out'
       \<and> concat (map snd out') = concat (map snd out))"
proof -
  let ?s = "mem_run empty_store cs" and ?t' = "fst (tl_trim l t)" and ?bound = "trim_bound (mt_head t) l"
  have ok: "tl_ok t" by (rule reached_ok [OF assms])
  have le: "st_trimmed_lsn (mt_head t) \<le> ?bound" "?bound \<le> st_commit_lsn (mt_head t)"
    using trim_bound_le [of "mt_head t" l] ok by (auto simp: tl_ok_def)
  have run: "mem_trim ?s tid l = (?s(tid \<mapsto> ?t'), Inr ?bound)"
    using assms(2) by (simp add: mem_trim_def with_tl_def tl_trim_def Let_def)
  have mark: "st_trimmed_lsn (mt_head ?t') = ?bound" by (simp add: tl_trim_def Let_def)
  obtain out where out: "mem_read ?s tid (?bound + k) n = Inr out"
    "concat (map snd out) = take n (drop (?bound + k - st_trimmed_lsn (mt_head t)) (held t))"
    using mem_read_exact [of ?s tid t "?bound + k" n] assms(2) ok le(1) by auto
  obtain out' where out': "mem_read (?s(tid \<mapsto> ?t')) tid (?bound + k) n = Inr out'"
    "concat (map snd out') = take n (drop k (held ?t'))"
    using mem_read_exact [of "?s(tid \<mapsto> ?t')" tid ?t' "?bound + k" n] trim_next(1) [OF ok, of l] mark by auto
  have "concat (map snd out') = concat (map snd out)"
    using out(2) out'(2) trim_next(2) [OF ok, of l] le(1) by (simp add: add.commute)
  moreover have "?bound = st_trimmed_lsn (mt_head t) \<or>
      ?bound \<le> l \<and> ?bound \<le> st_backup_lsn (mt_head t) \<and> ?bound \<le> st_remote_consistent_lsn (mt_head t)"
    by (rule trim_bound_asked)
  ultimately show ?thesis using run le out(1) out'(1) by blast
qed

section \<open>A batch without WAL\<close>

text \<open>
  C37. A batch without WAL that names a position past the end is accepted and moves the flush
  LSN there, although no byte is written: the WAL then has a hole. The acceptor never sends
  such a batch to the store.
\<close>

theorem empty_append_moves_flush:
  assumes "batch_is_empty b" "ab_term b = st_term h" "st_flush_lsn h < ab_begin_lsn b" "ab_begin_lsn b \<le> U64_MAX"
  shows "\<exists>h' plan. apply_append h b = (h', Inr (Inr plan)) \<and> remaining_chunks b plan = [] \<and> st_flush_lsn h' = ab_begin_lsn b"
proof -
  have nil: "concat (ab_wal b) = []" using assms(1) batch_is_empty_iff by blast
  then have len: "batch_len b = 0" using batch_len_exact [of b] by (simp del: concat_eq_Nil_conv)
  have "skip_chunks 0 (ab_wal b) = []" using skip_chunks_all [of "ab_wal b" 0] nil by (simp del: concat_eq_Nil_conv)
  then show ?thesis using assms len
    by (simp add: apply_append_def batch_end_lsn_def lsn_checked_add_def checked_add64_def ok_or_def append_plan_def
        remaining_chunks_def)
qed

section \<open>An example\<close>

definition demo_tid :: TimelineId where
  "demo_tid = \<lparr>tl_tenant = replicate 16 1, tl_timeline = replicate 16 2\<rparr>"

definition demo_server :: ServerInfo where
  "demo_server = \<lparr>sv_pg_version = 160009, sv_system_id = 7, sv_wal_seg_size = 16777216\<rparr>"

definition demo_elected :: "Term \<Rightarrow> Lsn \<Rightarrow> TermHistory \<Rightarrow> ProposerElected" where
  "demo_elected n l hist = \<lparr>pe_generation = 0, pe_term = n, pe_start_streaming_at = l, pe_term_history = hist\<rparr>"

definition demo_batch :: "Term \<Rightarrow> Lsn \<Rightarrow> u8 list list \<Rightarrow> Lsn \<Rightarrow> AppendBatch" where
  "demo_batch n l wal c = \<lparr>ab_term = n, ab_begin_lsn = l, ab_wal = wal, ab_commit_lsn = c, ab_truncate_lsn = 0\<rparr>"

text \<open>
  A first proposer writes five bytes, two of them committed; a second one is elected, cuts the
  WAL after the third byte and goes on from there.
\<close>

definition demo_opened :: "(TimelineId \<times> wal_op) list" where
  "demo_opened = [(demo_tid, OCreate demo_server 0), (demo_tid, OVote 1),
     (demo_tid, OElected (demo_elected 1 100 [\<lparr>tn_term = 1, tn_lsn = 100\<rparr>]))]"

definition demo_write :: AppendBatch where
  "demo_write = demo_batch 1 100 [[1, 2, 3], [4, 5]] 102"

definition demo_second :: "(TimelineId \<times> wal_op) list" where
  "demo_second = [(demo_tid, OVote 2),
     (demo_tid, OElected (demo_elected 2 103 [\<lparr>tn_term = 1, tn_lsn = 100\<rparr>, \<lparr>tn_term = 2, tn_lsn = 103\<rparr>])),
     (demo_tid, OAppend (demo_batch 2 103 [[9]] 104)),
     (demo_tid, OBackup 104), (demo_tid, ORemote 104), (demo_tid, OTrim 101)]"

definition demo_head :: AcceptorState where
  "demo_head = \<lparr>st_term = 1, st_term_history = [\<lparr>tn_term = 1, tn_lsn = 100\<rparr>], st_mconf = Configuration_default,
     st_server = demo_server, st_flush_lsn = 100, st_commit_lsn = 100, st_peer_horizon_lsn = 100, st_backup_lsn = 100,
     st_remote_consistent_lsn = 100, st_timeline_start_lsn = 100, st_local_start_lsn = 100, st_trimmed_lsn = 100\<rparr>"

definition demo_tl0 :: MemTimeline where
  "demo_tl0 = \<lparr>mt_head = demo_head, mt_wal = bm_empty\<rparr>"

definition demo_tl1 :: MemTimeline where
  "demo_tl1 = \<lparr>mt_head = demo_head\<lparr>st_flush_lsn := 105, st_commit_lsn := 102\<rparr>,
     mt_wal = bm_insert 103 [4, 5] (bm_insert 100 [1, 2, 3] bm_empty)\<rparr>"

definition demo_tl2 :: MemTimeline where
  "demo_tl2 = \<lparr>mt_head = demo_head\<lparr>st_term := 2,
       st_term_history := [\<lparr>tn_term = 1, tn_lsn = 100\<rparr>, \<lparr>tn_term = 2, tn_lsn = 103\<rparr>],
       st_flush_lsn := 104, st_commit_lsn := 104, st_backup_lsn := 104, st_remote_consistent_lsn := 104,
       st_trimmed_lsn := 101\<rparr>,
     mt_wal = bm_insert 103 [9] (bm_insert 100 [1, 2, 3] bm_empty)\<rparr>"

lemma bm_retain_empty [simp]: "bm_retain P bm_empty = bm_empty"
  by (rule bm_eqI) (auto simp: bm_get_retain fun_eq_iff)

lemma bm_retain_insert_in: "P k v \<Longrightarrow> bm_retain P (bm_insert k v m) = bm_insert k v (bm_retain P m)"
  by (rule bm_eqI) (auto simp: bm_get_retain fun_eq_iff)

lemma bm_retain_insert_out: "\<not> P k v \<Longrightarrow> bm_get m k = None \<Longrightarrow> bm_retain P (bm_insert k v m) = bm_retain P m"
  by (rule bm_eqI) (auto simp: bm_get_retain fun_eq_iff)

lemmas elected_defs = tl_elected_def apply_elected_def find_highest_common_point_def stored_term_history_def up_to_def
  wal_end_def adopt_elected_def elected_first_wal_def elected_starts_def truncate_wal_def bm_below_def

lemmas append_defs = tl_append_def apply_append_def batch_end_lsn_def lsn_checked_add_def batch_len_def wsum64_def wadd64_def
  checked_add64_def append_plan_def batch_is_empty_def append_head_def remaining_chunks_def wal_end_def

lemmas demo_wal_defs = demo_elected_def demo_batch_def demo_head_def demo_write_def INVALID_def U64_MAX_def ok_or_def settle_def

lemma demo_tl0_step:
  "tl_step (tl_step \<lparr>mt_head = AcceptorState_new demo_server 0, mt_wal = bm_empty\<rparr> (OVote 1))
     (OElected (demo_elected 1 100 [\<lparr>tn_term = 1, tn_lsn = 100\<rparr>])) = demo_tl0"
  by (simp add: tl_vote_def apply_vote_def elected_defs demo_wal_defs demo_tl0_def AcceptorState_new_def)

lemma demo_tl1_step: "tl_step demo_tl0 (OAppend demo_write) = demo_tl1"
  by (simp add: append_defs demo_wal_defs demo_tl0_def demo_tl1_def)

lemma demo_vote2: "tl_step demo_tl1 (OVote 2) = demo_tl1\<lparr>mt_head := (mt_head demo_tl1)\<lparr>st_term := 2\<rparr>\<rparr>"
  by (simp add: tl_vote_def apply_vote_def demo_wal_defs demo_tl1_def)

lemma demo_elected2:
  "tl_step (demo_tl1\<lparr>mt_head := (mt_head demo_tl1)\<lparr>st_term := 2\<rparr>\<rparr>)
     (OElected (demo_elected 2 103 [\<lparr>tn_term = 1, tn_lsn = 100\<rparr>, \<lparr>tn_term = 2, tn_lsn = 103\<rparr>]))
   = \<lparr>mt_head = demo_head\<lparr>st_term := 2, st_term_history := [\<lparr>tn_term = 1, tn_lsn = 100\<rparr>, \<lparr>tn_term = 2, tn_lsn = 103\<rparr>],
        st_flush_lsn := 103, st_commit_lsn := 102\<rparr>, mt_wal = bm_insert 100 [1, 2, 3] bm_empty\<rparr>"
  by (simp add: elected_defs demo_wal_defs demo_tl1_def bm_retain_insert_in bm_retain_insert_out bm_iter_retain
      bm_insert.rep_eq wadd64_def Let_def)

lemma demo_rest:
  "foldl tl_step \<lparr>mt_head = demo_head\<lparr>st_term := 2, st_term_history := [\<lparr>tn_term = 1, tn_lsn = 100\<rparr>, \<lparr>tn_term = 2, tn_lsn = 103\<rparr>],
        st_flush_lsn := 103, st_commit_lsn := 102\<rparr>, mt_wal = bm_insert 100 [1, 2, 3] bm_empty\<rparr>
     [OAppend (demo_batch 2 103 [[9]] 104), OBackup 104, ORemote 104, OTrim 101] = demo_tl2"
  by (simp add: append_defs demo_wal_defs demo_tl2_def tl_record_backup_lsn_def tl_record_remote_consistent_lsn_def
      tl_trim_def trim_bound_def keep_from_def bm_last_le_def bm_from_def bm_retain_insert_in bm_insert.rep_eq Let_def)

lemma mem_step_single: "mem_step [tid \<mapsto> t] (tid, op) = [tid \<mapsto> tl_step t op]"
proof
  fix x
  show "mem_step [tid \<mapsto> t] (tid, op) x = [tid \<mapsto> tl_step t op] x"
    using mem_step_at [of "[tid \<mapsto> t]" tid t tid op] mem_step_other [of tid x "[tid \<mapsto> t]" op] by (cases "x = tid") simp_all
qed

lemma call_ok_single: "call_ok [tid \<mapsto> t] (tid, op) = op_ok (mt_head t) op"
  by (simp add: call_ok_def)

lemma demo_opened_run: "mem_run empty_store demo_opened = [demo_tid \<mapsto> demo_tl0] \<and> calls_ok empty_store demo_opened"
proof -
  let ?fresh = "\<lparr>mt_head = AcceptorState_new demo_server 0, mt_wal = bm_empty\<rparr>"
  let ?m = "demo_elected 1 100 [\<lparr>tn_term = 1, tn_lsn = 100\<rparr>]"
  have create: "mem_step empty_store (demo_tid, OCreate demo_server 0) = [demo_tid \<mapsto> ?fresh]"
    by (simp add: mem_create_def)
  have "elected_ok (mt_head (tl_step ?fresh (OVote 1))) ?m"
    by (simp add: elected_ok_def demo_wal_defs ascending_def tl_vote_def apply_vote_def AcceptorState_new_def)
  then show ?thesis
    using create demo_tl0_step by (simp add: demo_opened_def call_ok_def mem_step_single U64_MAX_def del: mem_step.simps tl_step.simps One_nat_def)
qed

lemma demo_write_ok: "op_ok (mt_head demo_tl0) (OAppend demo_write)"
  by (simp add: append_ok_def demo_wal_defs demo_tl0_def batch_is_empty_def)

lemma demo_written_run:
  "mem_run empty_store (demo_opened @ [(demo_tid, OAppend demo_write)]) = [demo_tid \<mapsto> demo_tl1]
     \<and> calls_ok empty_store (demo_opened @ [(demo_tid, OAppend demo_write)])"
  using demo_opened_run demo_write_ok
  by (simp add: mem_run_append calls_ok_append mem_step_single call_ok_single demo_tl1_step del: mem_step.simps tl_step.simps One_nat_def)

definition demo_written :: "(TimelineId \<times> wal_op) list" where
  "demo_written = demo_opened @ [(demo_tid, OAppend demo_write)]"

lemma demo_second_run:
  "mem_run [demo_tid \<mapsto> demo_tl1] demo_second = [demo_tid \<mapsto> demo_tl2] \<and> calls_ok [demo_tid \<mapsto> demo_tl1] demo_second"
proof -
  have "op_ok (mt_head (demo_tl1\<lparr>mt_head := (mt_head demo_tl1)\<lparr>st_term := 2\<rparr>\<rparr>))
      (OElected (demo_elected 2 103 [\<lparr>tn_term = 1, tn_lsn = 100\<rparr>, \<lparr>tn_term = 2, tn_lsn = 103\<rparr>]))"
    by (simp add: elected_ok_def demo_wal_defs demo_tl1_def ascending_def)
  moreover have "append_ok (demo_head\<lparr>st_term := 2, st_term_history := [\<lparr>tn_term = 1, tn_lsn = 100\<rparr>, \<lparr>tn_term = 2, tn_lsn = 103\<rparr>],
      st_flush_lsn := 103, st_commit_lsn := 102\<rparr>) (demo_batch 2 103 [[9]] 104)"
    by (simp add: append_ok_def demo_wal_defs batch_is_empty_def)
  ultimately show ?thesis using demo_rest
    by (simp add: demo_second_def mem_step_single call_ok_single demo_vote2 demo_elected2
        del: mem_step.simps tl_step.simps One_nat_def)
qed

lemma demo_all_run:
  "mem_run empty_store (demo_written @ demo_second) = [demo_tid \<mapsto> demo_tl2]
     \<and> calls_ok empty_store (demo_written @ demo_second) \<and> mem_run empty_store demo_written demo_tid = Some demo_tl1"
  using demo_written_run demo_second_run unfolding mem_run_append [of _ demo_written] calls_ok_append [of _ demo_written]
  by (simp add: demo_written_def)

lemma demo_held: "held demo_tl1 = [1, 2, 3, 4, 5]" "held demo_tl2 = [2, 3, 9]"
  by (simp_all add: held_def wal_low_def demo_tl1_def demo_tl2_def demo_head_def bm_insert.rep_eq)

lemma demo_fields: "st_trimmed_lsn (mt_head demo_tl1) = 100" "st_trimmed_lsn (mt_head demo_tl2) = 101"
  "st_commit_lsn (mt_head demo_tl1) = 102" "st_commit_lsn (mt_head demo_tl2) = 104" "st_term (mt_head demo_tl2) = 2"
  by (simp_all add: demo_tl1_def demo_tl2_def demo_head_def)

theorem store_refines_log_witness:
  "log_next (log_of demo_tl0) (log_of demo_tl1) \<and> lg_bytes (log_of demo_tl1) = [1, 2, 3, 4, 5]"
  using store_refines_log [of demo_opened demo_tid "OAppend demo_write" demo_tl0] demo_opened_run demo_written_run demo_held
  by (simp add: log_of_def)

theorem committed_wal_kept_witness: "wal_byte demo_tl2 101 = wal_byte demo_tl1 101 \<and> wal_byte demo_tl1 101 = Some 2"
  using committed_wal_kept [of demo_written demo_second demo_tid demo_tl1] demo_all_run
  by (simp add: demo_fields) (simp add: wal_byte_def lg_byte_def log_of_def lg_end_def demo_held demo_fields)

theorem read_is_slice_witness:
  "\<exists>out. mem_read [demo_tid \<mapsto> demo_tl2] demo_tid 102 2 = Inr out \<and> pieces_at 102 out \<and> concat (map snd out) = [3, 9]"
  using read_is_slice [of "demo_written @ demo_second" demo_tid demo_tl2 102 2] demo_all_run
  by (simp add: demo_fields demo_held)

theorem one_vote_per_term_witness:
  "\<exists>h'. mem_vote (mem_run [demo_tid \<mapsto> tl_step demo_tl1 (OVote 2)] [(demo_tid, OCommit 2 103)]) demo_tid 2
     = (mem_run [demo_tid \<mapsto> tl_step demo_tl1 (OVote 2)] [(demo_tid, OCommit 2 103)], Inr (False, h'))"
  by (rule one_vote_per_term [of "[demo_tid \<mapsto> demo_tl1]" _ 2 _ "(mt_head demo_tl1)\<lparr>st_term := 2\<rparr>"])
    (simp_all add: mem_vote_def with_tl_def tl_vote_def apply_vote_def settle_def demo_tl1_def demo_head_def)

theorem deposed_no_effect_witness:
  "\<exists>d. 1 < dp_current d \<and> mem_append [demo_tid \<mapsto> demo_tl2] demo_tid demo_write = ([demo_tid \<mapsto> demo_tl2], Inr (Inl d))"
  using deposed_no_effect [of "[demo_tid \<mapsto> demo_tl2]" demo_tid demo_tl2 1 "demo_elected 1 100 []" demo_write "[]"]
  by (auto simp: demo_fields demo_elected_def demo_write_def demo_batch_def)

theorem append_exact_and_retried_witness:
  "mem_append [demo_tid \<mapsto> demo_tl1] demo_tid demo_write = ([demo_tid \<mapsto> demo_tl1], Inr (Inr (mt_head demo_tl1)))
     \<and> st_flush_lsn (mt_head demo_tl1) = 105"
proof -
  have "mem_append [demo_tid \<mapsto> demo_tl0] demo_tid demo_write = ([demo_tid \<mapsto> demo_tl1], Inr (Inr (mt_head demo_tl1)))"
    by (simp add: mem_append_def with_tl_def append_defs demo_wal_defs demo_tl0_def demo_tl1_def)
  then show ?thesis
    using append_exact_and_retried [of demo_opened demo_tid demo_write demo_tl0 "[demo_tid \<mapsto> demo_tl1]" "mt_head demo_tl1"]
      demo_opened_run demo_written_run by (simp add: demo_tl1_def)
qed

theorem trim_within_bound_witness:
  "\<exists>s' bound. mem_trim [demo_tid \<mapsto> demo_tl2] demo_tid 1000 = (s', Inr bound) \<and> bound \<le> 104"
  using trim_within_bound [of "demo_written @ demo_second" demo_tid demo_tl2 1000 0 0] demo_all_run
  by (auto simp: demo_fields)

theorem empty_append_moves_flush_witness:
  "\<exists>h' plan. apply_append demo_head (demo_batch 1 200 [[]] 0) = (h', Inr (Inr plan)) \<and> st_flush_lsn h' = 200"
  using empty_append_moves_flush [of "demo_batch 1 200 [[]] 0" demo_head]
  by (auto simp: demo_batch_def demo_head_def batch_is_empty_def U64_MAX_def)

end
