(* ===== verification/Acceptor.thy ===== *)
theory Acceptor
  imports WalProps
begin

text \<open>
  The acceptor (\<open>loams-safekeeper/src/acceptor.rs\<close>): one proposer connection's view of a
  timeline. It works on any store, given by its operations; the locale \<open>wal_store\<close> is what it
  relies on of them, and the store in memory is shown to provide it.
\<close>

section \<open>The interface of a store\<close>

text \<open>The operations of the trait \<open>WalStore\<close> that the acceptor calls, on a store of type \<open>'s\<close>.\<close>

record 's WalOps =
  ws_load :: "'s \<Rightarrow> TimelineId \<Rightarrow> Error + AcceptorState option"
  ws_create :: "'s \<Rightarrow> TimelineId \<Rightarrow> ServerInfo \<Rightarrow> Lsn \<Rightarrow> 's \<times> (Error + AcceptorState)"
  ws_update_meta :: "'s \<Rightarrow> TimelineId \<Rightarrow> ServerInfo \<Rightarrow> Configuration option \<Rightarrow> 's \<times> (Error + AcceptorState)"
  ws_vote :: "'s \<Rightarrow> TimelineId \<Rightarrow> Term \<Rightarrow> 's \<times> (Error + bool \<times> AcceptorState)"
  ws_elected :: "'s \<Rightarrow> TimelineId \<Rightarrow> ProposerElected \<Rightarrow> 's \<times> (Error + (Deposed + AcceptorState))"
  ws_append :: "'s \<Rightarrow> TimelineId \<Rightarrow> AppendBatch \<Rightarrow> 's \<times> (Error + (Deposed + AcceptorState))"
  ws_record_commit_lsn :: "'s \<Rightarrow> TimelineId \<Rightarrow> Term \<Rightarrow> Lsn \<Rightarrow> 's \<times> (Error + (Deposed + unit))"


section \<open>The acceptor\<close>

record Acceptor =
  ac_node_id :: NodeId
  ac_tl :: TimelineId
  ac_state :: AcceptorState
  ac_commit_lsn :: Lsn
  ac_peer_horizon_lsn :: Lsn
  ac_term_start_lsn :: "Lsn option"
  ac_issued_end :: Lsn



text \<open>What a greeting changes of the server info and of the configuration.\<close>

definition greeting_server :: "AcceptorState \<Rightarrow> ProposerGreeting \<Rightarrow> ServerInfo" where
  "greeting_server st msg =
     (if pg_system_id msg \<noteq> 0 \<and> sv_system_id (st_server st) \<noteq> pg_system_id msg
      then let new_server = (st_server st)\<lparr>sv_system_id := pg_system_id msg\<rparr>
           in if pg_version msg \<noteq> 0 then new_server\<lparr>sv_pg_version := pg_version msg\<rparr> else new_server
      else st_server st)"

definition greeting_mconf :: "AcceptorState \<Rightarrow> NodeId \<Rightarrow> ProposerGreeting \<Rightarrow> Error + Configuration option" where
  "greeting_mconf st node msg =
     (if mc_generation (pg_mconf msg) > mc_generation (st_mconf st)
      then if \<not> conf_contains (pg_mconf msg) node
           then Inl (Protocol ''refusing generation {}: node {node_id} is not a member''
                  [ANat (mc_generation (pg_mconf msg)), ANat node])
           else Inr (Some (pg_mconf msg))
      else Inr None)"

definition greet_load :: "'s WalOps \<Rightarrow> 's \<Rightarrow> TimelineId \<Rightarrow> ServerInfo \<Rightarrow> bool \<Rightarrow> 's \<times> (Error + AcceptorState)" where
  "greet_load W s tid server allow_timeline_creation =
     attempt s (ws_load W s tid) (\<lambda>found. case found of
         Some st \<Rightarrow> (s, Inr st)
       | None \<Rightarrow> if allow_timeline_creation then ws_create W s tid server INVALID else (s, Inl (NotFound tid)))"

definition greet_check :: "AcceptorState \<Rightarrow> ProposerGreeting \<Rightarrow> ServerInfo \<Rightarrow> Error + unit" where
  "greet_check st msg server =
     check (case (pg_major (st_server st), pg_major server) of
         (Some have', Some got) \<Rightarrow>
           if have' \<noteq> got
           then Inl (Protocol ''timeline {tl} is Postgres {have}, the compute is Postgres {got}''
                  [ATimeline (greeting_timeline msg), ANat have', ANat got])
           else Inr ()
       | _ \<Rightarrow> Inr ()) (\<lambda>_.
     if sv_wal_seg_size (st_server st) \<noteq> pg_wal_seg_size msg
     then Inl (Protocol ''timeline {tl} has wal_seg_size {}, the compute {}''
            [ATimeline (greeting_timeline msg), ANat (sv_wal_seg_size (st_server st)), ANat (pg_wal_seg_size msg)])
     else Inr ())"

definition greet_meta ::
  "'s WalOps \<Rightarrow> 's \<Rightarrow> TimelineId \<Rightarrow> AcceptorState \<Rightarrow> ServerInfo \<Rightarrow> Configuration option \<Rightarrow> 's \<times> (Error + AcceptorState)" where
  "greet_meta W s tid st new_server new_mconf =
     (if new_server \<noteq> st_server st \<or> new_mconf \<noteq> None then ws_update_meta W s tid new_server new_mconf else (s, Inr st))"

definition greeted :: "NodeId \<Rightarrow> TimelineId \<Rightarrow> AcceptorState \<Rightarrow> Acceptor \<times> AcceptorMessage" where
  "greeted node tid st =
     (\<lparr>ac_node_id = node, ac_tl = tid, ac_state = st, ac_commit_lsn = st_commit_lsn st,
       ac_peer_horizon_lsn = st_peer_horizon_lsn st, ac_term_start_lsn = None, ac_issued_end = INVALID\<rparr>,
      MGreeting \<lparr>ag_node_id = node, ag_mconf = st_mconf st, ag_term = st_term st\<rparr>)"

definition greet :: "'s WalOps \<Rightarrow> 's \<Rightarrow> NodeId \<Rightarrow> ProposerGreeting \<Rightarrow> bool \<Rightarrow> 's \<times> (Error + Acceptor \<times> AcceptorMessage)" where
  "greet W s node msg allow_timeline_creation =
     (let tid = greeting_timeline msg;
          server = \<lparr>sv_pg_version = pg_version msg, sv_system_id = pg_system_id msg, sv_wal_seg_size = pg_wal_seg_size msg\<rparr>
      in case greet_load W s tid server allow_timeline_creation of
           (s1, Inl e) \<Rightarrow> (s1, Inl e)
         | (s1, Inr st) \<Rightarrow>
             attempt s1 (greet_check st msg server) (\<lambda>_.
             attempt s1 (greeting_mconf st node msg) (\<lambda>new_mconf.
             case greet_meta W s1 tid st (greeting_server st msg) new_mconf of
               (s2, Inl e) \<Rightarrow> (s2, Inl e)
             | (s2, Inr st2) \<Rightarrow> (s2, Inr (greeted node tid st2)))))"

text \<open>\<open>Acceptor::state\<close>\<close>

definition acceptor_state :: "Acceptor \<Rightarrow> AcceptorState" where
  "acceptor_state acc =
     (ac_state acc)\<lparr>st_commit_lsn := ac_commit_lsn acc, st_peer_horizon_lsn := ac_peer_horizon_lsn acc\<rparr>"






subsection \<open>Votes and elections\<close>



subsection \<open>Appends\<close>













subsection \<open>Terms seen elsewhere\<close>



definition commit_lsn_dirty :: "Acceptor \<Rightarrow> bool" where
  "commit_lsn_dirty acc \<longleftrightarrow> ac_commit_lsn acc > st_commit_lsn (ac_state acc)"

section \<open>What the acceptor relies on\<close>





section \<open>The store in memory provides the interface\<close>






section \<open>A connection among others\<close>












section \<open>Group commit\<close>









section \<open>Examples\<close>











end
