(* ===== verification/Spec2Isabelle.thy ===== *)
theory Spec2Isabelle
  imports LogProps CatalogProps TupleProps CommitToken WalProps Acceptor
begin

text \<open>
  \<^bold>\<open>Verification of Loams.\<close> Loams is a log, search and database server on object storage, a
  workspace of Rust crates under \<open>src/crates\<close>. Most of it is asynchronous input and output
  around third-party engines. The parts on which its guarantees rest are deterministic: the
  state machine of the metastore, which sequences the log, grants leases and keeps the catalog;
  the byte encodings of keys; and the rules by which the WAL service accepts votes and writes.
  These parts are modelled here as HOL functions that follow the Rust functions branch by
  branch, and the guarantees are proved of them.

  \<^bold>\<open>The metastore\<close> (\<open>loams-meta/src\<close>, with the types of \<open>loams-common/src\<close>). The state is the
  record \<open>MetaState\<close> of theory \<open>MetaState\<close> (\<open>state/mod.rs\<close>), with the source's maps as the
  ordered maps of theory \<open>BTreeMap\<close>. Each method of \<open>impl MetaState\<close> is one function that
  returns the state it leaves and a reply or an error.
  \<^item> \<open>MetaTypes\<close>, \<open>Schema\<close>: \<open>meta/types.rs\<close>, \<open>meta/error.rs\<close>, \<open>id.rs\<close>, \<open>schema.rs\<close>, \<open>command.rs\<close>.
  \<^item> \<open>Partition\<close>: the index of a partition (\<open>types.rs\<close>).
  \<^item> \<open>Leases\<close>, \<open>Pointers\<close>, \<open>Idempotency\<close>: the files of these names in \<open>state/\<close>.
  \<^item> \<open>Log\<close>, \<open>Objects\<close>: \<open>sequencer.rs\<close>, \<open>segments.rs\<close>, \<open>retention.rs\<close>, and the object names of
    \<open>loams-log/src/paths.rs\<close>.
  \<^item> \<open>Catalog\<close>, \<open>Collections\<close>: \<open>catalog.rs\<close>, \<open>links.rs\<close>, \<open>hot.rs\<close>, \<open>collections.rs\<close>.
  \<^item> \<open>Apply\<close>: \<open>MetaState::apply\<close>, and runs of commands.
  \<^item> \<open>Invariants\<close>: \<open>check_invariants\<close> of \<open>invariants.rs\<close>.
  The invariant of the state is proved in pieces: the log in \<open>LogInv\<close>, aliases in \<open>AliasInv\<close>,
  the catalog in \<open>CatalogInv\<close>, and its preservation by each operation in \<open>CatalogOps\<close>,
  \<open>CollectionOps\<close>, \<open>CreateOps\<close> and \<open>DropOps\<close>. \<open>Reach\<close> defines the reachable states and proves
  that \<open>check_invariants\<close> reports nothing in any of them. The guarantees over any sequence of
  commands are in \<open>LogProps\<close> (each WAL object is committed once and densely, every committed
  offset is found, segment swaps and trims keep reads, retired objects are unread), \<open>LeaseProps\<close>
  (one owner per epoch, fences, compare-and-swap, identifiers that are not reused) and
  \<open>CatalogProps\<close> (idempotent writes, additive schemas, aliases against an abstract table).
  \<open>Examples\<close> holds concrete states.

  \<^bold>\<open>Keys\<close> (\<open>loams-tikv/src\<close>). \<open>Bytes\<close> has big-endian words; \<open>TupleCodec\<close> is \<open>codec.rs\<close>, whose
  decoder recurses on a position that is proved to grow; \<open>TupleProps\<close> shows that the byte order
  is the order of the values, the round trip, that decoding stays in its buffer, and that the
  successor of a prefix bounds exactly its keys. \<open>CommitToken\<close> is \<open>token.rs\<close>.

  \<^bold>\<open>The WAL service\<close> (\<open>loams-safekeeper/src\<close>). \<open>SkTypes\<close> is \<open>types.rs\<close> with the messages of
  \<open>proto.rs\<close>: LSNs, term histories and the point where two of them diverge. \<open>WalStore\<close> is
  \<open>store.rs\<close>: the transition functions of votes, elections, appends and commit positions, and
  the store that keeps heads and chunks in memory. \<open>WalInv\<close> has its invariant and shows that each
  call is a step of a flat log. \<open>WalProps\<close> has the guarantees over any sequence of calls: one
  vote per term, no effect of a deposed proposer, committed WAL that is kept, exact reads, appends
  that may be retried, and bounded trims. \<open>Acceptor\<close> is \<open>acceptor.rs\<close>, one proposer connection
  over such a store: it acknowledges only WAL that is in the store, whatever other connections
  do in between, and a group of queued append requests becomes one write with exactly their bytes.

  \<^bold>\<open>Interfaces.\<close> The locale \<open>ordered_map\<close> is what the source relies on of its maps and is
  interpreted on the ordered maps of the model; \<open>named_table\<close> is a table of rows with a name
  index, interpreted on namespaces, streams, links and collections; \<open>fenced_op\<close> is an operation
  behind a lease's fence; \<open>wal_store\<close> is what the acceptor relies on of a store and is
  interpreted on the store in memory; \<open>stable\<close> is a property that every command keeps, interpreted on those
  that the guarantees over runs follow from.

  \<^bold>\<open>Numbers and bounds.\<close> A \<open>u64\<close> or \<open>u32\<close> is a natural number; additions that wrap in the
  release build are written with their wrap-around (\<open>wadd64\<close>, \<open>wadd32\<close>, \<open>wsum64\<close>), and saturating
  and checked ones with theirs. Codecs work on machine words. The
  theorems over runs of the metastore assume fewer than \<open>2 ^ 64\<close> commands (\<open>reachable\<close>) and, of
  each command (\<open>cmd_ok\<close>, \<open>run_ok\<close>), that a WAL object is committed under a WAL path and with the
  creation time of that name, that a partition's offsets fit \<open>u64\<close>, and that a compacted segment
  is at a fresh path unless the swap is a retry. No definition uses fuel: every function is total, its termination
  proved where the recursion is not structural.

  \<^bold>\<open>What is assumed of the outside.\<close> Commands reach the metastore as one sequence, in the order
  the replicated log gives them. A proposer of the WAL service sends a term history that ascends and begins where
  the timeline begins, and appends after it was elected (\<open>op_ok\<close>). Error messages are their
  template with its arguments. The lock of the store in memory is never poisoned.

  \<^bold>\<open>Not modelled.\<close> Raft, RocksDB and the transport of the metastore, and its second
  implementation as TiKV transactions (\<open>loams-meta-tikv\<close>): calls of third-party crates. The rest
  of \<open>loams-tikv\<close>: network clients. The data path of \<open>loams-log\<close>: object storage and Arrow
  payloads. The sockets, message codecs and durable stores of
  \<open>loams-safekeeper\<close>: network, NVMe files and TiKV. Collections, search, the hot tier and the
  gateways: Lance, Tantivy, SlateDB and qdrant-edge behind asynchronous input and output, and
  translations of wire formats. Generated protocol code, mocks and test tools.
\<close>

end
